(* ===== verification/Prelude.thy ===== *)
theory Prelude
  imports Main "HOL-Library.Word"
begin

unbundle bit_operations_syntax

text \<open>
  Types, conventions and generic lemmas shared by the components.

  \<^item> C++ integers keep their width: \<open>uint8_t\<close>, \<open>uint16_t\<close>, \<open>uint32_t\<close> and
    \<open>unsigned int\<close>, \<open>uint64_t\<close> and \<open>size_t\<close> are words of 8, 16, 32 and 64 bits.
  \<^item> A \<open>std::string\<close> is a list of bytes; \<open>size()\<close> is \<^verbatim>\<open>sz\<close>, a 64-bit word. No C++ string
    is longer than its \<open>max_size()\<close>, which is below \<open>2 ^ 64\<close>: the predicate \<^verbatim>\<open>fits\<close>.
  \<^item> A thrown exception is the value \<open>Inl\<close> of a sum type over \<^verbatim>\<open>exn\<close>; \<^verbatim>\<open>tagged_error\<close> has the
    error category, what was attempted, and the code.
  \<^item> \<^verbatim>\<open>run\<close> feeds a list of events to a step function; the locale \<^verbatim>\<open>invariant_system\<close> lifts
    a property kept by each step to whole runs.
\<close>

section \<open>Machine types\<close>

type_synonym u8 = "8 word"
type_synonym u16 = "16 word"
type_synonym u32 = "32 word"
type_synonym u64 = "64 word"
type_synonym byte = u8

datatype exn = out_of_range string | runtime_error string | invalid_argument string | length_error string
  | tagged_error string string int

text \<open>Sequencing of calls that may throw.\<close>

fun chain :: "exn + 'a \<Rightarrow> ('a \<Rightarrow> exn + 'b) \<Rightarrow> exn + 'b" where
  "chain (Inl e) f = Inl e"
| "chain (Inr x) f = f x"

definition sz :: "'a list \<Rightarrow> u64" where
  "sz xs = of_nat (length xs)"

definition fits :: "'a list \<Rightarrow> bool" where
  "fits xs \<longleftrightarrow> length xs < 2 ^ 64"

text \<open>\<open>std::string::substr(pos, n)\<close> for \<open>pos\<close> within the string, and the prefix form.\<close>

definition substr :: "'a list \<Rightarrow> u64 \<Rightarrow> u64 \<Rightarrow> 'a list" where
  "substr xs pos n = take (unat n) (drop (unat pos) xs)"

fun run :: "('e \<Rightarrow> 's \<Rightarrow> 's) \<Rightarrow> 'e list \<Rightarrow> 's \<Rightarrow> 's" where
  "run step [] s = s"
| "run step (e # es) s = run step es (step e s)"

text \<open>Every event of a run meets a side condition in the state it is applied to.\<close>

fun run_ok :: "('s \<Rightarrow> 'e \<Rightarrow> bool) \<Rightarrow> ('e \<Rightarrow> 's \<Rightarrow> 's) \<Rightarrow> 'e list \<Rightarrow> 's \<Rightarrow> bool" where
  "run_ok ok step [] s \<longleftrightarrow> True"
| "run_ok ok step (e # es) s \<longleftrightarrow> ok s e \<and> run_ok ok step es (step e s)"

section \<open>Lemmas on words and lengths\<close>

named_theorems word_nat \<open>facts that read 64-bit words as natural numbers\<close>

lemma unat_sz [simp]: "fits xs \<Longrightarrow> unat (sz xs) = length xs"
  by (simp add: sz_def fits_def unat_of_nat)

lemma fits_Nil [simp]: "fits []"
  by (simp add: fits_def)

lemma fits_take [simp]: "fits xs \<Longrightarrow> fits (take n xs)"
  by (simp add: fits_def)

lemma fits_drop [simp]: "fits xs \<Longrightarrow> fits (drop n xs)"
  by (simp add: fits_def)

lemma sz_Nil [simp]: "sz [] = 0"
  by (simp add: sz_def)

lemma sz_append: "sz (xs @ ys) = sz xs + sz ys"
  by (simp add: sz_def)

lemma sz_eq_0 [simp]: "fits xs \<Longrightarrow> sz xs = 0 \<longleftrightarrow> xs = []"
  by (metis length_0_conv unat_0 unat_0_iff unat_sz)

lemma unat_u64_less [simp]: "unat (x :: u64) < 2 ^ 64"
  using unsigned_less [of x] by simp

lemma unat_add_u64: "unat (x :: u64) + unat y < 2 ^ 64 \<Longrightarrow> unat (x + y) = unat x + unat y"
  by (simp add: unat_word_ariths)

lemma unat_Suc_u64: "unat (x :: u64) + 1 < 2 ^ 64 \<Longrightarrow> unat (x + 1) = unat x + 1"
  by (simp add: unat_word_ariths)

lemma unat_sub_u64: "y \<le> x \<Longrightarrow> unat (x - y :: u64) = unat x - unat y"
  by (simp add: unat_sub)

lemma unat_of_nat_u64 [simp]: "n < 2 ^ 64 \<Longrightarrow> unat (of_nat n :: u64) = n"
  by (simp add: unat_of_nat)

lemma uint_of_nat_Suc: "k + 1 < 2 ^ 64 \<Longrightarrow> uint (of_nat k + 1 :: u64) = int k + 1"
proof -
  assume k: "k + 1 < 2 ^ 64"
  then have u: "unat (of_nat k :: u64) = k" by (intro unat_of_nat_u64) linarith
  have "unat (of_nat k + 1 :: u64) = k + 1" using unat_Suc_u64 [of "of_nat k"] k unfolding u by blast
  then show ?thesis by (simp only: uint_nat of_nat_add of_nat_1)
qed

lemma uint_less_nat: "unat (w :: u64) < n \<Longrightarrow> uint w < int n"
  by (simp only: uint_nat of_nat_less_iff)

lemma of_nat_u64_eq_0: "n < 2 ^ 64 \<Longrightarrow> (of_nat n :: u64) = 0 \<longleftrightarrow> n = 0"
  by (simp add: word_of_nat_eq_0_iff) (auto dest: dvd_imp_le)

lemma u64_eqI: "unat (x :: u64) = unat y \<Longrightarrow> x = y"
  by (simp add: word_unat_eq_iff)

lemmas [word_nat] = word_less_nat_alt word_le_nat_alt

lemma substr_0: "substr xs 0 n = take (unat n) xs"
  by (simp add: substr_def)

lemma of_nat_length_take:
  "unat n \<le> length xs \<Longrightarrow> sz (take (unat n) xs) = n"
  by (simp add: sz_def)

section \<open>Invariants of step systems\<close>

text \<open>
  The contract of a component driven from outside: \<open>step\<close> is the transition, \<open>ok\<close> what the
  driver guarantees of an event in a state, \<open>inv\<close> what every step keeps.
\<close>

locale invariant_system =
  fixes step :: "'e \<Rightarrow> 's \<Rightarrow> 's"
    and ok :: "'s \<Rightarrow> 'e \<Rightarrow> bool"
    and inv :: "'s \<Rightarrow> bool"
  assumes step_inv: "inv s \<Longrightarrow> ok s e \<Longrightarrow> inv (step e s)"
begin

lemma run_inv: "inv s \<Longrightarrow> run_ok ok step es s \<Longrightarrow> inv (run step es s)"
  by (induction es arbitrary: s) (auto intro: step_inv)

end

text \<open>
  What a run hands out, event by event, and the contract of a component that hands out a stream in
  order: in a state that has handed out \<open>count s\<close> elements the next step continues from there.
\<close>

fun history :: "('e \<Rightarrow> 's \<Rightarrow> 'a list) \<Rightarrow> ('e \<Rightarrow> 's \<Rightarrow> 's) \<Rightarrow> 'e list \<Rightarrow> 's \<Rightarrow> 'a list" where
  "history f step [] s = []"
| "history f step (e # es) s = f e s @ history f step es (step e s)"

locale delivery_system = invariant_system step ok inv
  for step :: "'e \<Rightarrow> 's \<Rightarrow> 's" and ok :: "'s \<Rightarrow> 'e \<Rightarrow> bool" and inv :: "'s \<Rightarrow> bool" +
  fixes delivers :: "'e \<Rightarrow> 's \<Rightarrow> 'a list"
    and count :: "'s \<Rightarrow> nat"
    and stream :: "nat \<Rightarrow> 'a"
  assumes step_delivers: "inv s \<Longrightarrow> ok s e \<Longrightarrow>
    map stream [0..<count s] @ delivers e s = map stream [0..<count (step e s)]"
begin

lemma run_delivers:
  "inv s \<Longrightarrow> run_ok ok step es s \<Longrightarrow>
     map stream [0..<count s] @ history delivers step es s = map stream [0..<count (run step es s)]"
proof (induction es arbitrary: s)
  case (Cons e es)
  then have s: "inv s" "ok s e" "run_ok ok step es (step e s)" by simp_all
  show ?case
    using Cons.IH [OF step_inv [OF s(1,2)] s(3)] step_delivers [OF s(1,2)] by (simp flip: append_assoc)
qed simp

end

lemma run_append: "run step (xs @ ys) s = run step ys (run step xs s)"
  by (induction xs arbitrary: s) auto

lemma run_ok_append:
  "run_ok ok step (xs @ ys) s \<longleftrightarrow> run_ok ok step xs s \<and> run_ok ok step ys (run step xs s)"
  by (induction xs arbitrary: s) auto

end
