(* ===== verification/ByteStreams.thy ===== *)
theory ByteStreams
  imports Prelude
begin

text \<open>
  \<^verbatim>\<open>libsponge/byte_stream.{hh,cc}\<close>: the flow-controlled in-memory byte stream.
  The record has the class's members; each method is one definition, a method that changes the
  object returns the new one. The contract the reassembler and the sender rely on is the locale
  \<^verbatim>\<open>byte_channel\<close>, interpreted on these definitions.
\<close>

section \<open>Model\<close>

record ByteStream =
  bs_buf :: "byte list"
  bs_capacity :: u64
  bs_write_count :: u64
  bs_read_count :: u64
  bs_is_eof :: bool
  bs_error :: bool

definition ByteStream_new :: "u64 \<Rightarrow> ByteStream" where
  "ByteStream_new capacity =
     \<lparr>bs_buf = [], bs_capacity = capacity, bs_write_count = 0, bs_read_count = 0,
      bs_is_eof = False, bs_error = False\<rparr>"

definition ByteStream_write :: "ByteStream \<Rightarrow> byte list \<Rightarrow> ByteStream \<times> u64" where
  "ByteStream_write s data =
     (let len = sz data;
          len = (if bs_capacity s - sz (bs_buf s) < len then bs_capacity s - sz (bs_buf s) else len)
      in (s\<lparr>bs_buf := bs_buf s @ substr data 0 len,
            bs_write_count := bs_write_count s + len\<rparr>, len))"

definition peek_output :: "ByteStream \<Rightarrow> u64 \<Rightarrow> byte list" where
  "peek_output s len = substr (bs_buf s) 0 len"

definition pop_output :: "ByteStream \<Rightarrow> u64 \<Rightarrow> ByteStream" where
  "pop_output s len =
     s\<lparr>bs_read_count := bs_read_count s + len, bs_buf := drop (unat len) (bs_buf s)\<rparr>"

definition ByteStream_read :: "ByteStream \<Rightarrow> u64 \<Rightarrow> ByteStream \<times> byte list" where
  "ByteStream_read s len =
     (let read_len = (if sz (bs_buf s) < len then sz (bs_buf s) else len);
          ans = peek_output s read_len
      in (pop_output s read_len, ans))"

definition end_input :: "ByteStream \<Rightarrow> ByteStream" where
  "end_input s = s\<lparr>bs_is_eof := True\<rparr>"

definition set_error :: "ByteStream \<Rightarrow> ByteStream" where
  "set_error s = s\<lparr>bs_error := True\<rparr>"

definition input_ended :: "ByteStream \<Rightarrow> bool" where
  "input_ended s = bs_is_eof s"

definition stream_error :: "ByteStream \<Rightarrow> bool" where
  "stream_error s \<longleftrightarrow> bs_error s"

definition buffer_size :: "ByteStream \<Rightarrow> u64" where
  "buffer_size s = sz (bs_buf s)"

definition buffer_empty :: "ByteStream \<Rightarrow> bool" where
  "buffer_empty s \<longleftrightarrow> sz (bs_buf s) = 0"

definition ByteStream_eof :: "ByteStream \<Rightarrow> bool" where
  "ByteStream_eof s \<longleftrightarrow> input_ended s \<and> buffer_empty s"

definition bytes_written :: "ByteStream \<Rightarrow> u64" where
  "bytes_written s = bs_write_count s"

definition bytes_read :: "ByteStream \<Rightarrow> u64" where
  "bytes_read s = bs_read_count s"

definition remaining_capacity :: "ByteStream \<Rightarrow> u64" where
  "remaining_capacity s = bs_capacity s - sz (bs_buf s)"

section \<open>Invariant\<close>

text \<open>The buffer is within the capacity and the two counters differ by what is buffered.\<close>

definition bs_inv :: "ByteStream \<Rightarrow> bool" where
  "bs_inv s \<longleftrightarrow> length (bs_buf s) \<le> unat (bs_capacity s)
     \<and> bs_write_count s = bs_read_count s + sz (bs_buf s)"

text \<open>Free room as a number of bytes.\<close>

definition room :: "ByteStream \<Rightarrow> nat" where
  "room s = unat (remaining_capacity s)"

lemma bs_inv_fits [simp]: "bs_inv s \<Longrightarrow> fits (bs_buf s)"
  using unat_u64_less [of "bs_capacity s"] by (auto simp: bs_inv_def fits_def)

lemma room_eq: "bs_inv s \<Longrightarrow> room s = unat (bs_capacity s) - length (bs_buf s)"
  using bs_inv_fits [of s]
  by (simp add: room_def remaining_capacity_def bs_inv_def unat_sub_u64 word_le_nat_alt)

lemma bs_inv_new [simp]: "bs_inv (ByteStream_new c)"
  by (simp add: bs_inv_def ByteStream_new_def)

lemma new_fields [simp]:
  "bs_buf (ByteStream_new c) = []" "bs_capacity (ByteStream_new c) = c"
  "bs_write_count (ByteStream_new c) = 0" "bs_read_count (ByteStream_new c) = 0"
  "\<not> bs_is_eof (ByteStream_new c)" "\<not> bs_error (ByteStream_new c)"
  by (simp_all add: ByteStream_new_def)

text \<open>The number of bytes \<open>write\<close> accepts.\<close>

lemma write_len:
  assumes "bs_inv s" "fits d"
  shows "unat (snd (ByteStream_write s d)) = min (length d) (room s)"
  using assms
  by (auto simp: ByteStream_write_def Let_def room_def remaining_capacity_def word_less_nat_alt)

lemma write_buf:
  assumes "bs_inv s" "fits d"
  shows "bs_buf (fst (ByteStream_write s d)) = bs_buf s @ take (room s) d"
  using assms
  by (auto simp: ByteStream_write_def Let_def room_def remaining_capacity_def word_less_nat_alt
      substr_0)

lemma write_count:
  "bs_write_count (fst (ByteStream_write s d)) = bs_write_count s + snd (ByteStream_write s d)"
  by (simp add: ByteStream_write_def Let_def)

lemma write_frame [simp]:
  "bs_capacity (fst (ByteStream_write s d)) = bs_capacity s"
  "bs_read_count (fst (ByteStream_write s d)) = bs_read_count s"
  "bs_is_eof (fst (ByteStream_write s d)) = bs_is_eof s"
  "bs_error (fst (ByteStream_write s d)) = bs_error s"
  by (simp_all add: ByteStream_write_def Let_def)

lemma write_count_sz:
  assumes "bs_inv s" "fits d"
  shows "bs_write_count (fst (ByteStream_write s d)) = bs_write_count s + sz (take (room s) d)"
proof -
  have "snd (ByteStream_write s d) = sz (take (room s) d)"
    using write_len [OF assms] assms(2) by (intro u64_eqI) (simp add: min.commute)
  then show ?thesis by (simp add: write_count)
qed

lemma bs_inv_write:
  assumes "bs_inv s" "fits d"
  shows "bs_inv (fst (ByteStream_write s d))"
  using assms room_eq [OF assms(1)]
  by (auto simp: bs_inv_def write_buf write_count_sz sz_append)

lemma room_write:
  assumes "bs_inv s" "fits d"
  shows "room (fst (ByteStream_write s d)) = room s - length d"
  using assms bs_inv_write [OF assms]
  by (auto simp: room_eq write_buf min_def)

lemma pop_frame [simp]:
  "bs_capacity (pop_output s n) = bs_capacity s"
  "bs_write_count (pop_output s n) = bs_write_count s"
  "bs_is_eof (pop_output s n) = bs_is_eof s"
  "bs_error (pop_output s n) = bs_error s"
  "bs_buf (pop_output s n) = drop (unat n) (bs_buf s)"
  "bs_read_count (pop_output s n) = bs_read_count s + n"
  by (simp_all add: pop_output_def)

lemma bs_inv_pop:
  assumes "bs_inv s" "unat n \<le> length (bs_buf s)"
  shows "bs_inv (pop_output s n)"
proof -
  have "sz (bs_buf s) = n + sz (drop (unat n) (bs_buf s))"
    using assms(2) sz_append [of "take (unat n) (bs_buf s)" "drop (unat n) (bs_buf s)"]
    by (simp add: of_nat_length_take)
  then show ?thesis using assms by (auto simp: bs_inv_def)
qed

lemma read_len:
  assumes "bs_inv s"
  shows "unat (if sz (bs_buf s) < n then sz (bs_buf s) else n) = min (unat n) (length (bs_buf s))"
  using assms by (auto simp: word_less_nat_alt)

lemma read_state:
  assumes "bs_inv s"
  shows "fst (ByteStream_read s n) = pop_output s (of_nat (min (unat n) (length (bs_buf s))))"
    and "snd (ByteStream_read s n) = take (unat n) (bs_buf s)"
proof -
  have e: "(if sz (bs_buf s) < n then sz (bs_buf s) else n)
      = of_nat (min (unat n) (length (bs_buf s)))"
    by (subst read_len [OF assms, symmetric]) simp
  show "fst (ByteStream_read s n) = pop_output s (of_nat (min (unat n) (length (bs_buf s))))"
    unfolding ByteStream_read_def Let_def by (simp only: e fst_conv)
  show "snd (ByteStream_read s n) = take (unat n) (bs_buf s)"
    unfolding ByteStream_read_def Let_def peek_output_def substr_0 read_len [OF assms]
    by (simp add: min_def)
qed

lemma unat_read_amount: "bs_inv s \<Longrightarrow>
  unat (of_nat (min (unat n) (length (bs_buf s))) :: u64) = min (unat (n :: u64)) (length (bs_buf s))"
  using unat_u64_less [of n] by (simp add: unat_of_nat min_def)

lemma bs_inv_read:
  assumes "bs_inv s"
  shows "bs_inv (fst (ByteStream_read s n))"
  using assms by (simp add: read_state bs_inv_pop unat_read_amount)

lemma read_buf:
  assumes "bs_inv s"
  shows "bs_buf s = snd (ByteStream_read s n) @ bs_buf (fst (ByteStream_read s n))"
  using assms unat_read_amount [OF assms, of n] by (simp add: read_state min_def)

lemma read_counts:
  assumes "bs_inv s"
  shows "bs_read_count (fst (ByteStream_read s n)) = bs_read_count s + sz (snd (ByteStream_read s n))"
  using assms by (simp add: read_state sz_def min.commute)

lemma end_frame [simp]:
  "bs_buf (end_input s) = bs_buf s" "bs_capacity (end_input s) = bs_capacity s"
  "bs_write_count (end_input s) = bs_write_count s" "bs_read_count (end_input s) = bs_read_count s"
  "bs_is_eof (end_input s)" "bs_error (end_input s) = bs_error s"
  by (simp_all add: end_input_def)

lemma error_frame [simp]:
  "bs_buf (set_error s) = bs_buf s" "bs_capacity (set_error s) = bs_capacity s"
  "bs_write_count (set_error s) = bs_write_count s" "bs_read_count (set_error s) = bs_read_count s"
  "bs_is_eof (set_error s) = bs_is_eof s" "bs_error (set_error s)"
  by (simp_all add: set_error_def)

lemma bs_inv_flags [simp]: "bs_inv (end_input s) = bs_inv s" "bs_inv (set_error s) = bs_inv s"
  by (simp_all add: bs_inv_def)

section \<open>The contract of a byte channel\<close>

text \<open>
  What a writer relies on: \<open>put\<close> appends the prefix that fits, uses up that much room and counts
  it. Writing byte by byte, as the reassembler does, is then the same as one write.
\<close>

locale byte_channel =
  fixes inv :: "'s \<Rightarrow> bool"
    and contents :: "'s \<Rightarrow> byte list"
    and free :: "'s \<Rightarrow> nat"
    and written :: "'s \<Rightarrow> u64"
    and put :: "'s \<Rightarrow> byte list \<Rightarrow> 's"
  assumes put_inv: "inv s \<Longrightarrow> fits d \<Longrightarrow> inv (put s d)"
    and put_contents: "inv s \<Longrightarrow> fits d \<Longrightarrow> contents (put s d) = contents s @ take (free s) d"
    and put_free: "inv s \<Longrightarrow> fits d \<Longrightarrow> free (put s d) = free s - length d"
    and put_written: "inv s \<Longrightarrow> fits d \<Longrightarrow> written (put s d) = written s + sz (take (free s) d)"
begin

lemma put_bytes_inv: "inv s \<Longrightarrow> inv (fold (\<lambda>b s. put s [b]) d s)"
  by (induction d arbitrary: s) (simp_all add: put_inv fits_def)

lemma put_bytes:
  "inv s \<Longrightarrow> contents (fold (\<lambda>b s. put s [b]) d s) = contents s @ take (free s) d
     \<and> free (fold (\<lambda>b s. put s [b]) d s) = free s - length d
     \<and> written (fold (\<lambda>b s. put s [b]) d s) = written s + sz (take (free s) d)"
proof (induction d arbitrary: s)
  case (Cons b d)
  have f: "fits [b]" by (simp add: fits_def)
  from Cons.IH [OF put_inv [OF Cons.prems f]] show ?case
    using put_contents [OF Cons.prems f] put_free [OF Cons.prems f] put_written [OF Cons.prems f]
    by (cases "free s") (simp_all add: sz_def)
qed simp

end

interpretation bs: byte_channel bs_inv bs_buf room bs_write_count "\<lambda>s d. fst (ByteStream_write s d)"
  by unfold_locales (simp_all add: bs_inv_write write_buf room_write write_count_sz)

section \<open>Histories\<close>

datatype bs_op = BWrite "byte list" | BRead u64 | BPop u64 | BEnd | BError

fun bs_step :: "bs_op \<Rightarrow> ByteStream \<Rightarrow> ByteStream" where
  "bs_step (BWrite d) s = fst (ByteStream_write s d)"
| "bs_step (BRead n) s = fst (ByteStream_read s n)"
| "bs_step (BPop n) s = pop_output s n"
| "bs_step BEnd s = end_input s"
| "bs_step BError s = set_error s"

text \<open>The bytes an operation takes from the writer and the bytes it hands to the reader.\<close>

fun bs_accepts :: "bs_op \<Rightarrow> ByteStream \<Rightarrow> byte list" where
  "bs_accepts (BWrite d) s = take (unat (snd (ByteStream_write s d))) d"
| "bs_accepts _ s = []"

fun bs_delivers :: "bs_op \<Rightarrow> ByteStream \<Rightarrow> byte list" where
  "bs_delivers (BRead n) s = snd (ByteStream_read s n)"
| "bs_delivers (BPop n) s = peek_output s n"
| "bs_delivers _ s = []"

abbreviation bs_hist :: "(bs_op \<Rightarrow> ByteStream \<Rightarrow> byte list) \<Rightarrow> bs_op list \<Rightarrow> ByteStream \<Rightarrow> byte list" where
  "bs_hist f \<equiv> history f bs_step"

text \<open>What the callers guarantee: representable strings, and no pop beyond the buffer.\<close>

fun bs_ok :: "ByteStream \<Rightarrow> bs_op \<Rightarrow> bool" where
  "bs_ok s (BWrite d) = fits d"
| "bs_ok s (BPop n) = (n \<le> buffer_size s)"
| "bs_ok s _ = True"

lemma bs_ok_pop: "bs_inv s \<Longrightarrow> bs_ok s (BPop n) \<longleftrightarrow> unat n \<le> length (bs_buf s)"
  by (simp add: buffer_size_def word_le_nat_alt)

interpretation bs_sys: invariant_system bs_step bs_ok bs_inv
proof
  fix s e
  assume "bs_inv s" "bs_ok s e"
  then show "bs_inv (bs_step e s)"
    using bs_ok_pop by (cases e) (auto simp: bs_inv_write bs_inv_read bs_inv_pop)
qed

lemma bs_step_fifo:
  assumes "bs_inv s" "bs_ok s e"
  shows "bs_buf s @ bs_accepts e s = bs_delivers e s @ bs_buf (bs_step e s)"
proof (cases e)
  case (BWrite d)
  with assms show ?thesis by (simp add: write_buf write_len) (simp add: min_def)
next
  case (BRead n)
  with assms show ?thesis using read_buf by simp
next
  case (BPop n)
  then show ?thesis by (simp add: peek_output_def substr_0)
qed simp_all

lemma take_min_length: "take (min (length xs) n) xs = take n xs"
  by (simp add: min_def)

lemma bs_step_counts:
  assumes "bs_inv s" "bs_ok s e"
  shows "bytes_written (bs_step e s) = bytes_written s + sz (bs_accepts e s)"
    and "bytes_read (bs_step e s) = bytes_read s + sz (bs_delivers e s)"
proof -
  show "bytes_written (bs_step e s) = bytes_written s + sz (bs_accepts e s)"
    using assms
    by (cases e) (simp_all add: bytes_written_def read_state write_count_sz write_len
        take_min_length)
  show "bytes_read (bs_step e s) = bytes_read s + sz (bs_delivers e s)"
  proof (cases e)
    case (BRead n)
    with assms show ?thesis by (simp add: bytes_read_def read_state sz_def min.commute)
  next
    case (BPop n)
    with assms bs_ok_pop show ?thesis
      by (simp add: bytes_read_def peek_output_def substr_0 of_nat_length_take)
  qed (simp_all add: bytes_read_def)
qed

lemma bs_run_fifo:
  "bs_inv s \<Longrightarrow> run_ok bs_ok bs_step es s \<Longrightarrow>
     bs_buf s @ bs_hist bs_accepts es s = bs_hist bs_delivers es s @ bs_buf (run bs_step es s)
     \<and> bytes_written (run bs_step es s) = bytes_written s + sz (bs_hist bs_accepts es s)
     \<and> bytes_read (run bs_step es s) = bytes_read s + sz (bs_hist bs_delivers es s)"
proof (induction es arbitrary: s)
  case (Cons e es)
  then have e: "bs_inv s" "bs_ok s e" and o: "run_ok bs_ok bs_step es (bs_step e s)" by simp_all
  note ih = Cons.IH [OF bs_sys.step_inv [OF e] o]
  have "bs_buf s @ bs_hist bs_accepts (e # es) s
      = bs_delivers e s @ bs_buf (bs_step e s) @ bs_hist bs_accepts es (bs_step e s)"
    using bs_step_fifo [OF e] by simp
  then show ?case using ih bs_step_counts [OF e] by (simp add: sz_append)
qed simp

lemma bs_run_capacity: "bs_capacity (run bs_step es s) = bs_capacity s"
proof (induction es arbitrary: s)
  case (Cons e es)
  have "bs_capacity (bs_step e s) = bs_capacity s"
    by (cases e) (simp_all add: ByteStream_read_def Let_def)
  then show ?case using Cons by simp
qed simp

text \<open>
  Order, capacity and the count of written bytes do not depend on how much the reader pops: they hold even where a
  pop asks for more than is buffered and the invariant on the counters is lost.
\<close>

abbreviation within_capacity :: "ByteStream \<Rightarrow> bool" where
  "within_capacity s \<equiv> length (bs_buf s) \<le> unat (bs_capacity s)"

lemma bs_step_any:
  assumes "within_capacity s" and "\<And>d. e = BWrite d \<Longrightarrow> fits d"
  shows "bs_buf s @ bs_accepts e s = bs_delivers e s @ bs_buf (bs_step e s)"
    and "within_capacity (bs_step e s)"
    and "bytes_written (bs_step e s) = bytes_written s + sz (bs_accepts e s)"
proof -
  define t where "t = s\<lparr>bs_read_count := bs_write_count s - sz (bs_buf s)\<rparr>"
  have t: "bs_inv t" "bs_buf t = bs_buf s" "bytes_written t = bytes_written s"
    using assms(1) by (simp_all add: t_def bs_inv_def bytes_written_def)
  have eq: "bs_accepts e t = bs_accepts e s" "bs_delivers e t = bs_delivers e s"
    "bs_buf (bs_step e t) = bs_buf (bs_step e s)" "bs_capacity (bs_step e t) = bs_capacity (bs_step e s)"
    "bytes_written (bs_step e t) = bytes_written (bs_step e s)"
    by (cases e; simp add: t_def ByteStream_write_def ByteStream_read_def pop_output_def peek_output_def end_input_def set_error_def
        bytes_written_def Let_def)+
  have "bs_buf t @ bs_accepts e t = bs_delivers e t @ bs_buf (bs_step e t) \<and> within_capacity (bs_step e t)
    \<and> bytes_written (bs_step e t) = bytes_written t + sz (bs_accepts e t)"
  proof (cases "\<exists>n. e = BPop n")
    case True
    then show ?thesis
      using t(1) by (auto simp: peek_output_def substr_0 pop_output_def bytes_written_def bs_inv_def)
  next
    case False
    then have "bs_ok t e" using assms(2) by (cases e) auto
    then show ?thesis
      using bs_step_fifo [OF t(1)] bs_step_counts(1) [OF t(1)] bs_sys.step_inv [OF t(1)] by (simp add: bs_inv_def)
  qed
  then show "bs_buf s @ bs_accepts e s = bs_delivers e s @ bs_buf (bs_step e s)" "within_capacity (bs_step e s)"
    "bytes_written (bs_step e s) = bytes_written s + sz (bs_accepts e s)"
    unfolding eq t(2,3) by blast+
qed

lemma bs_run_any:
  "within_capacity s \<Longrightarrow> \<forall>d. BWrite d \<in> set es \<longrightarrow> fits d \<Longrightarrow>
     bs_buf s @ bs_hist bs_accepts es s = bs_hist bs_delivers es s @ bs_buf (run bs_step es s)
     \<and> within_capacity (run bs_step es s)
     \<and> bytes_written (run bs_step es s) = bytes_written s + sz (bs_hist bs_accepts es s)"
proof (induction es arbitrary: s)
  case (Cons e es)
  then have f: "\<And>d. e = BWrite d \<Longrightarrow> fits d" "\<forall>d. BWrite d \<in> set es \<longrightarrow> fits d" by auto
  note st = bs_step_any [OF Cons.prems(1) f(1)]
  note ih = Cons.IH [OF st(2) f(2)]
  have "bs_buf s @ bs_hist bs_accepts (e # es) s
      = bs_delivers e s @ bs_buf (bs_step e s) @ bs_hist bs_accepts es (bs_step e s)"
    using st(1) by simp
  then show ?case using ih st(3) by (simp add: sz_append)
qed simp

section \<open>A stream that holds part of a given sequence\<close>

text \<open>
  \<open>S\<close> is the whole sequence of bytes; a stream holds the part of it between its two counters.
\<close>

definition bs_holds :: "(nat \<Rightarrow> byte) \<Rightarrow> ByteStream \<Rightarrow> bool" where
  "bs_holds S s \<longleftrightarrow> length (bs_buf s) \<le> unat (bs_capacity s)
     \<and> unat (bs_read_count s) \<le> unat (bs_write_count s)
     \<and> bs_buf s = map S [unat (bs_read_count s)..<unat (bs_write_count s)]"

lemma bs_holds_inv: "bs_holds S s \<Longrightarrow> bs_inv s"
  by (auto simp: bs_holds_def bs_inv_def sz_def)

lemma bs_holds_new [simp]: "bs_holds S (ByteStream_new c)"
  by (simp add: bs_holds_def)

lemma bs_holds_flags [simp]:
  "bs_holds S (end_input s) = bs_holds S s" "bs_holds S (set_error s) = bs_holds S s"
  by (simp_all add: bs_holds_def)

lemma room_flags [simp]: "room (end_input s) = room s" "room (set_error s) = room s"
  by (simp_all add: room_def remaining_capacity_def)

lemma fits_single [simp]: "fits [b]"
  by (simp add: fits_def)

lemma bs_holds_write:
  assumes "bs_holds S s" "0 < room s" "unat (bs_write_count s) + 1 < 2 ^ 64"
    "b = S (unat (bs_write_count s))"
  shows "bs_holds S (fst (ByteStream_write s [b]))"
    and "bs_write_count (fst (ByteStream_write s [b])) = bs_write_count s + 1"
    and "room (fst (ByteStream_write s [b])) = room s - 1"
proof -
  note i = bs_holds_inv [OF assms(1)]
  have t: "take (room s) [b] = [b]" using assms(2) by (cases "room s") simp_all
  show c: "bs_write_count (fst (ByteStream_write s [b])) = bs_write_count s + 1"
    using bs.put_written [OF i, of "[b]"] t by (simp add: sz_def)
  have u: "unat (bs_write_count s + 1) = unat (bs_write_count s) + 1"
    using assms(3) by (rule unat_Suc_u64)
  have "bs_inv (fst (ByteStream_write s [b]))" using i by (rule bs.put_inv) simp
  then have "length (bs_buf (fst (ByteStream_write s [b]))) \<le> unat (bs_capacity s)"
    by (simp add: bs_inv_def)
  then show "bs_holds S (fst (ByteStream_write s [b]))"
    using assms(1) bs.put_contents [OF i, of "[b]"] t
    unfolding bs_holds_def c u by (simp add: assms(4) [symmetric])
  show "room (fst (ByteStream_write s [b])) = room s - 1"
    using bs.put_free [OF i, of "[b]"] by simp
qed

lemma bs_holds_pop:
  assumes "bs_holds S s" "unat n \<le> length (bs_buf s)"
  shows "bs_holds S (pop_output s n)"
proof -
  have "unat (bs_read_count s) + unat n \<le> unat (bs_write_count s)"
    using assms by (auto simp: bs_holds_def)
  moreover from this have "unat (bs_read_count s + n) = unat (bs_read_count s) + unat n"
    using unat_u64_less [of "bs_write_count s"] by (intro unat_add_u64) linarith
  ultimately show ?thesis
    using assms(1) by (auto simp: bs_holds_def drop_map)
qed

lemma bs_holds_read:
  assumes "bs_holds S s"
  shows "bs_holds S (fst (ByteStream_read s n))"
  using assms bs_holds_inv [OF assms] by (simp add: read_state bs_holds_pop unat_read_amount)

lemma read_frame [simp]:
  "bs_capacity (fst (ByteStream_read s n)) = bs_capacity s"
  "bs_write_count (fst (ByteStream_read s n)) = bs_write_count s"
  "bs_is_eof (fst (ByteStream_read s n)) = bs_is_eof s"
  "bs_error (fst (ByteStream_read s n)) = bs_error s"
  by (simp_all add: ByteStream_read_def Let_def)

text \<open>What the reader gets in one step is the next part of the stream.\<close>

lemma bs_holds_delivered:
  assumes h: "bs_holds S s" "bs_holds S s'" and w: "bs_write_count s' = bs_write_count s"
    and b: "bs_buf s = d @ bs_buf s'"
  shows "map S [0..<unat (bs_read_count s)] @ d = map S [0..<unat (bs_read_count s')]"
proof -
  let ?a = "unat (bs_read_count s)" and ?b = "unat (bs_read_count s')"
    and ?w = "unat (bs_write_count s)"
  have e: "map S [?a..<?w] = d @ map S [?b..<?w]" and le: "?a \<le> ?w" "?b \<le> ?w"
    using h w b by (simp_all add: bs_holds_def)
  have "?w - ?a = length d + (?w - ?b)" using arg_cong [OF e, of length] by simp
  then have ab: "?a \<le> ?b" using le by linarith
  then have "[?a..<?w] = [?a..<?b] @ [?b..<?w]"
    using le by (metis le_add_diff_inverse upt_add_eq_append)
  then have "d = map S [?a..<?b]" using e by simp
  moreover have "[0..<?b] = [0..<?a] @ [?a..<?b]"
    using ab by (metis le0 le_add_diff_inverse upt_add_eq_append)
  ultimately show ?thesis by simp
qed

lemma bs_holds_append:
  assumes h: "bs_holds S s" and f: "fits d"
    and d: "d = map S [unat (bs_write_count s)..<unat (bs_write_count s) + length d]"
    and b: "unat (bs_write_count s) + length d < 2 ^ 64"
  shows "bs_holds S (fst (ByteStream_write s d))"
    and "unat (bs_write_count (fst (ByteStream_write s d))) = unat (bs_write_count s) + min (room s) (length d)"
proof -
  note i = bs_holds_inv [OF h]
  let ?w = "unat (bs_write_count s)" and ?n = "min (room s) (length d)"
  have "unat (sz (take (room s) d)) = ?n" using f by simp
  then show w: "unat (bs_write_count (fst (ByteStream_write s d))) = ?w + ?n"
    using b unat_add_u64 [of "bs_write_count s" "sz (take (room s) d)"] by (simp add: write_count_sz [OF i f])
  have "take (room s) d = map S (take ?n [?w..<?w + length d])"
    using arg_cong [OF d, of "take ?n"] by (simp add: take_map min_def split: if_splits)
  also have "take ?n [?w..<?w + length d] = [?w..<?w + ?n]" by (rule take_upt) simp
  finally have t: "take (room s) d = map S [?w..<?w + ?n]" .
  have le: "unat (bs_read_count s) \<le> ?w" using h by (simp add: bs_holds_def)
  then have "[unat (bs_read_count s)..<?w + ?n] = [unat (bs_read_count s)..<?w] @ [?w..<?w + ?n]"
    by (rule upt_add_eq_append)
  then have "bs_buf (fst (ByteStream_write s d)) = map S [unat (bs_read_count s)..<?w + ?n]"
    using h by (simp add: write_buf [OF i f] t bs_holds_def)
  moreover have "length (bs_buf (fst (ByteStream_write s d))) \<le> unat (bs_capacity s)"
    using bs_inv_write [OF i f] by (simp add: bs_inv_def)
  ultimately show "bs_holds S (fst (ByteStream_write s d))"
    unfolding bs_holds_def w using le by simp
qed

lemma bs_holds_front:
  assumes "bs_holds S s" and "bs_buf s = d @ rest"
  shows "d = map S [unat (bs_read_count s)..<unat (bs_read_count s) + length d]"
proof -
  let ?a = "unat (bs_read_count s)" and ?w = "unat (bs_write_count s)"
  have e: "map S [?a..<?w] = d @ rest" and le: "?a \<le> ?w" using assms by (simp_all add: bs_holds_def)
  have "?w - ?a = length d + length rest" using arg_cong [OF e, of length] by simp
  then have "?a + length d \<le> ?w" using le by linarith
  then have "take (length d) [?a..<?w] = [?a..<?a + length d]" by (rule take_upt)
  then show ?thesis using arg_cong [OF e, of "take (length d)"] by (simp add: take_map)
qed

lemma bs_holds_total:
  assumes "bs_holds S s"
  shows "map S [0..<unat (bs_read_count s)] @ bs_buf s = map S [0..<unat (bs_write_count s)]"
proof -
  have le: "unat (bs_read_count s) \<le> unat (bs_write_count s)" using assms by (simp add: bs_holds_def)
  then have "[0..<unat (bs_write_count s)]
      = [0..<unat (bs_read_count s)] @ [unat (bs_read_count s)..<unat (bs_write_count s)]"
    by (metis le0 le_add_diff_inverse upt_add_eq_append)
  then show ?thesis using assms by (simp add: bs_holds_def)
qed

section \<open>Properties\<close>

text \<open>
  C17. A byte stream is a bounded FIFO. After any sequence of writes, reads, pops and flag changes on a fresh stream, the bytes handed
  to the reader followed by the bytes still buffered are exactly the bytes accepted from the writer, the buffer is within the capacity
  and \<open>bytes_written\<close> counts the accepted bytes. If no pop asked for more than was buffered, \<open>bytes_read\<close> counts the delivered ones.
\<close>

theorem ByteStream_fifo:
  assumes "\<forall>d. BWrite d \<in> set ops \<longrightarrow> fits d"
  shows "bs_hist bs_accepts ops (ByteStream_new cap)
      = bs_hist bs_delivers ops (ByteStream_new cap) @ bs_buf (run bs_step ops (ByteStream_new cap))
    \<and> length (bs_buf (run bs_step ops (ByteStream_new cap))) \<le> unat cap
    \<and> bytes_written (run bs_step ops (ByteStream_new cap)) = sz (bs_hist bs_accepts ops (ByteStream_new cap))
    \<and> (run_ok bs_ok bs_step ops (ByteStream_new cap) \<longrightarrow>
         bytes_read (run bs_step ops (ByteStream_new cap)) = sz (bs_hist bs_delivers ops (ByteStream_new cap)))"
proof -
  have i: "bs_inv (ByteStream_new cap)" "within_capacity (ByteStream_new cap)"
    "bytes_written (ByteStream_new cap) = 0" "bytes_read (ByteStream_new cap) = 0"
    by (simp_all add: bytes_written_def bytes_read_def)
  show ?thesis
    using bs_run_any [OF i(2) assms] bs_run_fifo [OF i(1)] i(3,4) by (simp add: bs_run_capacity)
qed

theorem ByteStream_fifo_witness:
  "bs_hist bs_delivers [BWrite [1, 2, 3], BRead 1, BWrite [4, 5], BPop 1] (ByteStream_new 2) = [1, 2]
   \<and> bs_hist bs_accepts [BWrite [1, 2, 3], BRead 1, BWrite [4, 5], BPop 1] (ByteStream_new 2) = [1, 2, 4]
   \<and> bs_buf (run bs_step [BWrite [1, 2, 3], BRead 1, BWrite [4, 5], BPop 1] (ByteStream_new 2)) = [4]
   \<and> bytes_read (run bs_step [BWrite [1, 2, 3], BRead 1, BWrite [4, 5], BPop 1] (ByteStream_new 2)) = 2"
proof -
  let ?ops = "[BWrite [1, 2, 3], BRead 1, BWrite [4, 5], BPop 1]"
  have d: "bs_hist bs_delivers ?ops (ByteStream_new 2) = [1, 2]" "bs_hist bs_accepts ?ops (ByteStream_new 2) = [1, 2, 4]"
    and o: "run_ok bs_ok bs_step ?ops (ByteStream_new 2)"
    by (simp_all add: ByteStream_new_def ByteStream_write_def ByteStream_read_def pop_output_def
        peek_output_def buffer_size_def substr_def sz_def fits_def)
  have "\<forall>d. BWrite d \<in> set ?ops \<longrightarrow> fits d" by (auto simp: fits_def)
  from ByteStream_fifo [OF this, of 2] show ?thesis unfolding d using o by (simp add: sz_def)
qed

section \<open>Where the code departs from its documentation\<close>

text \<open>
  \<open>bytes_read\<close> is documented as the number of bytes popped; \<open>pop_output\<close> adds the requested
  length even when fewer bytes are buffered.
\<close>

lemma pop_output_overcounts:
  "bytes_read (pop_output (ByteStream_new cap) n) = n \<and> bytes_written (pop_output (ByteStream_new cap) n) = 0"
  by (simp add: bytes_read_def bytes_written_def pop_output_def ByteStream_new_def)

text \<open>No more bytes can be written after the end of input, says the class; \<open>write\<close> accepts them.\<close>

lemma write_after_end_input:
  "bs_buf (fst (ByteStream_write (end_input (ByteStream_new 5)) [1, 2])) = [1, 2]"
  by (simp add: ByteStream_write_def end_input_def ByteStream_new_def substr_def sz_def word_less_nat_alt)

end
