(* ===== verification/Reassembler.thy ===== *)
theory Reassembler
  imports ByteStreams
begin

text \<open>
  \<^verbatim>\<open>libsponge/stream_reassembler.{hh,cc}\<close>: substrings of a stream arrive in any order and with
  overlaps; the reassembler writes the stream in order into its \<open>ByteStream\<close>.
  \<open>myMap\<close> holds one-byte strings keyed by stream index, as in the code. The two \<open>for\<close> loops are
  folds over the loop index, the \<open>while\<close> loop is \<^verbatim>\<open>drain\<close>, which removes a key in each round.
\<close>

section \<open>Model\<close>

record StreamReassembler =
  sr_output :: ByteStream
  sr_capacity :: u64
  nextIndex :: u64
  bytesUnAssembled :: u64
  eof_flag :: bool
  myMap :: "u64 \<rightharpoonup> byte list"

definition StreamReassembler_new :: "u64 \<Rightarrow> StreamReassembler" where
  "StreamReassembler_new capacity =
     \<lparr>sr_output = ByteStream_new capacity, sr_capacity = capacity, nextIndex = 0,
      bytesUnAssembled = 0, eof_flag = False, myMap = Map.empty\<rparr>"

definition unassembled_bytes :: "StreamReassembler \<Rightarrow> u64" where
  "unassembled_bytes r = bytesUnAssembled r"

definition sr_empty :: "StreamReassembler \<Rightarrow> bool" where
  "sr_empty r \<longleftrightarrow> bytesUnAssembled r = 0"

text \<open>The body of the loop that stores a substring beyond \<open>nextIndex\<close>.\<close>

definition store_byte :: "byte list \<Rightarrow> u64 \<Rightarrow> nat \<Rightarrow> StreamReassembler \<Rightarrow> StreamReassembler" where
  "store_byte data index i r =
     (if myMap r (index + of_nat i) \<noteq> None then r
      else r\<lparr>myMap := (myMap r)(index + of_nat i \<mapsto> substr data (of_nat i) 1),
             bytesUnAssembled := bytesUnAssembled r + 1\<rparr>)"

text \<open>The body of the loop that writes a substring at \<open>nextIndex\<close> into the stream.\<close>

definition write_byte :: "byte list \<Rightarrow> u64 \<Rightarrow> nat \<Rightarrow> StreamReassembler \<Rightarrow> StreamReassembler" where
  "write_byte data index i r =
     (let r = r\<lparr>sr_output := fst (ByteStream_write (sr_output r) (substr data (of_nat i) 1)),
                nextIndex := nextIndex r + 1\<rparr>
      in if myMap r (index + of_nat i) \<noteq> None
         then r\<lparr>myMap := (myMap r)(index + of_nat i := None),
                bytesUnAssembled := bytesUnAssembled r - 1\<rparr>
         else r)"

lemma card_dom_u64_remove:
  "(m :: u64 \<rightharpoonup> byte list) k = Some d \<Longrightarrow> card (dom (m(k := None))) < card (dom m)"
  unfolding dom_fun_upd by (simp only: if_True refl) (rule card_Diff1_less, auto)

function drain :: "StreamReassembler \<Rightarrow> StreamReassembler" where
  "drain r =
     (case myMap r (nextIndex r) of
        None \<Rightarrow> r
      | Some d \<Rightarrow>
          if 0 < remaining_capacity (sr_output r)
          then drain (r\<lparr>sr_output := fst (ByteStream_write (sr_output r) d),
                        myMap := (myMap r)(nextIndex r := None),
                        nextIndex := nextIndex r + 1,
                        bytesUnAssembled := bytesUnAssembled r - 1\<rparr>)
          else r)"
  by pat_completeness auto
termination
  by (relation "measure (\<lambda>r. card (dom (myMap r)))") (simp_all add: card_dom_u64_remove del: dom_fun_upd)

declare drain.simps [simp del]

function push_substring :: "StreamReassembler \<Rightarrow> byte list \<Rightarrow> u64 \<Rightarrow> bool \<Rightarrow> StreamReassembler" where
  "push_substring r data index eof =
     (if nextIndex r < index \<and> sr_capacity r \<le> index - nextIndex r then r
      else if index + sz data < nextIndex r then r
      else
        let r = (if eof \<and> sz data - nextIndex r + index \<le> sr_capacity r
                 then r\<lparr>eof_flag := True\<rparr> else r);
            maxLen = min (sz data) (remaining_capacity (sr_output r))
        in if index < nextIndex r
           then (if nextIndex r < index + sz data
                 then push_substring r (drop (unat (nextIndex r - index)) data) (nextIndex r) eof
                 else r)
           else if nextIndex r < index
           then fold (store_byte data index) [0..<unat maxLen] r
           else
             let r = drain (fold (write_byte data index) [0..<unat maxLen] r)
             in if eof_flag r \<and> sr_empty r
                then r\<lparr>sr_output := end_input (sr_output r)\<rparr> else r)"
  by (pat_completeness, clarify)
termination
proof (relation "measure (\<lambda>(r, data, index, eof). unat (nextIndex r - index))", goal_cases)
  case (2 r data index eof r' maxLen)
  have "nextIndex r' = nextIndex r" using 2(3) by simp
  with 2(3,5) have "nextIndex r \<noteq> index" by auto
  with \<open>nextIndex r' = nextIndex r\<close> show ?case by (simp add: unat_gt_0)
qed simp

declare push_substring.simps [simp del]

section \<open>Invariant\<close>

text \<open>
  \<open>S\<close> is the byte stream the peer sends and \<open>L\<close> its length.
\<close>

definition sr_inv :: "(nat \<Rightarrow> byte) \<Rightarrow> nat \<Rightarrow> StreamReassembler \<Rightarrow> bool" where
  "sr_inv S L r \<longleftrightarrow>
     bs_holds S (sr_output r)
   \<and> sr_capacity r = bs_capacity (sr_output r)
   \<and> bs_write_count (sr_output r) = nextIndex r
   \<and> L < 2 ^ 64 \<and> unat (nextIndex r) \<le> L
   \<and> bytesUnAssembled r = of_nat (card (dom (myMap r)))
   \<and> (\<forall>k d. myMap r k = Some d \<longrightarrow>
        d = [S (unat k)] \<and> nextIndex r \<le> k \<and> unat k < L
        \<and> unat k + 1 < unat (nextIndex r) + 2 * unat (sr_capacity r))"

lemma sr_invD:
  assumes "sr_inv S L r"
  shows "bs_holds S (sr_output r)" "sr_capacity r = bs_capacity (sr_output r)"
    "bs_write_count (sr_output r) = nextIndex r" "L < 2 ^ 64" "unat (nextIndex r) \<le> L"
    "bytesUnAssembled r = of_nat (card (dom (myMap r)))"
    "\<And>k d. myMap r k = Some d \<Longrightarrow> d = [S (unat k)] \<and> nextIndex r \<le> k \<and> unat k < L
        \<and> unat k + 1 < unat (nextIndex r) + 2 * unat (sr_capacity r)"
  using assms unfolding sr_inv_def by blast+

lemma sr_inv_new: "L < 2 ^ 64 \<Longrightarrow> sr_inv S L (StreamReassembler_new c)"
  by (simp add: sr_inv_def StreamReassembler_new_def)

text \<open>Room never exceeds the capacity.\<close>

lemma room_le_capacity: "bs_inv s \<Longrightarrow> room s \<le> unat (bs_capacity s)"
  by (simp add: room_eq)

text \<open>The keys lie between \<open>nextIndex\<close> and \<open>L\<close>, so the counter does not wrap.\<close>

lemma sr_dom_card:
  assumes "sr_inv S L r"
  shows "card (dom (myMap r)) \<le> L - unat (nextIndex r)"
    and "card (dom (myMap r)) \<le> 2 * unat (sr_capacity r) - 1"
proof -
  note d = sr_invD(7) [OF assms]
  have inj: "inj_on unat (dom (myMap r))" by (auto intro: inj_onI simp: word_unat_eq_iff)
  have "unat ` dom (myMap r) \<subseteq> {unat (nextIndex r)..<L}"
    using d by (force simp: word_le_nat_alt)
  from card_mono [OF _ this] show "card (dom (myMap r)) \<le> L - unat (nextIndex r)"
    by (simp add: card_image [OF inj])
  have "unat ` dom (myMap r) \<subseteq> {unat (nextIndex r)..<unat (nextIndex r) + 2 * unat (sr_capacity r) - 1}"
    using d by (fastforce simp: word_le_nat_alt)
  from card_mono [OF _ this] show "card (dom (myMap r)) \<le> 2 * unat (sr_capacity r) - 1"
    by (simp add: card_image [OF inj])
qed

lemma sr_empty_iff:
  assumes "sr_inv S L r"
  shows "sr_empty r \<longleftrightarrow> myMap r = Map.empty"
proof -
  have "card (dom (myMap r)) < 2 ^ 64"
    using sr_dom_card(1) [OF assms] sr_invD(4) [OF assms] by linarith
  then have "sr_empty r \<longleftrightarrow> card (dom (myMap r)) = 0"
    using sr_invD(6) [OF assms] by (simp add: sr_empty_def of_nat_u64_eq_0)
  then show ?thesis by simp
qed

text \<open>One byte goes out: the common step of the writing loop and of \<open>drain\<close>.\<close>

definition emit :: "byte \<Rightarrow> StreamReassembler \<Rightarrow> StreamReassembler" where
  "emit b r = r\<lparr>sr_output := fst (ByteStream_write (sr_output r) [b]),
                nextIndex := nextIndex r + 1,
                myMap := (myMap r)(nextIndex r := None),
                bytesUnAssembled := (if myMap r (nextIndex r) = None then bytesUnAssembled r
                                     else bytesUnAssembled r - 1)\<rparr>"

lemma emit_fields [simp]:
  "nextIndex (emit b r) = nextIndex r + 1" "eof_flag (emit b r) = eof_flag r"
  "sr_output (emit b r) = fst (ByteStream_write (sr_output r) [b])"
  "sr_capacity (emit b r) = sr_capacity r"
  "myMap (emit b r) = (myMap r)(nextIndex r := None)"
  by (simp_all add: emit_def)

lemma sr_inv_emit:
  assumes i: "sr_inv S L r" and rm: "0 < room (sr_output r)" and n: "unat (nextIndex r) < L"
    and b: "b = S (unat (nextIndex r))"
  shows "sr_inv S L (emit b r)" and "unat (nextIndex (emit b r)) = unat (nextIndex r) + 1"
    and "room (sr_output (emit b r)) = room (sr_output r) - 1"
proof -
  note d = sr_invD [OF i]
  have u: "unat (nextIndex r + 1) = unat (nextIndex r) + 1"
    using n d(4) by (intro unat_Suc_u64) linarith
  have w: "bs_holds S (fst (ByteStream_write (sr_output r) [b]))"
    "bs_write_count (fst (ByteStream_write (sr_output r) [b])) = nextIndex r + 1"
    "room (fst (ByteStream_write (sr_output r) [b])) = room (sr_output r) - 1"
    using bs_holds_write [OF d(1) rm, of b] d(3,4) n b by simp_all
  show "unat (nextIndex (emit b r)) = unat (nextIndex r) + 1" using u by simp
  show "room (sr_output (emit b r)) = room (sr_output r) - 1" using w by simp
  have k: "nextIndex r + 1 \<le> k" if "myMap r k = Some e" "k \<noteq> nextIndex r" for k e
    using d(7) [OF that(1)] that(2) u by (auto simp: word_le_nat_alt word_unat_eq_iff)
  have c: "of_nat (card (dom (myMap r) - {nextIndex r})) = (bytesUnAssembled r - 1 :: u64)"
    if "myMap r (nextIndex r) \<noteq> None"
  proof -
    have "card (dom (myMap r)) = Suc (card (dom (myMap r) - {nextIndex r}))"
      using that by (intro card.remove) auto
    then show ?thesis using d(6) by simp
  qed
  show "sr_inv S L (emit b r)"
    unfolding sr_inv_def
  proof (intro conjI allI impI)
    show "bytesUnAssembled (emit b r) = of_nat (card (dom (myMap (emit b r))))"
      using c d(6) by (auto simp: emit_def domIff)
  next
    fix k e
    assume "myMap (emit b r) k = Some e"
    then have m: "myMap r k = Some e" "k \<noteq> nextIndex r" by (auto split: if_splits)
    show "e = [S (unat k)]" "unat k < L" using d(7) [OF m(1)] by simp_all
    show "nextIndex (emit b r) \<le> k" using k [OF m] by simp
    show "unat k + 1 < unat (nextIndex (emit b r)) + 2 * unat (sr_capacity (emit b r))"
      using d(7) [OF m(1)] u by simp
  qed (use w d u n in auto)
qed

text \<open>Progress without loss: a stored byte stays stored until the stream has passed it.\<close>

definition advances :: "StreamReassembler \<Rightarrow> StreamReassembler \<Rightarrow> bool" where
  "advances r r' \<longleftrightarrow> nextIndex r \<le> nextIndex r' \<and> sr_capacity r' = sr_capacity r
     \<and> (\<forall>k. myMap r k \<noteq> None \<longrightarrow> myMap r' k \<noteq> None \<or> k < nextIndex r')"

lemma advances_refl [simp]: "advances r r"
  by (simp add: advances_def)

lemma advances_trans [trans]: "advances r r' \<Longrightarrow> advances r' r'' \<Longrightarrow> advances r r''"
  unfolding advances_def by (metis order.trans order.strict_trans2)

lemma advances_emit:
  assumes "unat (nextIndex r) + 1 < 2 ^ 64"
  shows "advances r (emit b r)"
  using unat_Suc_u64 [OF assms] by (auto simp: advances_def word_less_nat_alt word_le_nat_alt)

text \<open>The substring agrees with the stream at its index.\<close>

definition matches :: "(nat \<Rightarrow> byte) \<Rightarrow> nat \<Rightarrow> byte list \<Rightarrow> u64 \<Rightarrow> bool" where
  "matches S L data index \<longleftrightarrow> fits data \<and>
     (data \<noteq> [] \<longrightarrow> unat index + length data \<le> L
        \<and> data = map S [unat index..<unat index + length data])"

lemma matches_nth: "matches S L data index \<Longrightarrow> i < length data \<Longrightarrow> data ! i = S (unat index + i)"
  unfolding matches_def by (metis (no_types) add_diff_cancel_left' length_0_conv length_map length_upt
      less_nat_zero_code nth_map nth_upt add_less_cancel_left)

lemma substr_byte: "i < length data \<Longrightarrow> fits data \<Longrightarrow> substr data (of_nat i) 1 = [data ! i]"
  by (simp add: substr_def fits_def take_Suc_conv_app_nth Cons_nth_drop_Suc [symmetric])

lemma unat_index:
  assumes "matches S L data index" "i < length data" "L < 2 ^ 64"
  shows "unat (index + of_nat i) = unat index + i"
proof -
  have "unat index + i < 2 ^ 64" using assms by (auto simp: matches_def)
  then show ?thesis by (subst unat_add_u64) simp_all
qed

lemma sr_inv_store:
  assumes i: "sr_inv S L r" and m: "matches S L data index" and l: "j < length data"
    and n: "nextIndex r < index"
    and b: "unat index + j + 1 < unat (nextIndex r) + 2 * unat (sr_capacity r)"
  shows "sr_inv S L (store_byte data index j r)"
proof (cases "myMap r (index + of_nat j)")
  case (Some e)
  then show ?thesis using i by (simp add: store_byte_def)
next
  case None
  note d = sr_invD [OF i]
  have u: "unat (index + of_nat j) = unat index + j" using m l d(4) by (rule unat_index)
  have v: "substr data (of_nat j) 1 = [S (unat index + j)]"
    using substr_byte [OF l] matches_nth [OF m l] m by (simp add: matches_def)
  have lt: "unat index + j < L" using m l by (auto simp: matches_def)
  have c: "card (insert (index + of_nat j) (dom (myMap r))) = Suc (card (dom (myMap r)))"
    using None by (intro card_insert_disjoint) auto
  show ?thesis
    using None d u v lt b n c
    by (auto simp: sr_inv_def store_byte_def word_le_nat_alt word_less_nat_alt)
qed

lemma store_byte_fields [simp]:
  "nextIndex (store_byte data index j r) = nextIndex r"
  "sr_capacity (store_byte data index j r) = sr_capacity r"
  "sr_output (store_byte data index j r) = sr_output r"
  "eof_flag (store_byte data index j r) = eof_flag r"
  by (simp_all add: store_byte_def)

lemma store_byte_key:
  "myMap (store_byte data index j r) k \<noteq> None \<longleftrightarrow> myMap r k \<noteq> None \<or> k = index + of_nat j"
  by (auto simp: store_byte_def)

lemma store_loop:
  assumes i: "sr_inv S L r" and m: "matches S L data index" and n: "nextIndex r < index"
    and l: "n \<le> length data"
    and b: "unat index + n < unat (nextIndex r) + 2 * unat (sr_capacity r)"
  defines "r' \<equiv> fold (store_byte data index) [0..<n] r"
  shows "sr_inv S L r'" "nextIndex r' = nextIndex r" "sr_capacity r' = sr_capacity r"
    "sr_output r' = sr_output r" "eof_flag r' = eof_flag r"
    "\<And>k. myMap r' k \<noteq> None \<longleftrightarrow> myMap r k \<noteq> None \<or> (\<exists>j < n. k = index + of_nat j)"
proof -
  have *: "nextIndex r' = nextIndex r \<and> sr_capacity r' = sr_capacity r
      \<and> sr_output r' = sr_output r \<and> eof_flag r' = eof_flag r
      \<and> (\<forall>k. myMap r' k \<noteq> None \<longleftrightarrow> myMap r k \<noteq> None \<or> (\<exists>j < n. k = index + of_nat j))"
    unfolding r'_def
    by (induction n) (auto simp: store_byte_key less_Suc_eq simp del: not_None_eq)
  then show "nextIndex r' = nextIndex r" "sr_capacity r' = sr_capacity r"
    "sr_output r' = sr_output r" "eof_flag r' = eof_flag r"
    "\<And>k. myMap r' k \<noteq> None \<longleftrightarrow> myMap r k \<noteq> None \<or> (\<exists>j < n. k = index + of_nat j)"
    by blast+
  show "sr_inv S L r'"
    unfolding r'_def using l b
  proof (induction n)
    case (Suc n)
    let ?f = "fold (store_byte data index) [0..<n] r"
    have f: "nextIndex ?f = nextIndex r \<and> sr_capacity ?f = sr_capacity r"
      by (induction n) auto
    have "sr_inv S L ?f" using Suc by simp
    then show ?case
      using sr_inv_store [of S L ?f data index n] m n Suc.prems f by simp
  qed (use i in simp)
qed

lemma write_byte_emit:
  assumes "nextIndex r = index + of_nat j" "j < length data" "fits data"
  shows "write_byte data index j r = emit (data ! j) r"
  using assms
  by (cases "myMap r (nextIndex r)") (simp_all add: write_byte_def emit_def substr_byte Let_def fun_upd_idem)

lemma write_loop:
  assumes i: "sr_inv S L r" and m: "matches S L data index" and x: "nextIndex r = index"
    and "n \<le> length data" "n \<le> room (sr_output r)"
  shows "sr_inv S L (fold (write_byte data index) [0..<n] r)
    \<and> unat (nextIndex (fold (write_byte data index) [0..<n] r)) = unat index + n
    \<and> nextIndex (fold (write_byte data index) [0..<n] r) = index + of_nat n
    \<and> room (sr_output (fold (write_byte data index) [0..<n] r)) = room (sr_output r) - n
    \<and> eof_flag (fold (write_byte data index) [0..<n] r) = eof_flag r
    \<and> advances r (fold (write_byte data index) [0..<n] r)"
  using assms(4,5)
proof (induction n)
  case 0
  then show ?case using i x by simp
next
  case (Suc n)
  define f where "f = fold (write_byte data index) [0..<n] r"
  note L = sr_invD(4) [OF i]
  have f: "sr_inv S L f" "unat (nextIndex f) = unat index + n" "nextIndex f = index + of_nat n"
    "room (sr_output f) = room (sr_output r) - n" "eof_flag f = eof_flag r" "advances r f"
    using Suc.IH Suc.prems unfolding f_def by (meson Suc_leD)+
  have lt: "unat index + n < L" using m Suc.prems(1) by (auto simp: matches_def)
  have e: "write_byte data index n f = emit (data ! n) f"
    using f(3) Suc.prems(1) m by (intro write_byte_emit) (auto simp: matches_def)
  have b: "data ! n = S (unat (nextIndex f))" using m Suc.prems(1) f(2) by (simp add: matches_nth)
  have g: "sr_inv S L (emit (data ! n) f)" "unat (nextIndex (emit (data ! n) f)) = unat (nextIndex f) + 1"
    "room (sr_output (emit (data ! n) f)) = room (sr_output f) - 1"
    using sr_inv_emit [OF f(1) _ _ b] f Suc.prems lt by simp_all
  have a: "advances r (emit (data ! n) f)"
    using f(6) by (rule advances_trans) (use lt L f in \<open>auto intro: advances_emit\<close>)
  have "fold (write_byte data index) [0..<Suc n] r = emit (data ! n) f"
    using e by (simp add: f_def)
  then show ?case using g a f by simp
qed

lemma drain_spec:
  "sr_inv S L r \<Longrightarrow> sr_inv S L (drain r) \<and> advances r (drain r) \<and> eof_flag (drain r) = eof_flag r
     \<and> (room (sr_output (drain r)) = 0 \<or> myMap (drain r) (nextIndex (drain r)) = None)
     \<and> bs_is_eof (sr_output (drain r)) = bs_is_eof (sr_output r)"
proof (induction r rule: drain.induct)
  case (1 r)
  note d = sr_invD [OF "1.prems"]
  show ?case
  proof (cases "myMap r (nextIndex r)")
    case None
    then show ?thesis using "1.prems" by (simp add: drain.simps [of r])
  next
    case (Some e)
    note k = d(7) [OF Some]
    show ?thesis
    proof (cases "0 < remaining_capacity (sr_output r)")
      case False
      then show ?thesis using "1.prems" Some by (simp add: drain.simps [of r] room_def word_gt_0)
    next
      case True
      then have rm: "0 < room (sr_output r)" by (simp add: room_def unat_gt_0)
      define r1 where "r1 = emit (S (unat (nextIndex r))) r"
      have eq: "r\<lparr>sr_output := fst (ByteStream_write (sr_output r) e),
            myMap := (myMap r)(nextIndex r := None),
            nextIndex := nextIndex r + 1,
            bytesUnAssembled := bytesUnAssembled r - 1\<rparr> = r1"
        unfolding r1_def using Some k
        by (intro StreamReassembler.equality) (simp_all add: emit_def)
      have step: "drain r = drain r1"
        using Some True eq by (simp add: drain.simps [of r])
      have r1: "sr_inv S L r1" "advances r r1" "eof_flag r1 = eof_flag r"
        "bs_is_eof (sr_output r1) = bs_is_eof (sr_output r)"
        unfolding r1_def using sr_inv_emit(1) [OF "1.prems" rm] k d(4)
        by (auto intro!: advances_emit)
      have "sr_inv S L r1 \<Longrightarrow> sr_inv S L (drain r1) \<and> advances r1 (drain r1) \<and> eof_flag (drain r1) = eof_flag r1
         \<and> (room (sr_output (drain r1)) = 0 \<or> myMap (drain r1) (nextIndex (drain r1)) = None)
         \<and> bs_is_eof (sr_output (drain r1)) = bs_is_eof (sr_output r1)"
        using "1.IH" [OF Some True] unfolding eq .
      then show ?thesis using r1 step advances_trans by metis
    qed
  qed
qed

section \<open>The branches of \<open>push_substring\<close>\<close>

definition set_eof :: "StreamReassembler \<Rightarrow> byte list \<Rightarrow> u64 \<Rightarrow> bool \<Rightarrow> StreamReassembler" where
  "set_eof r data index eof =
     (if eof \<and> sz data - nextIndex r + index \<le> sr_capacity r then r\<lparr>eof_flag := True\<rparr> else r)"

definition finish :: "StreamReassembler \<Rightarrow> StreamReassembler" where
  "finish r = (if eof_flag r \<and> sr_empty r then r\<lparr>sr_output := end_input (sr_output r)\<rparr> else r)"

lemma set_eof_fields [simp]:
  "nextIndex (set_eof r data index eof) = nextIndex r"
  "sr_capacity (set_eof r data index eof) = sr_capacity r"
  "sr_output (set_eof r data index eof) = sr_output r"
  "myMap (set_eof r data index eof) = myMap r"
  "bytesUnAssembled (set_eof r data index eof) = bytesUnAssembled r"
  by (simp_all add: set_eof_def)

lemma sr_inv_set_eof [simp]: "sr_inv S L (set_eof r data index eof) = sr_inv S L r"
  by (simp add: sr_inv_def)

lemma finish_fields [simp]:
  "nextIndex (finish r) = nextIndex r" "sr_capacity (finish r) = sr_capacity r"
  "myMap (finish r) = myMap r" "eof_flag (finish r) = eof_flag r"
  "room (sr_output (finish r)) = room (sr_output r)"
  by (simp_all add: finish_def)

lemma sr_inv_finish [simp]: "sr_inv S L (finish r) = sr_inv S L r"
  by (simp add: sr_inv_def finish_def)

lemma advances_set_eof [simp]: "advances r (set_eof r data index eof)"
  by (simp add: advances_def)

lemma advances_finish [simp]: "advances r (finish r)"
  by (simp add: advances_def)

lemma push_far:
  "nextIndex r < index \<Longrightarrow> sr_capacity r \<le> index - nextIndex r \<Longrightarrow> push_substring r data index eof = r"
  by (simp add: push_substring.simps [of r])

lemma min_sz:
  assumes "fits data"
  shows "unat (min (sz data) (remaining_capacity s)) = min (length data) (room s)"
  using assms by (auto simp: min_def room_def word_le_nat_alt)

lemma not_passed:
  assumes "fits data" "unat index + length data < 2 ^ 64"
  shows "index + sz data < n \<longleftrightarrow> unat index + length data < unat n"
  using assms by (simp add: word_less_nat_alt unat_add_u64)

lemma passes:
  assumes "fits data" "unat index + length data < 2 ^ 64"
  shows "n < index + sz data \<longleftrightarrow> unat n < unat index + length data"
  using assms by (simp add: word_less_nat_alt unat_add_u64)

lemma push_beyond:
  assumes "nextIndex r < index" "index - nextIndex r < sr_capacity r" "fits data"
    "unat index + length data < 2 ^ 64"
  shows "push_substring r data index eof
    = fold (store_byte data index) [0..<min (length data) (room (sr_output r))] (set_eof r data index eof)"
proof -
  have "\<not> index + sz data < nextIndex r" "\<not> index < nextIndex r"
    unfolding not_passed [OF assms(3,4)] using assms(1) by (auto simp: word_less_nat_alt)
  then show ?thesis
    using assms(1,2) unfolding push_substring.simps [of r] set_eof_def [symmetric] Let_def
    by (simp add: min_sz [OF assms(3)] not_le)
qed

lemma push_at:
  assumes "fits data" "unat (nextIndex r) + length data < 2 ^ 64"
  shows "push_substring r data (nextIndex r) eof
    = finish (drain (fold (write_byte data (nextIndex r)) [0..<min (length data) (room (sr_output r))]
        (set_eof r data (nextIndex r) eof)))"
proof -
  have "\<not> nextIndex r + sz data < nextIndex r"
    by (simp add: not_passed [OF assms])
  then show ?thesis
    unfolding push_substring.simps [of r] set_eof_def [symmetric] Let_def
    by (simp add: min_sz [OF assms(1)] finish_def)
qed

lemma push_before:
  assumes "index < nextIndex r" "fits data" "unat index + length data < 2 ^ 64"
  shows "push_substring r data index eof =
    (if unat index + length data < unat (nextIndex r) then r
     else if unat index + length data = unat (nextIndex r) then set_eof r data index eof
     else push_substring (set_eof r data index eof)
            (drop (unat (nextIndex r) - unat index) data) (nextIndex r) eof)"
proof -
  have "unat (nextIndex r - index) = unat (nextIndex r) - unat index"
    using assms(1) by (simp add: unat_sub_u64)
  moreover have "\<not> nextIndex r < index" using assms(1) by simp
  ultimately show ?thesis
    using assms(1) unfolding push_substring.simps [of r] set_eof_def [symmetric] Let_def
    by (auto simp: not_passed [OF assms(2,3)] passes [OF assms(2,3)])
qed

text \<open>The part of a matching substring that starts at \<open>nextIndex\<close> matches there.\<close>

lemma matches_drop:
  assumes "matches S L data index" "unat index \<le> unat n" "unat n < unat index + length data"
  shows "matches S L (drop (unat n - unat index) data) n"
proof -
  have ne: "data \<noteq> []" using assms(2,3) by auto
  let ?k = "unat n - unat index"
  have "drop ?k data = map S (drop ?k [unat index..<unat index + length data])"
    using assms(1) ne unfolding matches_def by (metis drop_map)
  then show ?thesis using assms ne by (auto simp: matches_def fits_def)
qed

lemma matches_no_overflow: "matches S L data index \<Longrightarrow> L < 2 ^ 64 \<Longrightarrow> unat index + length data < 2 ^ 64"
  using unat_u64_less [of index] by (cases "data = []") (auto simp: matches_def)

section \<open>End of stream\<close>

text \<open>
  Once the flag is set, the last byte of the stream is stored or already written; the output is
  ended only when everything is written.
\<close>

definition eof_inv :: "nat \<Rightarrow> StreamReassembler \<Rightarrow> bool" where
  "eof_inv L r \<longleftrightarrow>
     (eof_flag r \<longrightarrow> unat (nextIndex r) = L \<or> 0 < L \<and> myMap r (of_nat (L - 1)) \<noteq> None)
   \<and> (bs_is_eof (sr_output r) \<longrightarrow> unat (nextIndex r) = L)"

text \<open>
  What makes an end-of-stream substring safe: it ends at the stream's length and its new bytes all
  fit, and it has bytes when it arrives early.
\<close>

definition eof_ok :: "nat \<Rightarrow> StreamReassembler \<Rightarrow> byte list \<Rightarrow> u64 \<Rightarrow> bool" where
  "eof_ok L r data index \<longleftrightarrow> unat index + length data = L
     \<and> (if nextIndex r < index then data \<noteq> [] \<and> length data \<le> room (sr_output r)
        else L - unat (nextIndex r) \<le> room (sr_output r))"

lemma eof_inv_advances:
  assumes "eof_inv L r" "advances r r'" "sr_inv S L r'" "eof_flag r' = eof_flag r"
    "bs_is_eof (sr_output r') = bs_is_eof (sr_output r)"
  shows "eof_inv L r'"
proof -
  have le: "unat (nextIndex r) \<le> unat (nextIndex r')" "unat (nextIndex r') \<le> L"
    using assms(2,3) by (auto simp: advances_def sr_inv_def word_le_nat_alt)
  have "unat (nextIndex r') = L"
    if "0 < L" "(of_nat (L - 1) :: u64) < nextIndex r'"
  proof -
    have "unat (of_nat (L - 1) :: u64) = L - 1"
      using sr_invD(4) [OF assms(3)] by (intro unat_of_nat_u64) simp
    then have "L - 1 < unat (nextIndex r')"
      using that(2) unfolding word_less_nat_alt by simp
    then show ?thesis using le by linarith
  qed
  then show ?thesis
    using assms(1,2,4,5) le unfolding eof_inv_def advances_def by (metis le_antisym)
qed

lemma eof_inv_finish:
  assumes "eof_inv L r" "sr_inv S L r"
  shows "eof_inv L (finish r)"
  using assms sr_empty_iff [OF assms(2)] by (auto simp: eof_inv_def finish_def)

lemma fold_write_byte_eof [simp]:
  "bs_is_eof (sr_output (fold (write_byte data index) is r)) = bs_is_eof (sr_output r)"
  by (induction "is" arbitrary: r) (auto simp: write_byte_def Let_def)

section \<open>What one push does\<close>

lemma push_at_spec:
  fixes eof :: bool
  assumes i: "sr_inv S L r" and m: "matches S L data (nextIndex r)"
  defines "r' \<equiv> push_substring r data (nextIndex r) eof"
  shows "sr_inv S L r'" "advances r r'"
    "unat (nextIndex r) + min (length data) (room (sr_output r)) \<le> unat (nextIndex r')"
    "room (sr_output r') = 0 \<or> myMap r' (nextIndex r') = None"
    "eof_flag r' \<longrightarrow> unat (nextIndex r') = L \<longrightarrow> input_ended (sr_output r')"
    "(\<not> eof \<longrightarrow> eof_inv L r) \<Longrightarrow> (eof \<longrightarrow> eof_ok L r data (nextIndex r)) \<Longrightarrow> eof_inv L r'"
proof -
  note d = sr_invD [OF i]
  have f: "fits data" using m by (simp add: matches_def)
  note o = matches_no_overflow [OF m d(4)]
  define n where "n = min (length data) (room (sr_output r))"
  define r1 where "r1 = set_eof r data (nextIndex r) eof"
  define r2 where "r2 = fold (write_byte data (nextIndex r)) [0..<n] r1"
  define r3 where "r3 = drain r2"
  have r': "r' = finish r3"
    unfolding r'_def push_at [OF f o] r3_def r2_def r1_def n_def ..
  have r1: "sr_inv S L r1" "nextIndex r1 = nextIndex r" "sr_output r1 = sr_output r" "myMap r1 = myMap r"
    "advances r r1"
    using i by (simp_all add: r1_def)
  have r2: "sr_inv S L r2" "unat (nextIndex r2) = unat (nextIndex r) + n" "eof_flag r2 = eof_flag r1"
    "advances r1 r2" "bs_is_eof (sr_output r2) = bs_is_eof (sr_output r)"
    using write_loop [OF r1(1) m r1(2), of n] r1(3) unfolding r2_def n_def by auto
  have r3: "sr_inv S L r3" "advances r2 r3" "eof_flag r3 = eof_flag r1"
    "room (sr_output r3) = 0 \<or> myMap r3 (nextIndex r3) = None"
    "bs_is_eof (sr_output r3) = bs_is_eof (sr_output r)"
    using drain_spec [OF r2(1)] r2(3,5) unfolding r3_def by auto
  show "sr_inv S L r'" using r3(1) by (simp add: r')
  have a: "advances r r3" using r1(5) r2(4) r3(2) advances_trans by blast
  then show "advances r r'" using advances_finish advances_trans r' by metis
  have n2: "unat (nextIndex r) + n \<le> unat (nextIndex r3)"
    using r3(2) r2(2) by (simp add: advances_def word_le_nat_alt)
  then show "unat (nextIndex r) + min (length data) (room (sr_output r)) \<le> unat (nextIndex r')"
    by (simp add: r' n_def)
  show "room (sr_output r') = 0 \<or> myMap r' (nextIndex r') = None"
    using r3(4) by (simp add: r')
  show "eof_flag r' \<longrightarrow> unat (nextIndex r') = L \<longrightarrow> input_ended (sr_output r')"
  proof (intro impI)
    assume "eof_flag r'" "unat (nextIndex r') = L"
    then have "card (dom (myMap r3)) = 0" "eof_flag r3"
      using sr_dom_card(1) [OF r3(1)] by (simp_all add: r')
    then have "sr_empty r3" by (simp add: sr_empty_iff [OF r3(1)])
    with \<open>eof_flag r3\<close> show "input_ended (sr_output r')"
      by (simp add: r' finish_def input_ended_def)
  qed
  assume e: "\<not> eof \<longrightarrow> eof_inv L r" and ok: "eof \<longrightarrow> eof_ok L r data (nextIndex r)"
  have "eof_inv L r3"
  proof (cases eof)
    case True
    then have "n = length data" "unat (nextIndex r) + length data = L"
      using ok by (auto simp: eof_ok_def n_def)
    then have "unat (nextIndex r3) = L"
      using n2 sr_invD(5) [OF r3(1)] by simp
    then show ?thesis by (simp add: eof_inv_def)
  next
    case False
    then have "eof_flag r3 = eof_flag r" using r3(3) by (simp add: r1_def set_eof_def)
    then show ?thesis using eof_inv_advances [OF _ a r3(1)] e False r3(5) by simp
  qed
  then show "eof_inv L r'" unfolding r' using r3(1) by (rule eof_inv_finish)
qed

lemma push_near:
  fixes eof :: bool
  assumes i: "sr_inv S L r" and m: "matches S L data index" and n: "nextIndex r < index"
    and near: "index - nextIndex r < sr_capacity r"
  defines "r' \<equiv> push_substring r data index eof"
  shows "sr_inv S L r'" "nextIndex r' = nextIndex r" "sr_capacity r' = sr_capacity r"
    "sr_output r' = sr_output r" "eof_flag r' = eof_flag (set_eof r data index eof)"
    "\<And>k. myMap r' k \<noteq> None \<longleftrightarrow>
       myMap r k \<noteq> None \<or> (\<exists>j < min (length data) (room (sr_output r)). k = index + of_nat j)"
proof -
  note d = sr_invD [OF i]
  have f: "fits data" using m by (simp add: matches_def)
  define l where "l = min (length data) (room (sr_output r))"
  define r1 where "r1 = set_eof r data index eof"
  have r1: "sr_inv S L r1" "nextIndex r1 = nextIndex r" "sr_output r1 = sr_output r"
    "sr_capacity r1 = sr_capacity r" "myMap r1 = myMap r"
    using i by (simp_all add: r1_def)
  have r': "r' = fold (store_byte data index) [0..<l] r1"
    unfolding r'_def push_beyond [OF n near f matches_no_overflow [OF m d(4)]] r1_def l_def ..
  have dist: "unat index - unat (nextIndex r) < unat (sr_capacity r)"
    using near n by (simp add: word_less_nat_alt unat_sub_u64)
  have "room (sr_output r) \<le> unat (sr_capacity r)"
    using room_le_capacity [OF bs_holds_inv [OF d(1)]] d(2) by simp
  then have b: "unat index + l < unat (nextIndex r1) + 2 * unat (sr_capacity r1)"
    using dist n by (simp add: l_def r1 word_less_nat_alt)
  show "sr_inv S L r'" "nextIndex r' = nextIndex r" "sr_capacity r' = sr_capacity r"
    "sr_output r' = sr_output r" "eof_flag r' = eof_flag (set_eof r data index eof)"
    "\<And>k. myMap r' k \<noteq> None \<longleftrightarrow>
       myMap r k \<noteq> None \<or> (\<exists>j < min (length data) (room (sr_output r)). k = index + of_nat j)"
    using store_loop [OF r1(1) m _ _ b] n r1(2-5)
    unfolding r' r1_def [symmetric] l_def [symmetric] by (simp_all add: l_def)
qed

text \<open>An early substring with the end-of-stream flag is stored up to its last byte.\<close>

lemma eof_inv_near:
  fixes eof :: bool
  assumes i: "sr_inv S L r" and m: "matches S L data index" and n: "nextIndex r < index"
    and near: "index - nextIndex r < sr_capacity r"
    and e: "eof_inv L r" and ok: "eof \<longrightarrow> eof_ok L r data index"
  shows "eof_inv L (push_substring r data index eof)"
proof (cases eof)
  case True
  note s = push_near [OF i m n near, of eof]
  have q: "data \<noteq> []" "length data \<le> room (sr_output r)" "unat index + length data = L"
    using ok n True by (auto simp: eof_ok_def)
  let ?j = "length data - 1"
  have "unat (of_nat (L - 1) :: u64) = L - 1"
    using sr_invD(4) [OF i] by (intro unat_of_nat_u64) simp
  moreover have "unat (index + of_nat ?j) = unat index + ?j"
    using q(1) sr_invD(4) [OF i] by (intro unat_index [OF m]) simp_all
  moreover have "0 < length data" using q(1) by simp
  ultimately have eq: "(of_nat (L - 1) :: u64) = index + of_nat ?j"
    using q(3) by (intro u64_eqI) linarith
  have "?j < min (length data) (room (sr_output r))" using q(2) \<open>0 < length data\<close> by simp
  then have "myMap (push_substring r data index eof) (of_nat (L - 1)) \<noteq> None"
    unfolding s(6) eq by blast
  then show ?thesis using e s(2,4) q by (auto simp: eof_inv_def)
next
  case False
  note s = push_near [OF i m n near, of eof]
  have "advances r (push_substring r data index eof)"
    unfolding advances_def s by (simp add: s)
  from eof_inv_advances [OF e this s(1)] show ?thesis
    using False s(4,5) by (simp add: set_eof_def)
qed

lemma push_beyond_spec:
  fixes eof :: bool
  assumes i: "sr_inv S L r" and m: "matches S L data index" and n: "nextIndex r < index"
  shows "sr_inv S L (push_substring r data index eof)
    \<and> advances r (push_substring r data index eof)
    \<and> nextIndex (push_substring r data index eof) = nextIndex r
    \<and> sr_output (push_substring r data index eof) = sr_output r
    \<and> (eof_inv L r \<longrightarrow> (eof \<longrightarrow> eof_ok L r data index) \<longrightarrow> eof_inv L (push_substring r data index eof))"
proof (cases "index - nextIndex r < sr_capacity r")
  case False
  then have "push_substring r data index eof = r" using n by (intro push_far) auto
  then show ?thesis using i by simp
next
  case True
  note s = push_near [OF i m n True, of eof]
  have "advances r (push_substring r data index eof)"
    unfolding advances_def s by (simp add: s)
  then show ?thesis using s eof_inv_near [OF i m n True] by blast
qed

text \<open>A substring that starts before \<open>nextIndex\<close> is cut and pushed at \<open>nextIndex\<close>.\<close>

lemma push_before_spec:
  fixes eof :: bool
  assumes i: "sr_inv S L r" and m: "matches S L data index" and n: "index < nextIndex r"
  shows "sr_inv S L (push_substring r data index eof)
    \<and> advances r (push_substring r data index eof)
    \<and> (eof_inv L r \<longrightarrow> (eof \<longrightarrow> eof_ok L r data index) \<longrightarrow> eof_inv L (push_substring r data index eof))"
proof -
  note d = sr_invD [OF i]
  have f: "fits data" using m by (simp add: matches_def)
  note p = push_before [OF n f matches_no_overflow [OF m d(4)], of eof]
  define r1 where "r1 = set_eof r data index eof"
  have r1: "sr_inv S L r1" "nextIndex r1 = nextIndex r" "sr_output r1 = sr_output r" "advances r r1"
    using i by (simp_all add: r1_def)
  consider (old) "unat index + length data < unat (nextIndex r)"
    | (exact) "unat index + length data = unat (nextIndex r)"
    | (new) "unat (nextIndex r) < unat index + length data" by linarith
  then show ?thesis
  proof cases
    case old
    then show ?thesis using i p by simp
  next
    case exact
    have "eof_inv L r1" if "eof_inv L r" "eof \<longrightarrow> eof_ok L r data index"
      using that exact by (auto simp: eof_inv_def eof_ok_def r1_def set_eof_def)
    then show ?thesis using r1 p exact by (simp add: r1_def)
  next
    case new
    let ?d = "drop (unat (nextIndex r) - unat index) data"
    have m': "matches S L ?d (nextIndex r1)"
      using matches_drop [OF m _ new] n r1(2) by (simp add: word_less_nat_alt)
    have len: "length ?d = unat index + length data - unat (nextIndex r)"
      using n by (simp add: word_less_nat_alt)
    have "eof_inv L (push_substring r1 ?d (nextIndex r1) eof)"
      if "eof_inv L r" "eof \<longrightarrow> eof_ok L r data index"
      using push_at_spec(6) [OF r1(1) m', of eof] that len new n r1(2,3)
      by (auto simp: eof_ok_def r1_def set_eof_def)
    moreover have "push_substring r data index eof = push_substring r1 ?d (nextIndex r1) eof"
      using p new r1(2) by (simp add: r1_def)
    moreover have "advances r (push_substring r1 ?d (nextIndex r1) eof)"
      using r1(4) push_at_spec(2) [OF r1(1) m'] by (rule advances_trans)
    moreover note push_at_spec(1) [OF r1(1) m', of eof]
    ultimately show ?thesis by (simp only:) blast
  qed
qed

lemma push_spec:
  fixes eof :: bool
  assumes "sr_inv S L r" "matches S L data index"
  shows "sr_inv S L (push_substring r data index eof)"
    and "advances r (push_substring r data index eof)"
    and "eof_inv L r \<Longrightarrow> (eof \<longrightarrow> eof_ok L r data index) \<Longrightarrow> eof_inv L (push_substring r data index eof)"
proof -
  consider "index = nextIndex r" | "nextIndex r < index" | "index < nextIndex r"
    by (metis linorder_neqE)
  then have "sr_inv S L (push_substring r data index eof) \<and> advances r (push_substring r data index eof)
    \<and> (eof_inv L r \<longrightarrow> (eof \<longrightarrow> eof_ok L r data index) \<longrightarrow> eof_inv L (push_substring r data index eof))"
    using push_at_spec [of S L r data eof] push_beyond_spec [OF assms] push_before_spec [OF assms] assms
    by cases blast+
  then show "sr_inv S L (push_substring r data index eof)" "advances r (push_substring r data index eof)"
    "eof_inv L r \<Longrightarrow> (eof \<longrightarrow> eof_ok L r data index) \<Longrightarrow> eof_inv L (push_substring r data index eof)"
    by blast+
qed

section \<open>Runs\<close>

text \<open>The network pushes substrings; the application reads or pops through \<open>stream_out()\<close>.\<close>

datatype sr_op = Push "byte list" u64 bool | SRead u64 | SPop u64

fun sr_step :: "sr_op \<Rightarrow> StreamReassembler \<Rightarrow> StreamReassembler" where
  "sr_step (Push data index eof) r = push_substring r data index eof"
| "sr_step (SRead n) r = r\<lparr>sr_output := fst (ByteStream_read (sr_output r) n)\<rparr>"
| "sr_step (SPop n) r = r\<lparr>sr_output := pop_output (sr_output r) n\<rparr>"

fun sr_delivers :: "sr_op \<Rightarrow> StreamReassembler \<Rightarrow> byte list" where
  "sr_delivers (Push _ _ _) r = []"
| "sr_delivers (SRead n) r = snd (ByteStream_read (sr_output r) n)"
| "sr_delivers (SPop n) r = peek_output (sr_output r) n"

abbreviation sr_hist :: "sr_op list \<Rightarrow> StreamReassembler \<Rightarrow> byte list" where
  "sr_hist \<equiv> history sr_delivers sr_step"

fun sr_ok :: "(nat \<Rightarrow> byte) \<Rightarrow> nat \<Rightarrow> StreamReassembler \<Rightarrow> sr_op \<Rightarrow> bool" where
  "sr_ok S L r (Push data index eof) = matches S L data index"
| "sr_ok S L r (SRead n) = True"
| "sr_ok S L r (SPop n) = (n \<le> buffer_size (sr_output r))"

fun sr_eof_ok :: "(nat \<Rightarrow> byte) \<Rightarrow> nat \<Rightarrow> StreamReassembler \<Rightarrow> sr_op \<Rightarrow> bool" where
  "sr_eof_ok S L r (Push data index eof) \<longleftrightarrow> matches S L data index \<and> (eof \<longrightarrow> eof_ok L r data index)"
| "sr_eof_ok S L r e = sr_ok S L r e"

text \<open>Replacing the output by one with the same writing side keeps the invariant.\<close>

lemma sr_inv_output:
  assumes "sr_inv S L r" "bs_holds S s" "bs_capacity s = bs_capacity (sr_output r)"
    "bs_write_count s = bs_write_count (sr_output r)"
  shows "sr_inv S L (r\<lparr>sr_output := s\<rparr>)"
  using assms unfolding sr_inv_def by auto

lemma sr_step_inv:
  assumes "sr_inv S L r" "sr_ok S L r e"
  shows "sr_inv S L (sr_step e r)"
proof (cases e)
  case (Push data index eof)
  then show ?thesis using assms push_spec(1) by simp
next
  case (SRead n)
  then show ?thesis using assms by (auto intro!: sr_inv_output bs_holds_read dest: sr_invD(1))
next
  case (SPop n)
  have "bs_inv (sr_output r)" using assms(1) sr_invD(1) bs_holds_inv by blast
  then have "unat n \<le> length (bs_buf (sr_output r))"
    using assms(2) SPop by (simp add: buffer_size_def word_le_nat_alt)
  then show ?thesis using assms(1) SPop by (auto intro!: sr_inv_output bs_holds_pop dest: sr_invD(1))
qed

interpretation sr_sys: invariant_system sr_step "sr_ok S L" "sr_inv S L" for S L
  by unfold_locales (rule sr_step_inv)

interpretation sr_eof_sys: invariant_system sr_step "sr_eof_ok S L" "\<lambda>r. sr_inv S L r \<and> eof_inv L r" for S L
proof
  fix r e
  assume i: "sr_inv S L r \<and> eof_inv L r" and o: "sr_eof_ok S L r e"
  then have "sr_ok S L r e" by (cases e) auto
  moreover have "eof_inv L (sr_step e r)"
  proof (cases e)
    case (Push data index eof)
    then show ?thesis using i o push_spec(3) [of S L r data index eof] by simp
  qed (use i in \<open>simp_all add: eof_inv_def\<close>)
  ultimately show "sr_inv S L (sr_step e r) \<and> eof_inv L (sr_step e r)"
    using i sr_step_inv by blast
qed

text \<open>No push touches the reading side of the output.\<close>

lemma fold_byte_frame [simp]:
  "bs_read_count (sr_output (fold (write_byte data index) is r)) = bs_read_count (sr_output r)"
  "bs_error (sr_output (fold (write_byte data index) is r)) = bs_error (sr_output r)"
  "sr_output (fold (store_byte data index) is r) = sr_output r"
  by (induction "is" arbitrary: r) (auto simp: write_byte_def Let_def)

lemma drain_frame [simp]:
  "bs_read_count (sr_output (drain r)) = bs_read_count (sr_output r)
   \<and> bs_error (sr_output (drain r)) = bs_error (sr_output r)"
proof (induction r rule: drain.induct)
  case (1 r)
  then show ?case by (subst drain.simps, subst (2) drain.simps) (simp split: option.split)
qed

lemma push_frame_ge:
  assumes "\<not> index < nextIndex r"
  shows "bs_read_count (sr_output (push_substring r data index eof)) = bs_read_count (sr_output r)
    \<and> bs_error (sr_output (push_substring r data index eof)) = bs_error (sr_output r)"
  using assms unfolding push_substring.simps [of r data] set_eof_def [symmetric] Let_def by simp

lemma push_frame [simp]:
  "bs_read_count (sr_output (push_substring r data index eof)) = bs_read_count (sr_output r)
   \<and> bs_error (sr_output (push_substring r data index eof)) = bs_error (sr_output r)"
proof (cases "index < nextIndex r")
  case True
  let ?r = "set_eof r data index eof"
  note push_frame_ge [of "nextIndex ?r" ?r "drop (unat (nextIndex r - index)) data" eof]
  then show ?thesis
    using True unfolding push_substring.simps [of r data] set_eof_def [symmetric] Let_def by simp
qed (rule push_frame_ge)

lemma sr_step_delivers:
  assumes i: "sr_inv S L r" and o: "sr_ok S L r e"
  shows "map S [0..<unat (bytes_read (sr_output r))] @ sr_delivers e r
    = map S [0..<unat (bytes_read (sr_output (sr_step e r)))]"
proof -
  have h: "bs_holds S (sr_output r)" "bs_holds S (sr_output (sr_step e r))"
    using i sr_step_inv [OF i o] by (simp_all add: sr_inv_def)
  show ?thesis
  proof (cases e)
    case (SRead n)
    then show ?thesis
      using bs_holds_delivered [OF h] read_buf [OF bs_holds_inv [OF h(1)]] by (simp add: bytes_read_def)
  next
    case (SPop n)
    then show ?thesis
      using bs_holds_delivered [OF h] by (simp add: bytes_read_def peek_output_def substr_0)
  qed (simp add: bytes_read_def)
qed

interpretation sr_stream: delivery_system sr_step "sr_ok S L" "sr_inv S L" sr_delivers "\<lambda>r. unat (bytes_read (sr_output r))" S for S L
  by unfold_locales (rule sr_step_delivers)

lemma sr_step_advances:
  assumes "sr_inv S L r" "sr_ok S L r e"
  shows "advances r (sr_step e r)"
  using assms push_spec(2) by (cases e) (simp_all add: advances_def)

lemma sr_run_advances:
  "sr_inv S L r \<Longrightarrow> run_ok (sr_ok S L) sr_step ops r \<Longrightarrow> advances r (run sr_step ops r)"
proof (induction ops arbitrary: r)
  case (Cons e es)
  then have s: "sr_inv S L r" "sr_ok S L r e" "run_ok (sr_ok S L) sr_step es (sr_step e r)" by simp_all
  from sr_step_advances [OF s(1,2)] Cons.IH [OF sr_step_inv [OF s(1,2)] s(3)]
  have "advances r (run sr_step es (sr_step e r))" by (rule advances_trans)
  then show ?case by simp
qed simp

lemmas sr_eval = StreamReassembler_new_def ByteStream_new_def push_substring.simps drain.simps
  write_byte_def store_byte_def ByteStream_write_def ByteStream_read_def pop_output_def
  peek_output_def end_input_def remaining_capacity_def sr_empty_def input_ended_def
  bytes_written_def bytes_read_def buffer_size_def sz_def substr_def word_le_def word_less_def upt_rec

text \<open>A push that reaches \<open>nextIndex\<close>, in one statement for both cases.\<close>

lemma push_progress:
  assumes "sr_inv S L r" and "matches S L data index"
    and "index \<le> nextIndex r" and "unat (nextIndex r) < unat index + length data"
  shows "min (unat index + length data) (unat (nextIndex r) + room (sr_output r))
      \<le> unat (bytes_written (sr_output (push_substring r data index eof)))
    \<and> (remaining_capacity (sr_output (push_substring r data index eof)) = 0
       \<or> myMap (push_substring r data index eof) (nextIndex (push_substring r data index eof)) = None)"
proof -
  define r1 d where "r1 = (if index = nextIndex r then r else set_eof r data index eof)"
    and "d = drop (unat (nextIndex r) - unat index) data"
  have f: "fits data" using assms(2) by (simp add: matches_def)
  note o = matches_no_overflow [OF assms(2) sr_invD(4) [OF assms(1)]]
  have r1: "sr_inv S L r1" "nextIndex r1 = nextIndex r" "sr_output r1 = sr_output r"
    using assms(1) by (simp_all add: r1_def)
  have m: "matches S L d (nextIndex r1)"
    unfolding d_def r1(2) using assms(2-4) by (intro matches_drop) (simp_all add: word_le_nat_alt)
  have p: "push_substring r data index eof = push_substring r1 d (nextIndex r1) eof"
    using push_before [OF _ f o, of r eof] assms(3,4) r1(2) by (auto simp: r1_def d_def)
  have "length d = unat index + length data - unat (nextIndex r)"
    using assms(3) by (simp add: d_def word_le_nat_alt)
  then show ?thesis
    using push_at_spec(1,3,4) [OF r1(1) m, of eof] assms(4) r1(2,3) unfolding p
    by (auto simp: bytes_written_def sr_invD(3) room_def unat_eq_0)
qed

text \<open>A push that reaches \<open>nextIndex\<close> is one that starts there, perhaps after the end flag has been noted.\<close>

lemma push_reaching:
  assumes "sr_inv S L r" and "matches S L data index" and "index \<le> nextIndex r"
    and "unat (nextIndex r) < unat index + length data \<or> index = nextIndex r"
  obtains r1 d where "push_substring r data index eof = push_substring r1 d (nextIndex r1) eof" "sr_inv S L r1"
    "nextIndex r1 = nextIndex r" "sr_output r1 = sr_output r" "myMap r1 = myMap r" "sr_capacity r1 = sr_capacity r"
    "matches S L d (nextIndex r1)" "unat (nextIndex r) + length d = unat index + length data"
    "eof_flag r1 = eof_flag (set_eof r data index eof) \<or> index = nextIndex r \<and> d = data \<and> r1 = r"
proof (cases "index = nextIndex r")
  case True
  show ?thesis using True assms(1,2) by (intro that [of r data]) simp_all
next
  case False
  define r1 d where "r1 = set_eof r data index eof" and "d = drop (unat (nextIndex r) - unat index) data"
  have n: "index < nextIndex r" "unat (nextIndex r) < unat index + length data"
    using False assms(3,4) by auto
  have f: "fits data" using assms(2) by (simp add: matches_def)
  note o = matches_no_overflow [OF assms(2) sr_invD(4) [OF assms(1)]]
  have "matches S L d (nextIndex r)"
    unfolding d_def using assms(2,3) n(2) by (intro matches_drop) (simp_all add: word_le_nat_alt)
  moreover have "push_substring r data index eof = push_substring r1 d (nextIndex r) eof"
    using push_before [OF n(1) f o, of eof] n(2) by (simp add: r1_def d_def)
  moreover have "unat (nextIndex r) + length d = unat index + length data"
    using n by (simp add: d_def word_less_nat_alt)
  ultimately show ?thesis using assms(1) by (intro that [of r1 d]) (simp_all add: r1_def)
qed

text \<open>The room left and the index of the next byte add up to the same sum before and after a push.\<close>

lemma push_room:
  assumes "sr_inv S L r" and "matches S L data index"
  shows "room (sr_output (push_substring r data index eof)) + unat (nextIndex (push_substring r data index eof))
    = room (sr_output r) + unat (nextIndex r)"
proof -
  let ?r = "push_substring r data index eof"
  have sum: "room (sr_output q) + unat (nextIndex q) = unat (sr_capacity q) + unat (bs_read_count (sr_output q))"
    if "sr_inv S L q" for q
    using sr_invD(1-3) [OF that] room_eq [OF bs_holds_inv [OF sr_invD(1) [OF that]]] by (auto simp: bs_holds_def)
  show ?thesis
    using sum [OF assms(1)] sum [OF push_spec(1) [OF assms]] push_spec(2) [OF assms, of eof] by (simp add: advances_def)
qed

text \<open>
  Filling the gap: a push that reaches \<open>nextIndex\<close>, beyond whose end everything below \<open>N\<close> is stored, brings the
  output to \<open>N\<close>, if there is room.
\<close>

lemma push_fills:
  assumes "sr_inv S L r" and "matches S L data index" and "index \<le> nextIndex r"
    and "unat (nextIndex r) < unat index + length data \<or> index = nextIndex r"
    and "\<And>k. unat index + length data \<le> unat k \<Longrightarrow> unat k < N \<Longrightarrow> myMap r k \<noteq> None"
    and "N \<le> unat (nextIndex r) + room (sr_output r)"
  shows "N \<le> unat (nextIndex (push_substring r data index eof))"
proof (rule ccontr)
  let ?r = "push_substring r data index eof"
  assume "\<not> ?thesis"
  then have lt: "unat (nextIndex ?r) < N" by simp
  from push_reaching [OF assms(1-4), of eof] obtain r1 d where d: "?r = push_substring r1 d (nextIndex r1) eof" "sr_inv S L r1"
    "nextIndex r1 = nextIndex r" "sr_output r1 = sr_output r" "myMap r1 = myMap r"
    "matches S L d (nextIndex r1)" "unat (nextIndex r) + length d = unat index + length data" by blast
  note p = push_at_spec(2,3,4) [OF d(2,6), of eof, folded d(1)]
  have "0 < room (sr_output ?r)" using push_room [OF assms(1,2), of eof] lt assms(6) by linarith
  then have none: "myMap ?r (nextIndex ?r) = None" using p(3) by simp
  have "unat index + length data \<le> unat (nextIndex ?r)"
    using p(2) [unfolded d(3,4)] d(7) lt assms(6) by linarith
  then have "myMap r1 (nextIndex ?r) \<noteq> None" using assms(5) lt d(5) by simp
  then show False using p(1) none by (auto simp: advances_def)
qed

lemma push_eof_flag:
  assumes "sr_inv S L r" and "matches S L data index" and "index \<le> nextIndex r"
    and "unat (nextIndex r) < unat index + length data \<or> index = nextIndex r"
    and "eof_flag r \<or> eof \<and> unat index + length data = L" and "L \<le> unat (nextIndex r) + unat (sr_capacity r)"
  shows "eof_flag (push_substring r data index eof)"
proof -
  have f: "fits data" using assms(2) by (simp add: matches_def)
  have at: "eof_flag (push_substring q e (nextIndex q) eof) = eof_flag (set_eof q e (nextIndex q) eof)"
    if q: "sr_inv S L q" "matches S L e (nextIndex q)" for q e
  proof -
    let ?q = "set_eof q e (nextIndex q) eof" and ?n = "min (length e) (room (sr_output q))"
    have fe: "fits e" using q(2) by (simp add: matches_def)
    have iq: "sr_inv S L ?q" using q(1) by simp
    have w: "sr_inv S L (fold (write_byte e (nextIndex q)) [0..<?n] ?q)"
      "eof_flag (fold (write_byte e (nextIndex q)) [0..<?n] ?q) = eof_flag ?q"
      using write_loop [OF iq q(2), of ?n] by simp_all
    show ?thesis
      unfolding push_at [OF fe matches_no_overflow [OF q(2) sr_invD(4) [OF q(1)]]] using drain_spec [OF w(1)] w(2) by simp
  qed
  have "eof_flag (set_eof r data index eof)"
  proof (cases "eof_flag r")
    case False
    then have e: "eof" "unat index + length data = L" using assms(5) by auto
    have "index + sz data = of_nat L" using e(2) by (simp add: sz_def flip: e(2))
    then have eq: "sz data - nextIndex r + index = of_nat L - nextIndex r" by (simp add: algebra_simps)
    have "unat (of_nat L - nextIndex r :: u64) = L - unat (nextIndex r)"
      using sr_invD(4,5) [OF assms(1)] by (simp add: unat_sub_u64 word_le_nat_alt)
    moreover have "L - unat (nextIndex r) \<le> unat (sr_capacity r)" using assms(6) by linarith
    ultimately show ?thesis using e(1) unfolding set_eof_def eq by (simp add: word_le_nat_alt)
  qed (simp add: set_eof_def)
  moreover from push_reaching [OF assms(1-4), of eof] obtain r1 d where d: "push_substring r data index eof = push_substring r1 d (nextIndex r1) eof"
    "sr_inv S L r1" "matches S L d (nextIndex r1)"
    "eof_flag r1 = eof_flag (set_eof r data index eof) \<or> index = nextIndex r \<and> d = data \<and> r1 = r" by blast
  ultimately show ?thesis using at [OF d(2,3)] by (auto simp: set_eof_def)
qed

section \<open>Properties\<close>

text \<open>
  C2. The reassembler delivers a prefix of the peer's stream, whatever the order, overlap and
  duplication of the substrings: after any interleaving of pushes that agree with the stream and of
  reads, the bytes handed to the reader followed by those still buffered are the first
  \<open>bytes_written\<close> bytes of the stream.
\<close>

theorem reassembled_prefix:
  assumes "L < 2 ^ 64" and "run_ok (sr_ok S L) sr_step ops (StreamReassembler_new cap)"
  defines "r \<equiv> run sr_step ops (StreamReassembler_new cap)"
  shows "sr_hist ops (StreamReassembler_new cap) @ bs_buf (sr_output r)
      = map S [0..<unat (bytes_written (sr_output r))]
    \<and> unat (bytes_written (sr_output r)) \<le> L"
proof -
  have i: "sr_inv S L (StreamReassembler_new cap)" using assms(1) by (rule sr_inv_new)
  have r: "sr_inv S L r" unfolding r_def using i assms(2) by (rule sr_sys.run_inv)
  have "sr_hist ops (StreamReassembler_new cap) = map S [0..<unat (bs_read_count (sr_output r))]"
    using sr_stream.run_delivers [OF i assms(2)]
    by (simp add: r_def bytes_read_def StreamReassembler_new_def)
  then show ?thesis
    using bs_holds_total [OF sr_invD(1) [OF r]] sr_invD(3,5) [OF r] by (simp add: bytes_written_def)
qed

theorem reassembled_prefix_witness:
  "sr_hist [Push [1, 2] 1 False, Push [0, 1] 0 False, SRead 2] (StreamReassembler_new 4)
     @ bs_buf (sr_output (run sr_step [Push [1, 2] 1 False, Push [0, 1] 0 False, SRead 2]
         (StreamReassembler_new 4))) = [0, 1, 2]"
proof -
  let ?ops = "[Push [1, 2] 1 False, Push [0, 1] 0 False, SRead 2]"
  let ?S = "\<lambda>i. of_nat i :: byte"
  have "run_ok (sr_ok ?S 3) sr_step ?ops (StreamReassembler_new 4)"
    by (simp add: matches_def fits_def upt_rec)
  from reassembled_prefix [OF _ this]
  have "sr_hist ?ops (StreamReassembler_new 4)
      @ bs_buf (sr_output (run sr_step ?ops (StreamReassembler_new 4)))
    = map ?S [0..<unat (bytes_written (sr_output (run sr_step ?ops (StreamReassembler_new 4))))]"
    by simp
  moreover have "bytes_written (sr_output (run sr_step ?ops (StreamReassembler_new 4))) = 3"
    by (simp add: sr_eval)
  ultimately show ?thesis by (simp add: upt_rec)
qed

text \<open>
  C9. A push that reaches \<open>nextIndex\<close> makes progress: every new byte of the substring for which
  the output has room is written, and everything stored that has become contiguous follows until
  the output is full; afterwards either the output is full or the next byte is not yet known.
\<close>

theorem push_substring_progress:
  assumes "sr_inv S L r" and "matches S L data index"
    and "index \<le> nextIndex r" and "unat (nextIndex r) < unat index + length data"
  shows "min (unat index + length data) (unat (nextIndex r) + room (sr_output r))
      \<le> unat (bytes_written (sr_output (push_substring r data index eof)))
    \<and> (remaining_capacity (sr_output (push_substring r data index eof)) = 0
       \<or> myMap (push_substring r data index eof) (nextIndex (push_substring r data index eof)) = None)"
  using assms by (rule push_progress)

theorem push_substring_progress_witness:
  "min (unat (0 :: u64) + length [7, 8]) (unat (nextIndex (StreamReassembler_new 4))
        + room (sr_output (StreamReassembler_new 4)))
     \<le> unat (bytes_written (sr_output (push_substring (StreamReassembler_new 4) [7, 8] 0 False)))"
proof -
  have "sr_inv (\<lambda>i. 7 + of_nat i) 2 (StreamReassembler_new 4)" by (rule sr_inv_new) simp
  moreover have "matches (\<lambda>i. 7 + of_nat i) 2 [7, 8] 0"
    by (simp add: matches_def fits_def upt_rec)
  ultimately show ?thesis
    using push_substring_progress [of "\<lambda>i. 7 + of_nat i" 2 "StreamReassembler_new 4" "[7, 8]" 0 False]
    by (simp add: StreamReassembler_new_def)
qed

text \<open>
  C18. Bytes that arrive early are kept and delivered when the gap before them is filled. The first \<open>n\<close> bytes of a substring that
  arrives ahead of \<open>nextIndex\<close>, inside the window, with room for them, are stored; after any further pushes and reads each of
  them is still stored or the output has passed it; and a push that then reaches from \<open>nextIndex\<close> to the start of the
  substring writes the output up to their end, if there is room for that.
\<close>

theorem stored_bytes_delivered:
  assumes "sr_inv S L r" and "matches S L data index"
    and "nextIndex r < index" and "index - nextIndex r < sr_capacity r"
    and "n \<le> length data" and "n \<le> room (sr_output r)"
    and "run_ok (sr_ok S L) sr_step ops (push_substring r data index eof)"
  defines "r' \<equiv> run sr_step ops (push_substring r data index eof)"
  assumes "matches S L gap i" and "i \<le> nextIndex r'" and "unat (nextIndex r') < unat i + length gap"
    and "unat index \<le> unat i + length gap" and "unat index + n \<le> unat (nextIndex r') + room (sr_output r')"
  shows "(\<forall>j < n. myMap r' (index + of_nat j) = Some [data ! j] \<or> index + of_nat j < bytes_written (sr_output r'))
    \<and> unat index + n \<le> unat (bytes_written (sr_output (push_substring r' gap i eof')))"
proof -
  let ?r = "push_substring r data index eof"
  have i: "sr_inv S L ?r" using assms(1,2) by (rule push_spec)
  have i': "sr_inv S L r'" unfolding r'_def using i assms(7) by (rule sr_sys.run_inv)
  have u: "unat (index + of_nat j) = unat index + j" if "j < n" for j
    using that assms(5) sr_invD(4) [OF i] by (intro unat_index [OF assms(2)]) simp_all
  have k: "myMap r' (index + of_nat j) \<noteq> None \<or> index + of_nat j < nextIndex r'" if "j < n" for j
  proof -
    have "myMap ?r (index + of_nat j) \<noteq> None"
      unfolding push_near(6) [OF assms(1-4)] using assms(5,6) that by (intro disjI2 exI [of _ j]) simp
    then show ?thesis using sr_run_advances [OF i assms(7)] unfolding r'_def advances_def by blast
  qed
  have "myMap r' (index + of_nat j) = Some [data ! j] \<or> index + of_nat j < bytes_written (sr_output r')" if "j < n" for j
    using k [OF that] u [OF that] sr_invD(7) [OF i', of "index + of_nat j"] matches_nth [OF assms(2), of j] that assms(5)
    by (auto simp: bytes_written_def sr_invD(3) [OF i'])
  moreover have "unat index + n \<le> unat (nextIndex (push_substring r' gap i eof'))"
  proof (cases "unat index + n \<le> unat (nextIndex r')")
    case True
    then show ?thesis using push_spec(2) [OF i' assms(9), of eof'] by (simp add: advances_def word_le_nat_alt)
  next
    case False
    have "myMap r' q \<noteq> None" if "unat i + length gap \<le> unat q" "unat q < unat index + n" for q
    proof -
      have j: "unat q - unat index < n" "unat index \<le> unat q" using that assms(12) by linarith+
      then have "q = index + of_nat (unat q - unat index)" using u [OF j(1)] by (intro u64_eqI) linarith
      moreover have "\<not> q < nextIndex r'" using that(1) assms(11) by (simp add: word_less_nat_alt)
      ultimately show ?thesis using k [OF j(1)] by metis
    qed
    then show ?thesis using assms(11,13) by (intro push_fills [OF i' assms(9,10)]) auto
  qed
  ultimately show ?thesis using sr_invD(3) [OF push_spec(1) [OF i' assms(9)]] by (simp add: bytes_written_def)
qed

theorem stored_bytes_delivered_witness:
  "myMap (run sr_step [SRead 1] (push_substring (StreamReassembler_new 4) [5, 6] 1 False)) 2 = Some [6]
   \<and> 3 \<le> unat (bytes_written (sr_output (push_substring (run sr_step [SRead 1]
        (push_substring (StreamReassembler_new 4) [5, 6] 1 False)) [4] 0 False)))"
proof -
  let ?S = "\<lambda>i. 4 + of_nat i :: byte" and ?r = "run sr_step [SRead 1] (push_substring (StreamReassembler_new 4) [5, 6] 1 False)"
  have i: "sr_inv ?S 3 (StreamReassembler_new 4)" by (rule sr_inv_new) simp
  have m: "matches ?S 3 [5, 6] 1" "matches ?S 3 [4] 0"
    by (simp_all add: matches_def fits_def upt_rec)
  have r: "room (sr_output (StreamReassembler_new 4)) = 4" "nextIndex ?r = 0" "room (sr_output ?r) = 4" "bytes_written (sr_output ?r) = 0"
    by (simp_all add: sr_eval room_def)
  have n: "nextIndex (StreamReassembler_new 4) < 1" "1 - nextIndex (StreamReassembler_new 4) < sr_capacity (StreamReassembler_new 4)"
    by (simp_all add: sr_eval)
  have w: "2 \<le> length [5, 6 :: byte]" "2 \<le> room (sr_output (StreamReassembler_new 4))"
    "run_ok (sr_ok ?S 3) sr_step [SRead 1] (push_substring (StreamReassembler_new 4) [5, 6] 1 False)"
    using r(1) by simp_all
  have "0 \<le> nextIndex ?r" "unat (nextIndex ?r) < unat (0 :: u64) + length [4 :: byte]"
    "unat (1 :: u64) \<le> unat (0 :: u64) + length [4 :: byte]" "unat (1 :: u64) + 2 \<le> unat (nextIndex ?r) + room (sr_output ?r)"
    using r(2,3) by simp_all
  note t = stored_bytes_delivered [OF i m(1) n w m(2) this, of False]
  have "myMap ?r (1 + of_nat 1) = Some [[5, 6] ! 1] \<or> 1 + of_nat 1 < bytes_written (sr_output ?r)"
    using conjunct1 [OF t] by (elim allE [of _ 1]) simp
  then have "myMap ?r 2 = Some [6]" unfolding r(4) by simp
  then show ?thesis using conjunct2 [OF t] by simp
qed

text \<open>
  \<open>unassembled_bytes\<close> counts each stored index once, and the store stays below twice the
  capacity in every reachable state.
\<close>

theorem unassembled_bytes_bound:
  assumes "L < 2 ^ 64" and "run_ok (sr_ok S L) sr_step ops (StreamReassembler_new cap)"
  defines "r \<equiv> run sr_step ops (StreamReassembler_new cap)"
  shows "unat (unassembled_bytes r) = card (dom (myMap r))
    \<and> unat (unassembled_bytes r) \<le> 2 * unat cap - 1"
proof -
  have i: "sr_inv S L (StreamReassembler_new cap)" using assms(1) by (rule sr_inv_new)
  have r: "sr_inv S L r" unfolding r_def using i assms(2) by (rule sr_sys.run_inv)
  have c: "sr_capacity r = cap"
    using sr_run_advances [OF i assms(2)] by (simp add: r_def advances_def StreamReassembler_new_def)
  have "card (dom (myMap r)) < 2 ^ 64" using sr_dom_card(1) [OF r] assms(1) by linarith
  then have "unat (unassembled_bytes r) = card (dom (myMap r))"
    using sr_invD(6) [OF r] by (simp add: unassembled_bytes_def)
  then show ?thesis using sr_dom_card(2) [OF r] c by simp
qed

theorem unassembled_bytes_bound_witness:
  "unat (unassembled_bytes (run sr_step [Push [3, 4] 3 False] (StreamReassembler_new 4))) \<le> 2 * unat (4 :: u64) - 1"
proof -
  have "run_ok (sr_ok (\<lambda>i. of_nat i) 5) sr_step [Push [3, 4] 3 False] (StreamReassembler_new 4)"
    by (simp add: matches_def fits_def upt_rec)
  from unassembled_bytes_bound [OF _ this] show ?thesis by simp
qed

text \<open>
  C19. The end of the stream is signalled only when the whole stream has been written, provided
  every substring with the end flag ends at the stream's length, fits the free room and is not an
  empty one that arrives early.
\<close>

theorem end_of_stream_sound:
  assumes "L < 2 ^ 64" and "run_ok (sr_eof_ok S L) sr_step ops (StreamReassembler_new cap)"
    and "input_ended (sr_output (run sr_step ops (StreamReassembler_new cap)))"
  shows "unat (bytes_written (sr_output (run sr_step ops (StreamReassembler_new cap)))) = L"
proof -
  have "sr_inv S L (StreamReassembler_new cap) \<and> eof_inv L (StreamReassembler_new cap)"
    using sr_inv_new [OF assms(1)] by (simp add: eof_inv_def StreamReassembler_new_def)
  from sr_eof_sys.run_inv [OF this assms(2)] show ?thesis
    using assms(3) by (auto simp: eof_inv_def input_ended_def bytes_written_def sr_invD(3))
qed

theorem end_of_stream_sound_witness:
  "input_ended (sr_output (run sr_step [Push [1, 2] 1 True, Push [0] 0 False] (StreamReassembler_new 4)))
   \<and> unat (bytes_written (sr_output (run sr_step [Push [1, 2] 1 True, Push [0] 0 False]
        (StreamReassembler_new 4)))) = 3"
proof -
  let ?ops = "[Push [1, 2] 1 True, Push [0] 0 False]"
  have "room (ByteStream_new 4) = 4" by (simp add: room_eq)
  then have "run_ok (sr_eof_ok (\<lambda>i. of_nat i) 3) sr_step ?ops (StreamReassembler_new 4)"
    by (simp add: matches_def fits_def upt_rec eof_ok_def StreamReassembler_new_def)
  moreover have "input_ended (sr_output (run sr_step ?ops (StreamReassembler_new 4)))"
    by (simp add: sr_eval)
  ultimately show ?thesis using end_of_stream_sound [of 3 _ ?ops 4] by fastforce
qed

text \<open>
  C20. The end of the stream is signalled with the push that completes it. Let a substring start at or before \<open>nextIndex\<close> and reach
  beyond it, or start exactly there, and let everything behind it up to the end of the stream be stored and the output have room for all that is
  missing. If the end flag was noted before, or the substring carries it and ends the stream, then the output has the whole stream
  and is ended.
\<close>

theorem end_of_stream_complete:
  assumes "sr_inv S L r" and "matches S L data index" and "index \<le> nextIndex r"
    and "unat (nextIndex r) < unat index + length data \<or> index = nextIndex r"
    and "eof_flag r \<or> eof \<and> unat index + length data = L"
    and "\<forall>k. unat index + length data \<le> unat k \<longrightarrow> unat k < L \<longrightarrow> myMap r k \<noteq> None"
    and "L - unat (nextIndex r) \<le> room (sr_output r)"
  shows "unat (bytes_written (sr_output (push_substring r data index eof))) = L
    \<and> input_ended (sr_output (push_substring r data index eof))"
proof -
  let ?r = "push_substring r data index eof"
  have L: "unat (nextIndex r) \<le> L" using sr_invD(5) [OF assms(1)] .
  have rm: "room (sr_output r) \<le> unat (sr_capacity r)"
    using room_le_capacity [OF bs_holds_inv [OF sr_invD(1) [OF assms(1)]]] sr_invD(2) [OF assms(1)] by simp
  have i: "sr_inv S L ?r" using assms(1,2) by (rule push_spec)
  have "L \<le> unat (nextIndex ?r)"
    using assms(6,7) L by (intro push_fills [OF assms(1-4)]) auto
  then have n: "unat (nextIndex ?r) = L" using sr_invD(5) [OF i] by simp
  have e: "eof_flag ?r" using assms(7) L rm by (intro push_eof_flag [OF assms(1-5)]) linarith
  obtain r1 d where d: "?r = push_substring r1 d (nextIndex r1) eof" "sr_inv S L r1" "matches S L d (nextIndex r1)"
    using push_reaching [OF assms(1-4), of eof] by blast
  then show ?thesis
    using push_at_spec(5) [OF d(2,3), of eof, folded d(1)] n e sr_invD(3) [OF i] by (simp add: bytes_written_def)
qed

theorem end_of_stream_complete_witness:
  "unat (bytes_written (sr_output (push_substring (push_substring (StreamReassembler_new 4) [9] 1 True) [9] 0 False))) = 2
   \<and> input_ended (sr_output (push_substring (push_substring (StreamReassembler_new 4) [9] 1 True) [9] 0 False))"
proof (rule end_of_stream_complete)
  let ?r = "push_substring (StreamReassembler_new 4) [9] 1 True"
  have "sr_inv (\<lambda>_. 9) 2 (StreamReassembler_new 4)" by (rule sr_inv_new) simp
  then show "sr_inv (\<lambda>_. 9) 2 ?r"
    by (rule push_spec) (simp add: matches_def fits_def upt_rec)
  show "matches (\<lambda>_. 9) 2 [9] 0" by (simp add: matches_def fits_def upt_rec)
  show "\<forall>k. unat (0 :: u64) + length [9 :: byte] \<le> unat k \<longrightarrow> unat k < 2 \<longrightarrow> myMap ?r k \<noteq> None"
  proof (intro allI impI)
    fix k :: u64
    assume "unat (0 :: u64) + length [9 :: byte] \<le> unat k" "unat k < 2"
    then have "k = 1" by (intro u64_eqI) simp
    then show "myMap ?r k \<noteq> None" by (simp add: sr_eval)
  qed
  show "2 - unat (nextIndex ?r) \<le> room (sr_output ?r)" by (simp add: sr_eval room_def)
qed (simp_all add: sr_eval)

section \<open>Where the code departs from its documentation\<close>

text \<open>
  \<open>push_substring\<close> is documented to stay within the capacity; substrings that arrive ahead of
  \<open>nextIndex\<close> can make it store more.
\<close>

lemma capacity_exceeded:
  "3 < unassembled_bytes (run sr_step [Push [2, 3, 4] 2 False, Push [1] 1 False] (StreamReassembler_new 3))"
  by (simp add: sr_eval unassembled_bytes_def)

text \<open>
  An empty substring with the end flag that arrives early ends the output before the stream is
  complete: here the stream has five bytes and the output ends after two.
\<close>

lemma early_end_of_stream:
  "input_ended (sr_output (run sr_step [Push [] 5 True, Push [0, 1] 0 False] (StreamReassembler_new 10)))
   \<and> bytes_written (sr_output (run sr_step [Push [] 5 True, Push [0, 1] 0 False] (StreamReassembler_new 10))) = 2"
  by (simp add: sr_eval)

text \<open>
  A final substring that is larger than the free room of the output but not than the capacity
  ends the output although its tail was discarded.
\<close>

lemma truncated_end_of_stream:
  "input_ended (sr_output (run sr_step [Push [0, 1] 0 False, Push [2, 3, 4] 2 True] (StreamReassembler_new 4)))
   \<and> bytes_written (sr_output (run sr_step [Push [0, 1] 0 False, Push [2, 3, 4] 2 True] (StreamReassembler_new 4))) = 4"
  by (simp add: sr_eval)

text \<open>
  A substring that carries the end flag but no new byte, and starts before \<open>nextIndex\<close>, leaves the
  output as it is: repeating it never ends the stream.
\<close>

lemma duplicate_end_ignored:
  assumes "index < nextIndex r" "fits data" "unat index + length data = unat (nextIndex r)"
  shows "sr_output (push_substring r data index True) = sr_output r"
  using assms push_before [OF assms(1,2), of True] unat_u64_less [of "nextIndex r"] by simp

end
