(* ===== verification/Buffers.thy ===== *)
theory Buffers
  imports Prelude
begin

text \<open>
  \<^verbatim>\<open>libsponge/util/buffer.{hh,cc}\<close>: read-only strings that can drop bytes from the front. The
  shared storage of a \<open>Buffer\<close> is immutable, so a \<open>shared_ptr\<close> to it is an optional string.
  A \<open>BufferList\<close> is its deque of buffers, a \<open>BufferViewList\<close> its deque of views.
\<close>

section \<open>Model\<close>

record Buffer =
  buf_storage :: "byte list option"
  buf_starting_offset :: u64

definition Buffer_empty :: Buffer where
  "Buffer_empty = \<lparr>buf_storage = None, buf_starting_offset = 0\<rparr>"

definition Buffer_of :: "byte list \<Rightarrow> Buffer" where
  "Buffer_of s = \<lparr>buf_storage = Some s, buf_starting_offset = 0\<rparr>"

definition str :: "Buffer \<Rightarrow> byte list" where
  "str b = (case buf_storage b of
      None \<Rightarrow> []
    | Some s \<Rightarrow> substr s (buf_starting_offset b) (sz s - buf_starting_offset b))"

definition Buffer_size :: "Buffer \<Rightarrow> u64" where
  "Buffer_size b = sz (str b)"

definition Buffer_at :: "Buffer \<Rightarrow> u64 \<Rightarrow> exn + byte" where
  "Buffer_at b n = (if n < Buffer_size b then Inr (str b ! unat n) else Inl (out_of_range ''string_view::at''))"

definition Buffer_copy :: "Buffer \<Rightarrow> byte list" where
  "Buffer_copy b = str b"

definition Buffer_remove_prefix :: "Buffer \<Rightarrow> u64 \<Rightarrow> exn + Buffer" where
  "Buffer_remove_prefix b n =
     (if sz (str b) < n then Inl (out_of_range ''Buffer::remove_prefix'')
      else
        let b = b\<lparr>buf_starting_offset := buf_starting_offset b + n\<rparr>
        in Inr (case buf_storage b of
             None \<Rightarrow> b
           | Some s \<Rightarrow> if buf_starting_offset b = sz s then b\<lparr>buf_storage := None\<rparr> else b))"

type_synonym BufferList = "Buffer list"
type_synonym BufferViewList = "byte list list"

definition BufferList_append :: "BufferList \<Rightarrow> BufferList \<Rightarrow> BufferList" where
  "BufferList_append bs other = fold (\<lambda>buf acc. acc @ [buf]) other bs"

definition BufferList_to_Buffer :: "BufferList \<Rightarrow> exn + Buffer" where
  "BufferList_to_Buffer bs = (case bs of
      [] \<Rightarrow> Inr Buffer_empty
    | [b] \<Rightarrow> Inr b
    | _ \<Rightarrow> Inl (runtime_error
        ''BufferList: please use concatenate() to combine a multi-Buffer BufferList into one Buffer''))"

definition BufferList_concatenate :: "BufferList \<Rightarrow> byte list" where
  "BufferList_concatenate bs = fold (\<lambda>buf ret. ret @ str buf) bs []"

definition BufferList_size :: "BufferList \<Rightarrow> u64" where
  "BufferList_size bs = fold (\<lambda>buf ret. ret + Buffer_size buf) bs 0"

fun BufferList_remove_prefix :: "BufferList \<Rightarrow> u64 \<Rightarrow> exn + BufferList" where
  "BufferList_remove_prefix [] n =
     (if n = 0 then Inr [] else Inl (out_of_range ''BufferList::remove_prefix''))"
| "BufferList_remove_prefix (b # bs) n =
     (if n = 0 then Inr (b # bs)
      else if n < sz (str b)
      then (case Buffer_remove_prefix b n of Inl e \<Rightarrow> Inl e | Inr b' \<Rightarrow> Inr (b' # bs))
      else BufferList_remove_prefix bs (n - sz (str b)))"

definition BufferViewList_of :: "BufferList \<Rightarrow> BufferViewList" where
  "BufferViewList_of bs = map str bs"

fun BufferViewList_remove_prefix :: "BufferViewList \<Rightarrow> u64 \<Rightarrow> exn + BufferViewList" where
  "BufferViewList_remove_prefix [] n =
     (if n = 0 then Inr [] else Inl (out_of_range ''BufferListView::remove_prefix''))"
| "BufferViewList_remove_prefix (v # vs) n =
     (if n = 0 then Inr (v # vs)
      else if n < sz v then Inr (drop (unat n) v # vs)
      else BufferViewList_remove_prefix vs (n - sz v))"

definition BufferViewList_size :: "BufferViewList \<Rightarrow> u64" where
  "BufferViewList_size vs = fold (\<lambda>v ret. ret + sz v) vs 0"

section \<open>Lemmas\<close>

text \<open>The offset is within the storage.\<close>

definition buf_inv :: "Buffer \<Rightarrow> bool" where
  "buf_inv b = (case buf_storage b of
      None \<Rightarrow> True
    | Some s \<Rightarrow> fits s \<and> unat (buf_starting_offset b) \<le> length s)"

lemma str_storage:
  "buf_inv b \<Longrightarrow> str b = (case buf_storage b of None \<Rightarrow> [] | Some s \<Rightarrow> drop (unat (buf_starting_offset b)) s)"
  by (auto simp: str_def buf_inv_def substr_def unat_sub_u64 word_le_nat_alt split: option.split)

lemma buf_inv_str_fits [simp]: "buf_inv b \<Longrightarrow> fits (str b)"
  by (auto simp: str_storage buf_inv_def split: option.split)

lemma buf_inv_new [simp]: "buf_inv Buffer_empty" "fits s \<Longrightarrow> buf_inv (Buffer_of s)"
  by (simp_all add: buf_inv_def Buffer_empty_def Buffer_of_def)

lemma str_new [simp]: "str Buffer_empty = []" "fits s \<Longrightarrow> str (Buffer_of s) = s"
  by (simp_all add: str_storage buf_inv_def Buffer_empty_def Buffer_of_def)

text \<open>\<open>remove_prefix\<close> succeeds exactly when enough bytes are left, and drops them.\<close>

lemma Buffer_remove_prefix_spec:
  assumes "buf_inv b"
  shows "unat n \<le> length (str b) \<Longrightarrow>
      \<exists>b'. Buffer_remove_prefix b n = Inr b' \<and> buf_inv b' \<and> str b' = drop (unat n) (str b)"
    and "length (str b) < unat n \<Longrightarrow>
      Buffer_remove_prefix b n = Inl (out_of_range ''Buffer::remove_prefix'')"
proof -
  assume n: "unat n \<le> length (str b)"
  then have c: "\<not> sz (str b) < n" using assms by (simp add: word_less_nat_alt)
  show "\<exists>b'. Buffer_remove_prefix b n = Inr b' \<and> buf_inv b' \<and> str b' = drop (unat n) (str b)"
  proof (cases "buf_storage b")
    case None
    then show ?thesis using c by (simp add: Buffer_remove_prefix_def buf_inv_def str_def)
  next
    case (Some s)
    let ?o = "buf_starting_offset b"
    have s: "fits s" "unat ?o \<le> length s" "str b = drop (unat ?o) s"
      using assms Some by (simp_all add: buf_inv_def str_storage)
    have le: "unat ?o + unat n \<le> length s" using n s by simp
    then have u: "unat (?o + n) = unat ?o + unat n"
      using s(1) by (intro unat_add_u64) (simp add: fits_def)
    have e: "?o + n = sz s \<longleftrightarrow> unat ?o + unat n = length s"
      using s(1) u by (metis unat_sz word_unat_eq_iff)
    show ?thesis
      using c Some s le u e
      by (auto simp: Buffer_remove_prefix_def Let_def buf_inv_def str_storage add.commute)
  qed
next
  assume "length (str b) < unat n"
  then show "Buffer_remove_prefix b n = Inl (out_of_range ''Buffer::remove_prefix'')"
    using assms by (simp add: Buffer_remove_prefix_def word_less_nat_alt)
qed

lemma BufferList_append_eq: "BufferList_append bs other = bs @ other"
  by (induction other arbitrary: bs) (simp_all add: BufferList_append_def)

lemma BufferList_concatenate_eq: "BufferList_concatenate bs = concat (map str bs)"
proof -
  have "fold (\<lambda>buf ret. ret @ str buf) bs acc = acc @ concat (map str bs)" for acc
    by (induction bs arbitrary: acc) simp_all
  then show ?thesis by (simp add: BufferList_concatenate_def)
qed

lemma BufferList_size_eq: "BufferList_size bs = sz (BufferList_concatenate bs)"
proof -
  have "fold (\<lambda>buf ret. ret + Buffer_size buf) bs acc = acc + sz (concat (map str bs))" for acc
    by (induction bs arbitrary: acc) (simp_all add: sz_append Buffer_size_def)
  then show ?thesis by (simp add: BufferList_size_def BufferList_concatenate_eq)
qed

lemma BufferViewList_size_eq: "BufferViewList_size vs = sz (concat vs)"
proof -
  have "fold (\<lambda>v ret. ret + sz v) vs acc = acc + sz (concat vs)" for acc
    by (induction vs arbitrary: acc) (simp_all add: sz_append)
  then show ?thesis by (simp add: BufferViewList_size_def)
qed

lemma BufferList_remove_prefix_drop:
  "\<forall>b \<in> set bs. buf_inv b \<Longrightarrow> fits (concat (map str bs)) \<Longrightarrow> unat n \<le> length (concat (map str bs)) \<Longrightarrow>
     \<exists>bs'. BufferList_remove_prefix bs n = Inr bs' \<and> (\<forall>b \<in> set bs'. buf_inv b)
       \<and> concat (map str bs') = drop (unat n) (concat (map str bs))
       \<and> BufferViewList_remove_prefix (map str bs) n = Inr (map str bs')"
proof (induction bs n rule: BufferList_remove_prefix.induct)
  case (1 n)
  then show ?case by (simp add: unat_eq_0)
next
  case (2 b bs n)
  have f: "fits (str b)" and b: "buf_inv b" using "2.prems" by simp_all
  consider "n = 0" | "n \<noteq> 0" "n < sz (str b)" | "n \<noteq> 0" "\<not> n < sz (str b)" by blast
  then show ?case
  proof cases
    case 1
    then show ?thesis using "2.prems" by simp
  next
    case 2
    then have n: "unat n \<le> length (str b)" using f by (simp add: word_less_nat_alt)
    from Buffer_remove_prefix_spec(1) [OF b n] obtain b' where
      "Buffer_remove_prefix b n = Inr b'" "buf_inv b'" "str b' = drop (unat n) (str b)" by blast
    then show ?thesis using 2 "2.prems" n by auto
  next
    case 3
    then have le: "length (str b) \<le> unat n" "unat (n - sz (str b)) = unat n - length (str b)"
      using f by (simp_all add: word_less_nat_alt unat_sub_u64 word_le_nat_alt)
    have "fits (concat (map str bs))" using "2.prems"(2) by (simp add: fits_def)
    moreover have "unat n - length (str b) \<le> length (concat (map str bs))" using "2.prems"(3) by simp
    ultimately obtain bs' where
      "BufferList_remove_prefix bs (n - sz (str b)) = Inr bs'" "\<forall>b \<in> set bs'. buf_inv b"
      "concat (map str bs') = drop (unat n - length (str b)) (concat (map str bs))"
      "BufferViewList_remove_prefix (map str bs) (n - sz (str b)) = Inr (map str bs')"
      using "2.IH" [OF 3] "2.prems"(1) le(2) by auto
    then show ?thesis using 3 le by simp
  qed
qed

lemma BufferList_remove_prefix_throws:
  "\<forall>b \<in> set bs. buf_inv b \<Longrightarrow> fits (concat (map str bs)) \<Longrightarrow> length (concat (map str bs)) < unat n \<Longrightarrow>
     BufferList_remove_prefix bs n = Inl (out_of_range ''BufferList::remove_prefix'')"
proof (induction bs n rule: BufferList_remove_prefix.induct)
  case (2 b bs n)
  have f: "fits (str b)" using "2.prems" by simp
  have n: "n \<noteq> 0" "\<not> n < sz (str b)" using "2.prems"(3) f by (auto simp: word_less_nat_alt)
  then have "unat (n - sz (str b)) = unat n - length (str b)"
    using f by (simp add: word_less_nat_alt unat_sub_u64 word_le_nat_alt)
  moreover have "fits (concat (map str bs))" using "2.prems"(2) by (simp add: fits_def)
  ultimately show ?case using "2.IH" [OF n] "2.prems" n by simp
qed auto

section \<open>Properties\<close>

text \<open>
  C21. \<open>BufferList::remove_prefix(n)\<close> discards exactly the first \<open>n\<close> bytes of the discontiguous
  string, and the view list made from it stays in step; it throws exactly when the string is
  shorter than \<open>n\<close>.
\<close>

theorem BufferList_remove_prefix_correct:
  assumes "\<forall>b \<in> set bs. buf_inv b" and "fits (BufferList_concatenate bs)"
  shows "if unat n \<le> length (BufferList_concatenate bs)
    then \<exists>bs'. BufferList_remove_prefix bs n = Inr bs'
        \<and> BufferList_concatenate bs' = drop (unat n) (BufferList_concatenate bs)
        \<and> BufferViewList_remove_prefix (BufferViewList_of bs) n = Inr (BufferViewList_of bs')
    else BufferList_remove_prefix bs n = Inl (out_of_range ''BufferList::remove_prefix'')"
  using BufferList_remove_prefix_drop [of bs n] BufferList_remove_prefix_throws [of bs n] assms
  by (auto simp: BufferList_concatenate_eq BufferViewList_of_def)

theorem BufferList_remove_prefix_correct_witness:
  "\<exists>bs'. BufferList_remove_prefix [Buffer_of [1, 2], Buffer_of [3, 4]] 3 = Inr bs'
     \<and> BufferList_concatenate bs' = [4]"
proof -
  have "\<forall>b \<in> set [Buffer_of [1, 2], Buffer_of [3, 4]]. buf_inv b" by (simp add: fits_def)
  moreover have c: "BufferList_concatenate [Buffer_of [1, 2], Buffer_of [3, 4]] = [1, 2, 3, 4]"
    by (simp add: BufferList_concatenate_eq fits_def)
  ultimately show ?thesis
    using BufferList_remove_prefix_correct [of "[Buffer_of [1, 2], Buffer_of [3, 4]]" 3]
    by (simp only: fits_def) (simp del: BufferList_remove_prefix.simps, blast)
qed

end
