(* ===== verification/Parsers.thy ===== *)
theory Parsers
  imports Buffers
begin

text \<open>
  \<^verbatim>\<open>libsponge/util/parser.{hh,cc}\<close>: \<open>NetParser\<close> reads big-endian integers off the front of a
  \<open>Buffer\<close>, with an error that sticks; \<open>NetUnparser\<close> appends them to a string. The template
  parameter \<open>T\<close> is the word length, \<open>sizeof(T)\<close> is \<^verbatim>\<open>LENGTH('a) div 8\<close>. The interface that
  the header parsers rely on is the locale \<^verbatim>\<open>net_codec\<close>.
\<close>

section \<open>Model\<close>

datatype ParseResult = NoError | BadChecksum | PacketTooShort | WrongIPVersion | HeaderTooShort
  | TruncatedPacket | Unsupported

fun ParseResult_index :: "ParseResult \<Rightarrow> nat" where
  "ParseResult_index NoError = 0"
| "ParseResult_index BadChecksum = 1"
| "ParseResult_index PacketTooShort = 2"
| "ParseResult_index WrongIPVersion = 3"
| "ParseResult_index HeaderTooShort = 4"
| "ParseResult_index TruncatedPacket = 5"
| "ParseResult_index Unsupported = 6"

text \<open>The table lookup; an index outside the table, undefined behaviour in the code, is \<open>None\<close>.\<close>

definition as_string :: "ParseResult \<Rightarrow> string option" where
  "as_string r =
     (let names = [''NoError'', ''BadChecksum'', ''PacketTooShort'', ''WrongIPVersion'',
                   ''HeaderTooShort'', ''TruncatedPacket'']
      in if ParseResult_index r < length names then Some (names ! ParseResult_index r) else None)"

record NetParser =
  np_buffer :: Buffer
  np_error :: ParseResult

definition NetParser_new :: "Buffer \<Rightarrow> NetParser" where
  "NetParser_new b = \<lparr>np_buffer = b, np_error = NoError\<rparr>"

definition np_set_error :: "NetParser \<Rightarrow> ParseResult \<Rightarrow> NetParser" where
  "np_set_error p res = p\<lparr>np_error := res\<rparr>"

definition parse_error :: "NetParser \<Rightarrow> bool" where
  "parse_error p \<longleftrightarrow> np_error p \<noteq> NoError"

definition check_size :: "NetParser \<Rightarrow> u64 \<Rightarrow> NetParser" where
  "check_size p n = (if Buffer_size (np_buffer p) < n then np_set_error p PacketTooShort else p)"

text \<open>
  Behind the size check neither \<open>at\<close> nor \<open>remove_prefix\<close> can throw (lemma
  \<^verbatim>\<open>parser_never_throws\<close>), so their results are taken without a branch for the exception.
\<close>

definition parse_int :: "NetParser \<Rightarrow> 'a::len word \<times> NetParser" where
  "parse_int p =
     (let len = LENGTH('a) div 8;
          p = check_size p (of_nat len)
      in if parse_error p then (0, p)
         else (fold (\<lambda>i ret. push_bit 8 ret + ucast (projr (Buffer_at (np_buffer p) (of_nat i)))) [0..<len] 0,
               p\<lparr>np_buffer := projr (Buffer_remove_prefix (np_buffer p) (of_nat len))\<rparr>))"

definition np_remove_prefix :: "NetParser \<Rightarrow> u64 \<Rightarrow> NetParser" where
  "np_remove_prefix p n =
     (let p = check_size p n
      in if parse_error p then p
         else p\<lparr>np_buffer := projr (Buffer_remove_prefix (np_buffer p) n)\<rparr>)"

definition unparse_int :: "byte list \<Rightarrow> 'a::len word \<Rightarrow> byte list" where
  "unparse_int s val =
     (let len = LENGTH('a) div 8
      in fold (\<lambda>i s. s @ [ucast (drop_bit ((len - i - 1) * 8) val AND 0xff)]) [0..<len] s)"

definition parse_u32 :: "NetParser \<Rightarrow> u32 \<times> NetParser" where
  "parse_u32 = parse_int"

definition parse_u16 :: "NetParser \<Rightarrow> u16 \<times> NetParser" where
  "parse_u16 = parse_int"

definition parse_u8 :: "NetParser \<Rightarrow> u8 \<times> NetParser" where
  "parse_u8 = parse_int"

definition unparse_u32 :: "byte list \<Rightarrow> u32 \<Rightarrow> byte list" where
  "unparse_u32 = unparse_int"

definition unparse_u16 :: "byte list \<Rightarrow> u16 \<Rightarrow> byte list" where
  "unparse_u16 = unparse_int"

definition unparse_u8 :: "byte list \<Rightarrow> u8 \<Rightarrow> byte list" where
  "unparse_u8 = unparse_int"

section \<open>Big-endian byte strings\<close>

definition be_bytes :: "'a::len word \<Rightarrow> byte list" where
  "be_bytes v = map (\<lambda>i. ucast (drop_bit ((LENGTH('a) div 8 - i - 1) * 8) v)) [0..<LENGTH('a) div 8]"

lemma length_be_bytes [simp]: "length (be_bytes (v :: 'a::len word)) = LENGTH('a) div 8"
  by (simp add: be_bytes_def)

lemma ucast_and_ff: "(ucast (w AND 0xff :: 'a::len word) :: byte) = ucast w"
proof -
  have "(0xff :: 'a word) = mask 8" by (simp add: mask_eq_exp_minus_1)
  then show ?thesis by (simp only: flip: take_bit_eq_mask)
      (rule bit_word_eqI, auto simp: bit_simps dest: bit_imp_le_length)
qed

lemma unparse_int_eq: "unparse_int s (v :: 'a::len word) = s @ be_bytes v"
proof -
  have "fold (\<lambda>i s. s @ [f i]) xs s = s @ map f xs" for f :: "nat \<Rightarrow> byte" and xs
    by (induction xs arbitrary: s) auto
  then show ?thesis by (simp add: unparse_int_def be_bytes_def ucast_and_ff Let_def)
qed

lemma ucast_byte: "8 \<le> LENGTH('a) \<Longrightarrow> (ucast (ucast (w :: 'a::len word) :: byte) :: 'a word) = take_bit 8 w"
  by (rule bit_word_eqI) (auto simp: bit_simps)

lemma horner_step:
  assumes "8 \<le> LENGTH('a)"
  shows "push_bit 8 (drop_bit (n + 8) (v :: 'a::len word)) + ucast (ucast (drop_bit n v) :: byte) = drop_bit n v"
proof -
  have "drop_bit (n + 8) v = drop_bit 8 (drop_bit n v)" by (simp add: add.commute)
  then show ?thesis by (simp only: ucast_byte [OF assms] bits_ident)
qed

lemma horner_be_bytes:
  assumes "8 dvd LENGTH('a)" and "k \<le> LENGTH('a::len) div 8"
  shows "fold (\<lambda>i ret. push_bit 8 ret + ucast (be_bytes v ! i)) [0..<k] 0
    = drop_bit ((LENGTH('a) div 8 - k) * 8) (v :: 'a word)"
  using assms(2)
proof (induction k)
  case 0
  have "LENGTH('a) div 8 * 8 = LENGTH('a)" using assms(1) by simp
  then have "drop_bit (LENGTH('a) div 8 * 8) v = 0"
    by (intro bit_word_eqI) (simp add: bit_simps bit_imp_le_length impossible_bit)
  then show ?case by simp
next
  case (Suc k)
  define n where "n = LENGTH('a) div 8 - Suc k"
  have e: "(LENGTH('a) div 8 - k) * 8 = n * 8 + 8" using Suc.prems by (simp add: n_def)
  have l: "8 \<le> LENGTH('a)" using assms(1) by (auto intro: dvd_imp_le)
  have b: "be_bytes v ! k = ucast (drop_bit (n * 8) v)"
    using Suc.prems by (simp add: be_bytes_def n_def)
  show ?case
    using Suc horner_step [OF l, of "n * 8" v] by (simp add: e b flip: n_def)
qed

lemma parse_be_bytes:
  assumes "8 dvd LENGTH('a)"
  shows "fold (\<lambda>i ret. push_bit 8 ret + ucast ((be_bytes v @ rest) ! i)) [0..<LENGTH('a) div 8] 0 = (v :: 'a::len word)"
proof -
  have "fold (\<lambda>i ret. push_bit 8 ret + ucast ((be_bytes v @ rest) ! i)) [0..<LENGTH('a) div 8] 0
      = fold (\<lambda>i ret. push_bit 8 ret + ucast (be_bytes v ! i)) [0..<LENGTH('a) div 8] (0 :: 'a word)"
    by (rule fold_cong) (simp_all add: nth_append)
  then show ?thesis using horner_be_bytes [OF assms, of "LENGTH('a) div 8" v] by simp
qed

lemma be_bytes_inj: "8 dvd LENGTH('a) \<Longrightarrow> be_bytes v = be_bytes w \<Longrightarrow> v = (w :: 'a::len word)"
  using parse_be_bytes [of v "[]"] parse_be_bytes [of w "[]"] by simp

text \<open>There are as many words as byte strings of their length, so every such string encodes one.\<close>

lemma be_bytes_surj:
  assumes "8 dvd LENGTH('a)" and "length bs = LENGTH('a::len) div 8"
  shows "\<exists>v :: 'a word. be_bytes v = bs"
proof -
  let ?B = "{xs :: byte list. set xs \<subseteq> UNIV \<and> length xs = LENGTH('a) div 8}"
  have "card (range (be_bytes :: 'a word \<Rightarrow> _)) = 2 ^ LENGTH('a)"
    using be_bytes_inj [OF assms(1)] by (simp add: card_image inj_def card_word)
  also have "\<dots> = card ?B"
  proof -
    have "LENGTH('a) = LENGTH(8) * (LENGTH('a) div 8)" using assms(1) by simp
    then show ?thesis
      by (simp only: card_lists_length_eq card_word finite flip: power_mult)
  qed
  finally have "range (be_bytes :: 'a word \<Rightarrow> _) = ?B"
    using finite_lists_length_eq [of "UNIV :: byte set" "LENGTH('a) div 8"]
    by (intro card_subset_eq) auto
  then have "bs \<in> range (be_bytes :: 'a word \<Rightarrow> _)" using assms(2) by simp
  then show ?thesis by auto
qed

section \<open>The parser's laws\<close>

text \<open>A parser without error, in front of the bytes \<open>bs\<close>.\<close>

definition ready :: "NetParser \<Rightarrow> byte list \<Rightarrow> bool" where
  "ready p bs \<longleftrightarrow> buf_inv (np_buffer p) \<and> str (np_buffer p) = bs \<and> np_error p = NoError"

lemma readyD: "ready p bs \<Longrightarrow> fits bs" "ready p bs \<Longrightarrow> np_error p = NoError"
  by (auto simp: ready_def)

lemma ready_new [simp]: "fits bs \<Longrightarrow> ready (NetParser_new (Buffer_of bs)) bs"
  by (simp add: ready_def NetParser_new_def)

lemma parser_never_throws:
  assumes "\<not> parse_error (check_size p n)"
  shows "check_size p n = p" and "i < n \<Longrightarrow> Buffer_at (np_buffer p) i = Inr (str (np_buffer p) ! unat i)"
    and "\<exists>b. Buffer_remove_prefix (np_buffer p) n = Inr b"
  using assms by (auto simp: check_size_def parse_error_def np_set_error_def Buffer_at_def
      Buffer_remove_prefix_def Buffer_size_def Let_def split: if_splits)

lemma check_size_ready:
  "ready p bs \<Longrightarrow> check_size p n = (if length bs < unat n then np_set_error p PacketTooShort else p)"
  by (auto simp: check_size_def ready_def Buffer_size_def word_less_nat_alt)

lemma remove_prefix_ready:
  "ready p bs \<Longrightarrow> unat n \<le> length bs \<Longrightarrow> ready (np_remove_prefix p n) (drop (unat n) bs)"
  "ready p bs \<Longrightarrow> length bs < unat n \<Longrightarrow> np_error (np_remove_prefix p n) = PacketTooShort"
proof -
  assume r: "ready p bs" and n: "unat n \<le> length bs"
  have b: "buf_inv (np_buffer p)" and l: "unat n \<le> length (str (np_buffer p))"
    using r n by (auto simp: ready_def)
  from Buffer_remove_prefix_spec(1) [OF b l]
  show "ready (np_remove_prefix p n) (drop (unat n) bs)"
    using r n by (auto simp: np_remove_prefix_def check_size_ready ready_def parse_error_def)
qed (simp add: np_remove_prefix_def check_size_ready parse_error_def np_set_error_def)

lemma parse_int_short:
  "ready p bs \<Longrightarrow> length bs < LENGTH('a::len) div 8 \<Longrightarrow> LENGTH('a) < 2 ^ 64 \<Longrightarrow>
     np_error (snd (parse_int p :: 'a word \<times> NetParser)) = PacketTooShort"
  by (simp add: parse_int_def check_size_ready parse_error_def np_set_error_def)

lemma parse_int_stuck: "np_error p = PacketTooShort \<Longrightarrow> np_error (snd (parse_int p)) = PacketTooShort"
  by (simp add: parse_int_def check_size_def parse_error_def np_set_error_def Let_def)

lemma parse_int_ready:
  fixes v :: "'a::len word"
  assumes r: "ready p (be_bytes v @ rest)" and "8 dvd LENGTH('a)" "LENGTH('a) < 2 ^ 64"
  shows "fst (parse_int p) = v" and "ready (snd (parse_int p :: 'a word \<times> NetParser)) rest"
proof -
  let ?n = "of_nat (LENGTH('a) div 8) :: u64"
  have n: "unat ?n = LENGTH('a) div 8" using assms(3) by (intro unat_of_nat_u64) linarith
  have c: "check_size p ?n = p" "\<not> parse_error p"
    using r by (simp_all add: check_size_ready n parse_error_def ready_def)
  have b: "buf_inv (np_buffer p)" and s: "str (np_buffer p) = be_bytes v @ rest" and l: "unat ?n \<le> length (str (np_buffer p))"
    using r n by (auto simp: ready_def)
  have at: "projr (Buffer_at (np_buffer p) (of_nat i)) = (be_bytes v @ rest) ! i" if "i < LENGTH('a) div 8" for i
  proof -
    have "i < 2 ^ 64" using that assms(3) by linarith
    then have i: "unat (of_nat i :: u64) = i" by (rule unat_of_nat_u64)
    then have "(of_nat i :: u64) < ?n" using that n by (simp only: word_less_nat_alt)
    then have "Buffer_at (np_buffer p) (of_nat i) = Inr (str (np_buffer p) ! unat (of_nat i :: u64))"
      using c by (intro parser_never_throws(2)) simp_all
    then show ?thesis by (simp only: sum.sel i s)
  qed
  have f: "fold (\<lambda>i ret. push_bit 8 ret + ucast (projr (Buffer_at (np_buffer p) (of_nat i)))) [0..<LENGTH('a) div 8] 0 = v"
    by (rule trans [OF _ parse_be_bytes [OF assms(2), of v rest]], rule fold_cong) (simp_all add: at)
  show "fst (parse_int p) = v" using c f by (simp add: parse_int_def)
  obtain b' where "Buffer_remove_prefix (np_buffer p) ?n = Inr b'" "buf_inv b'" "str b' = rest"
    using Buffer_remove_prefix_spec(1) [OF b l] by (auto simp: s n)
  then show "ready (snd (parse_int p :: 'a word \<times> NetParser)) rest"
    using c by (simp add: parse_int_def ready_def parse_error_def)
qed

section \<open>The interface of the header parsers\<close>

text \<open>
  A field codec: \<open>put\<close> appends the encoding of a value, \<open>get\<close> takes it off the front, every
  string of the field's width encodes a value, and a short input is an error that sticks.
\<close>

locale net_codec =
  fixes ready :: "'p \<Rightarrow> byte list \<Rightarrow> bool"
    and short :: "'p \<Rightarrow> bool"
    and get :: "'p \<Rightarrow> 'v \<times> 'p"
    and put :: "byte list \<Rightarrow> 'v \<Rightarrow> byte list"
    and width :: nat
  assumes put_append: "put s v = s @ put [] v"
    and put_width: "length (put [] v) = width"
    and put_onto: "length bs = width \<Longrightarrow> \<exists>v. put [] v = bs"
    and get_put: "ready p (put [] v @ rest) \<Longrightarrow> fst (get p) = v \<and> ready (snd (get p)) rest"
    and get_short: "ready p bs \<Longrightarrow> length bs < width \<Longrightarrow> short (snd (get p))"
    and get_stuck: "short p \<Longrightarrow> short (snd (get p))"
begin

text \<open>Enough bytes: the value read is the one the bytes encode, and the parser moves past it.\<close>

lemma get_bytes:
  assumes "ready p bs" and "width \<le> length bs"
  shows "put [] (fst (get p)) = take width bs" and "ready (snd (get p)) (drop width bs)"
proof -
  have "length (take width bs) = width" using assms(2) by simp
  from put_onto [OF this] obtain v where v: "put [] v = take width bs" by blast
  then have "ready p (put [] v @ drop width bs)" using assms(1) by simp
  with get_put [OF this] v show "put [] (fst (get p)) = take width bs" "ready (snd (get p)) (drop width bs)"
    by simp_all
qed

lemma get_put_ex: "ready p (put [] v @ rest) \<Longrightarrow> \<exists>p'. get p = (v, p') \<and> ready p' rest"
  using get_put [of p v rest] by (cases "get p") simp

text \<open>
  Reading field by field: after \<open>n\<close> bytes the parser is in front of the rest, or the input was
  shorter and the parser has the error.
\<close>

definition consumed :: "'p \<Rightarrow> byte list \<Rightarrow> nat \<Rightarrow> bool" where
  "consumed p bs n \<longleftrightarrow> (if n \<le> length bs then ready p (drop n bs) else short p)"

lemma consumed_get:
  assumes "consumed p bs n"
  shows "consumed (snd (get p)) bs (n + width)"
proof (cases "n \<le> length bs")
  case True
  note n = True
  then have r: "ready p (drop n bs)" using assms by (simp add: consumed_def)
  show ?thesis
  proof (cases "n + width \<le> length bs")
    case True
    then show ?thesis using get_bytes(2) [OF r] by (simp add: consumed_def add.commute)
  next
    case False
    then have "length (drop n bs) < width" using n by simp
    from get_short [OF r this] False show ?thesis by (simp add: consumed_def)
  qed
next
  case False
  then show ?thesis using assms get_stuck by (simp add: consumed_def)
qed

end

definition too_short :: "NetParser \<Rightarrow> bool" where
  "too_short p \<longleftrightarrow> np_error p = PacketTooShort"

lemma int_codec:
  assumes "8 dvd LENGTH('a::len)" "LENGTH('a) < 2 ^ 64" "w = LENGTH('a) div 8"
  shows "net_codec ready too_short (parse_int :: _ \<Rightarrow> 'a word \<times> _) unparse_int w"
proof
  show "ready p (unparse_int [] v @ rest) \<Longrightarrow>
      fst (parse_int p) = v \<and> ready (snd (parse_int p :: 'a word \<times> _)) rest" for p rest and v :: "'a word"
    using parse_int_ready [OF _ assms(1,2), of p v rest] by (simp only: unparse_int_eq append_Nil)
  show "\<exists>v :: 'a word. unparse_int [] v = bs" if "length bs = w" for bs
    using be_bytes_surj [OF assms(1)] that by (simp add: unparse_int_eq assms(3))
  show "ready p bs \<Longrightarrow> length bs < w \<Longrightarrow> too_short (snd (parse_int p :: 'a word \<times> _))" for p bs
    unfolding too_short_def assms(3) using assms(2) by (intro parse_int_short)
qed (simp_all add: unparse_int_eq assms(3) parse_int_stuck too_short_def)

interpretation nu32: net_codec ready too_short parse_u32 unparse_u32 4
  unfolding parse_u32_def unparse_u32_def by (rule int_codec) simp_all

interpretation nu16: net_codec ready too_short parse_u16 unparse_u16 2
  unfolding parse_u16_def unparse_u16_def by (rule int_codec) simp_all

interpretation nu8: net_codec ready too_short parse_u8 unparse_u8 1
  unfolding parse_u8_def unparse_u8_def by (rule int_codec) simp_all

lemma unparse_eq [simp]: "unparse_u32 s a = s @ be_bytes a" "unparse_u16 s b = s @ be_bytes b"
    "unparse_u8 s c = s @ [c]"
  by (simp_all add: unparse_u32_def unparse_u16_def unparse_u8_def unparse_int_eq) (simp add: be_bytes_def)

lemma parse_u32E: "ready p (be_bytes (a :: u32) @ rest) \<Longrightarrow> \<exists>p'. parse_u32 p = (a, p') \<and> ready p' rest"
  and parse_u16E: "ready p (be_bytes (b :: u16) @ rest) \<Longrightarrow> \<exists>p'. parse_u16 p = (b, p') \<and> ready p' rest"
  and parse_u8E: "ready p (c # rest) \<Longrightarrow> \<exists>p'. parse_u8 p = (c, p') \<and> ready p' rest"
  using nu32.get_put_ex [of p a rest] nu16.get_put_ex [of p b rest] nu8.get_put_ex [of p c rest]
  by simp_all

section \<open>Properties\<close>

text \<open>
  Integers survive the wire: what \<open>NetUnparser\<close> appends for any 32-, 16- or 8-bit value,
  \<open>NetParser\<close> reads back, leaving the rest of the input.
\<close>

theorem NetParser_roundtrip:
  assumes "fits (unparse_u8 (unparse_u16 (unparse_u32 [] a) b) c @ rest)"
  defines "p0 \<equiv> NetParser_new (Buffer_of (unparse_u8 (unparse_u16 (unparse_u32 [] a) b) c @ rest))"
  shows "fst (parse_u32 p0) = a \<and> fst (parse_u16 (snd (parse_u32 p0))) = b
    \<and> fst (parse_u8 (snd (parse_u16 (snd (parse_u32 p0))))) = c
    \<and> Buffer_copy (np_buffer (snd (parse_u8 (snd (parse_u16 (snd (parse_u32 p0))))))) = rest"
proof -
  have "unparse_u8 (unparse_u16 (unparse_u32 [] a) b) c @ rest
      = unparse_u32 [] a @ unparse_u16 [] b @ unparse_u8 [] c @ rest"
    by simp
  then have p0: "ready p0 (unparse_u32 [] a @ unparse_u16 [] b @ unparse_u8 [] c @ rest)"
    unfolding p0_def using assms(1) ready_new by metis
  note p1 = nu32.get_put [OF p0]
  note p2 = nu16.get_put [OF conjunct2 [OF p1]]
  note p3 = nu8.get_put [OF conjunct2 [OF p2]]
  show ?thesis using p1 p2 p3 by (simp add: ready_def Buffer_copy_def)
qed

theorem NetParser_roundtrip_witness:
  "fst (parse_u32 (NetParser_new (Buffer_of (unparse_u8 (unparse_u16 (unparse_u32 [] 0x01020304) 0x0506) 7 @ [9])))) = 0x01020304"
proof -
  have "fits (unparse_u8 (unparse_u16 (unparse_u32 [] 0x01020304) 0x0506) 7 @ [9])"
    by (simp add: fits_def)
  from NetParser_roundtrip [OF this] show ?thesis by simp
qed

text \<open>
  Reading an integer never goes wrong silently: on input that is long enough the value read
  re-encodes to the bytes consumed and the rest is left, otherwise the parser reports
  \<open>PacketTooShort\<close>, also after any further read.
\<close>

theorem NetParser_total:
  assumes "fits bs"
  defines "p \<equiv> NetParser_new (Buffer_of bs)"
  shows "if length bs < 4
    then np_error (snd (parse_u32 p)) = PacketTooShort
      \<and> np_error (snd (parse_u16 (snd (parse_u32 p)))) = PacketTooShort
      \<and> np_error (snd (parse_u8 (snd (parse_u32 p)))) = PacketTooShort
    else unparse_u32 [] (fst (parse_u32 p)) = take 4 bs
      \<and> Buffer_copy (np_buffer (snd (parse_u32 p))) = drop 4 bs \<and> np_error (snd (parse_u32 p)) = NoError"
proof -
  have r: "ready p bs" using assms by simp
  show ?thesis
  proof (cases "length bs < 4")
    case True
    note s = nu32.get_short [OF r True]
    show ?thesis using s nu16.get_stuck [OF s] nu8.get_stuck [OF s] True by (simp add: too_short_def)
  next
    case False
    then show ?thesis using nu32.get_bytes [OF r] by (simp add: ready_def Buffer_copy_def)
  qed
qed

theorem NetParser_total_witness:
  "np_error (snd (parse_u32 (NetParser_new (Buffer_of [1, 2])))) = PacketTooShort"
  using NetParser_total [of "[1, 2]"] by (simp add: fits_def)

section \<open>Where the code departs from its documentation\<close>

text \<open>\<open>as_string\<close> has no name for the last result and reads past its table.\<close>

lemma as_string_unsupported: "as_string r = None \<longleftrightarrow> r = Unsupported"
  by (cases r) (simp_all add: as_string_def)

end
