(* ===== verification/Checksum.thy ===== *)
theory Checksum
  imports Parsers
begin

text \<open>
  The class \<open>InternetChecksum\<close> of \<^verbatim>\<open>libsponge/util/util.{hh,cc}\<close>: a 32-bit sum of the 16-bit
  big-endian words of the data, folded and complemented at the end. It is related to the one's
  complement sum with end-around carry of RFC 1071, which is what the two protocols specify.
\<close>

section \<open>Model\<close>

record InternetChecksum =
  ck_sum :: u32
  ck_parity :: bool

definition InternetChecksum_new :: "u32 \<Rightarrow> InternetChecksum" where
  "InternetChecksum_new initial_sum = \<lparr>ck_sum = initial_sum, ck_parity = False\<rparr>"

definition ck_add_byte :: "byte \<Rightarrow> InternetChecksum \<Rightarrow> InternetChecksum" where
  "ck_add_byte b c =
     (let val = (ucast b :: u16);
          val = (if \<not> ck_parity c then push_bit 8 val else val)
      in c\<lparr>ck_sum := ck_sum c + ucast val, ck_parity := \<not> ck_parity c\<rparr>)"

definition ck_add :: "InternetChecksum \<Rightarrow> byte list \<Rightarrow> InternetChecksum" where
  "ck_add c data = fold ck_add_byte data c"

lemma unat_fold_step: "unat (drop_bit 16 (r :: u32) + (r AND 0xffff)) = unat r div 65536 + unat r mod 65536"
proof -
  have m: "r AND 0xffff = take_bit 16 r" by (simp add: take_bit_eq_mask mask_eq_exp_minus_1)
  have d: "unat (drop_bit 16 r) = unat r div 65536" "unat (take_bit 16 r) = unat r mod 65536"
    by (simp_all add: drop_bit_eq_div take_bit_eq_mod unat_div_distrib unat_mod_distrib)
  have "unat r < 2 ^ 32" using unsigned_less [of r] by simp
  then have "unat r div 65536 + unat r mod 65536 < 2 ^ 32" by simp
  then show ?thesis unfolding m by (simp add: unat_word_ariths d)
qed

function fold_carry :: "u32 \<Rightarrow> u32" where
  "fold_carry ret = (if 0xffff < ret then fold_carry (drop_bit 16 ret + (ret AND 0xffff)) else ret)"
  by auto
termination
proof (relation "measure unat", goal_cases)
  case (2 ret)
  then have "65536 \<le> unat ret" by (simp add: word_less_nat_alt)
  then have "0 < unat ret div 65536" by simp
  moreover have "unat ret = 65536 * (unat ret div 65536) + unat ret mod 65536" by simp
  ultimately show ?case by (simp only: in_measure unat_fold_step)
qed simp

declare fold_carry.simps [simp del]

definition ck_value :: "InternetChecksum \<Rightarrow> u16" where
  "ck_value c = ucast (NOT (fold_carry (ck_sum c)))"

section \<open>Lemmas\<close>

lemma fold_carry_spec:
  "unat (fold_carry r) \<le> 65535 \<and> unat (fold_carry r) mod 65535 = unat r mod 65535
   \<and> (unat (fold_carry r) = 0 \<longleftrightarrow> unat r = 0)"
proof (induction r rule: fold_carry.induct)
  case (1 r)
  show ?case
  proof (cases "0xffff < r")
    case True
    have "unat r = 65535 * (unat r div 65536) + (unat r div 65536 + unat r mod 65536)" by simp
    then have "(unat r div 65536 + unat r mod 65536) mod 65535 = unat r mod 65535"
      by (metis mod_mult_self4)
    moreover have "unat r div 65536 + unat r mod 65536 = 0 \<longleftrightarrow> unat r = 0"
      by (metis add_is_0 div_mult_mod_eq mult_zero_left div_0 mod_0)
    ultimately show ?thesis using "1.IH" [OF True] True fold_carry.simps [of r] by (simp add: unat_fold_step)
  next
    case False
    then show ?thesis using fold_carry.simps [of r] by (simp add: word_less_nat_alt)
  qed
qed

lemma unat_byte_le: "unat (b :: byte) \<le> 255"
proof -
  have "unat b < 2 ^ LENGTH(8)" by (rule unsigned_less)
  then show ?thesis by simp
qed

lemma unat_u16_le: "unat (w :: u16) \<le> 65535"
proof -
  have "unat w < 2 ^ LENGTH(16)" by (rule unsigned_less)
  then show ?thesis by simp
qed

lemma unat_not_u16: "unat (NOT w :: u16) = 65535 - unat w"
proof -
  have "NOT w = - 1 - w" by (simp add: not_eq_complement)
  then show ?thesis using unat_sub [of w "- 1"] by (simp add: unsigned_minus_1_eq_mask mask_eq_exp_minus_1)
qed

lemma unat_ck_value: "unat (ck_value c) = 65535 - unat (fold_carry (ck_sum c))"
proof -
  have l: "unat (fold_carry (ck_sum c)) \<le> 65535" using fold_carry_spec by blast
  have "fold_carry (ck_sum c) = ucast (ucast (fold_carry (ck_sum c)) :: u16)"
    using l by (simp add: word_unat_eq_iff unsigned_ucast_eq unsigned_take_bit_eq take_bit_nat_eq_self)
  then obtain w :: u16 where w: "fold_carry (ck_sum c) = ucast w" by blast
  have "(ucast (NOT (ucast w :: u32)) :: u16) = NOT w"
    by (rule bit_word_eqI) (simp add: bit_simps)
  then show ?thesis using unat_u16_le [of w] by (simp add: ck_value_def w unat_not_u16 unsigned_ucast_eq take_bit_nat_eq_self)
qed

text \<open>The value is zero exactly when the sum is a positive multiple of \<open>2 ^ 16 - 1\<close>.\<close>

lemma ck_value_zero: "ck_value c = 0 \<longleftrightarrow> 0 < unat (ck_sum c) \<and> 65535 dvd unat (ck_sum c)"
proof -
  have f: "unat (fold_carry (ck_sum c)) \<le> 65535" "unat (fold_carry (ck_sum c)) mod 65535 = unat (ck_sum c) mod 65535"
    "unat (fold_carry (ck_sum c)) = 0 \<longleftrightarrow> unat (ck_sum c) = 0"
    using fold_carry_spec [of "ck_sum c"] by simp_all
  have "ck_value c = 0 \<longleftrightarrow> unat (fold_carry (ck_sum c)) = 65535"
    using f(1) unat_ck_value [of c] by (simp add: word_unat_eq_iff)
  also have "\<dots> \<longleftrightarrow> 0 < unat (fold_carry (ck_sum c)) \<and> 65535 dvd unat (fold_carry (ck_sum c))"
    using f(1) by (auto dest!: dvd_imp_le)
  also have "\<dots> \<longleftrightarrow> 0 < unat (ck_sum c) \<and> 65535 dvd unat (ck_sum c)"
    unfolding dvd_eq_mod_eq_0 f(2) using f(3) by linarith
  finally show ?thesis .
qed

text \<open>The sum of the bytes at their weights, without overflow.\<close>

fun weighted :: "bool \<Rightarrow> byte list \<Rightarrow> nat" where
  "weighted odd_pos [] = 0"
| "weighted odd_pos (b # bs) = (if odd_pos then unat b else 256 * unat b) + weighted (\<not> odd_pos) bs"

lemma weighted_append:
  "weighted p (xs @ ys) = weighted p xs + weighted (p \<noteq> odd (length xs)) ys"
proof (induction xs arbitrary: p)
  case (Cons x xs)
  have "((\<not> p) \<noteq> odd (length xs)) = (p \<noteq> odd (length (x # xs)))" by auto
  then show ?case using Cons.IH [of "\<not> p"] by (simp only: append_Cons weighted.simps add.assoc)
qed simp

lemma weighted_bound: "weighted p bs \<le> 65280 * length bs"
proof (induction bs arbitrary: p)
  case (Cons b bs)
  have "(if p then unat b else 256 * unat b) \<le> 65280" using unat_byte_le [of b] by simp
  then show ?case using Cons.IH [of "\<not> p"] by simp
qed simp

lemma unat_add_byte:
  assumes "unat (ck_sum c) + weighted (ck_parity c) [b] < 2 ^ 32"
  shows "unat (ck_sum (ck_add_byte b c)) = unat (ck_sum c) + weighted (ck_parity c) [b]"
proof -
  have "unat b < 256" using unat_byte_le [of b] by simp
  moreover have "unat (push_bit 8 (ucast b :: u16)) = 256 * unat b"
    using unat_byte_le [of b]
    by (simp add: push_bit_eq_mult unat_word_ariths unsigned_ucast_eq take_bit_nat_eq_self)
  ultimately show ?thesis using assms
    by (auto simp: ck_add_byte_def Let_def unat_word_ariths unsigned_ucast_eq take_bit_nat_eq_self)
qed

lemma ck_add_sum:
  "unat (ck_sum c) + weighted (ck_parity c) data < 2 ^ 32 \<Longrightarrow>
     unat (ck_sum (ck_add c data)) = unat (ck_sum c) + weighted (ck_parity c) data"
proof (induction data arbitrary: c)
  case (Cons b data)
  have b: "unat (ck_sum (ck_add_byte b c)) = unat (ck_sum c) + weighted (ck_parity c) [b]"
    using Cons.prems by (intro unat_add_byte) simp
  have "ck_parity (ck_add_byte b c) = (\<not> ck_parity c)" by (simp add: ck_add_byte_def Let_def)
  then show ?case using Cons.IH [of "ck_add_byte b c"] Cons.prems b by (simp add: ck_add_def)
qed (simp add: ck_add_def)

lemma ck_add_append: "ck_add c (xs @ ys) = ck_add (ck_add c xs) ys"
  by (simp add: ck_add_def)

lemma ck_new [simp]: "ck_sum (InternetChecksum_new s) = s" "\<not> ck_parity (InternetChecksum_new s)"
  by (simp_all add: InternetChecksum_new_def)

lemma ck_zero_iff:
  assumes "unat s + weighted False data < 2 ^ 32"
  shows "ck_value (ck_add (InternetChecksum_new s) data) = 0
    \<longleftrightarrow> 0 < unat s + weighted False data \<and> 65535 dvd unat s + weighted False data"
  using ck_add_sum [of "InternetChecksum_new s" data] assms by (simp add: ck_value_zero)

lemma weighted_be_bytes: "weighted False (be_bytes (w :: u16)) = unat w"
proof -
  have "be_bytes w = [ucast (drop_bit 8 w), ucast w]" by (simp add: be_bytes_def upt_rec)
  moreover have "unat (ucast (drop_bit 8 w) :: byte) = unat w div 256" "unat (ucast w :: byte) = unat w mod 256"
    using unat_u16_le [of w]
    by (simp_all add: unsigned_ucast_eq drop_bit_eq_div unat_div_distrib take_bit_eq_mod unat_mod_distrib)
  ultimately show ?thesis by simp
qed

text \<open>Filling the checksum field makes the whole message check.\<close>

lemma checksum_fills:
  assumes "even (length pre)" and "unat s + weighted False (pre @ post) + 65535 < 2 ^ 32"
  defines "ck \<equiv> ck_value (ck_add (InternetChecksum_new s) (pre @ be_bytes (0 :: u16) @ post))"
  shows "ck_value (ck_add (InternetChecksum_new s) (pre @ be_bytes ck @ post)) = 0"
proof -
  define t where "t = unat s + weighted False (pre @ post)"
  have w: "weighted False (pre @ be_bytes (c :: u16) @ post) = weighted False (pre @ post) + unat c" for c
    using assms(1) by (simp add: weighted_append weighted_be_bytes)
  define f where "f = unat (fold_carry (ck_sum (ck_add (InternetChecksum_new s) (pre @ be_bytes (0 :: u16) @ post))))"
  have "unat (ck_sum (ck_add (InternetChecksum_new s) (pre @ be_bytes (0 :: u16) @ post))) = t"
    using ck_add_sum [of "InternetChecksum_new s" "pre @ be_bytes (0 :: u16) @ post"] assms(2) by (simp add: w t_def)
  then have f: "f \<le> 65535" "f mod 65535 = t mod 65535" "f = 0 \<longleftrightarrow> t = 0"
    using fold_carry_spec [of "ck_sum (ck_add (InternetChecksum_new s) (pre @ be_bytes (0 :: u16) @ post))"]
    by (simp_all add: f_def)
  have ck: "unat ck = 65535 - f" unfolding ck_def unat_ck_value f_def ..
  have "(t + (65535 - f)) mod 65535 = (f + (65535 - f)) mod 65535" using f(2) by (metis mod_add_left_eq)
  then have "65535 dvd t + unat ck" "0 < t + unat ck" using f ck by auto
  then show ?thesis using assms(2) f ck by (simp add: ck_zero_iff w t_def add.assoc)
qed

section \<open>The reference: one's complement addition\<close>

fun words16 :: "byte list \<Rightarrow> u16 list" where
  "words16 [] = []"
| "words16 [a] = [push_bit 8 (ucast a)]"
| "words16 (a # b # bs) = (push_bit 8 (ucast a) + ucast b) # words16 bs"

definition oc_add :: "u16 \<Rightarrow> u16 \<Rightarrow> u16" where
  "oc_add a b = (if a + b < a then a + b + 1 else a + b)"

lemma unat_oc_add:
  "unat (oc_add a b) = (if 65536 \<le> unat a + unat b then unat a + unat b - 65535 else unat a + unat b)"
proof (cases "65536 \<le> unat a + unat b")
  case True
  then have "unat (a + b) = unat a + unat b - 65536"
    using unat_u16_le [of a] unat_u16_le [of b] by (simp add: unat_word_ariths mod_if)
  moreover from this have "a + b < a"
    using True unat_u16_le [of b] by (simp add: word_less_nat_alt)
  moreover have "unat (a + b + 1) = unat (a + b) + 1"
    using \<open>a + b < a\<close> unat_u16_le [of a] by (simp add: unat_word_ariths(1) [of "a + b"] word_less_nat_alt)
  ultimately show ?thesis using True by (simp add: oc_add_def)
next
  case False
  then have "unat (a + b) = unat a + unat b" by (simp add: unat_word_ariths)
  then show ?thesis using False by (simp add: oc_add_def word_less_nat_alt)
qed

lemma unat_word16:
  "unat (push_bit 8 (ucast (a :: byte)) :: u16) = 256 * unat a"
  "unat (push_bit 8 (ucast (a :: byte)) + ucast (b :: byte) :: u16) = 256 * unat a + unat b"
proof -
  show p: "unat (push_bit 8 (ucast a) :: u16) = 256 * unat a"
    using unat_byte_le [of a]
    by (simp add: push_bit_eq_mult unat_word_ariths unsigned_ucast_eq take_bit_nat_eq_self)
  show "unat (push_bit 8 (ucast a) + ucast b :: u16) = 256 * unat a + unat b"
    using unat_byte_le [of a] unat_byte_le [of b]
    by (simp add: unat_word_ariths p unsigned_ucast_eq take_bit_nat_eq_self)
qed

lemma weighted_words16: "weighted False bs = (\<Sum>w \<leftarrow> words16 bs. unat w)"
  by (induction bs rule: words16.induct) (simp_all add: unat_word16)

lemma oc_sum:
  "unat (fold oc_add ws a) mod 65535 = (unat a + (\<Sum>w \<leftarrow> ws. unat w)) mod 65535
   \<and> (unat (fold oc_add ws a) = 0 \<longleftrightarrow> unat a + (\<Sum>w \<leftarrow> ws. unat w) = 0)"
proof (induction ws arbitrary: a)
  case (Cons w ws)
  have "unat (oc_add w a) mod 65535 = (unat a + unat w) mod 65535"
    using le_mod_geq [of 65535 "unat w + unat a"] by (simp add: unat_oc_add add.commute)
  then have "(unat (oc_add w a) + (\<Sum>w \<leftarrow> ws. unat w)) mod 65535
      = (unat a + unat w + (\<Sum>w \<leftarrow> ws. unat w)) mod 65535" by (metis mod_add_left_eq)
  moreover have "unat (oc_add w a) = 0 \<longleftrightarrow> unat a + unat w = 0" by (simp add: unat_oc_add) arith
  ultimately show ?case using Cons.IH [of "oc_add w a"] by (simp add: add.assoc)
qed simp

lemma residue_unique:
  assumes "x \<le> 65535" "y \<le> 65535" "x mod 65535 = y mod (65535 :: nat)" "x = 0 \<longleftrightarrow> y = 0"
  shows "x = y"
  using assms by (cases "x = 65535"; cases "y = 65535") auto

section \<open>Properties\<close>

text \<open>
  C22. Adding up bytes in a 32-bit sum and folding the carries once at the end computes the
  Internet checksum of RFC 1071, the complement of the one's complement sum of the 16-bit words
  of the data (padded with a zero byte), for data of up to 65535 bytes.
\<close>

theorem InternetChecksum_rfc1071:
  assumes "length data \<le> 65535"
  shows "ck_value (ck_add (InternetChecksum_new 0) data) = NOT (fold oc_add (words16 data) 0)"
proof -
  let ?c = "ck_add (InternetChecksum_new 0) data" and ?r = "fold oc_add (words16 data) 0"
  have "weighted False data < 2 ^ 32" using weighted_bound [of False data] assms by simp
  then have c: "unat (ck_sum ?c) = weighted False data"
    using ck_add_sum [of "InternetChecksum_new 0" data] by simp
  have f: "unat (fold_carry (ck_sum ?c)) \<le> 65535"
    "unat (fold_carry (ck_sum ?c)) mod 65535 = weighted False data mod 65535"
    "unat (fold_carry (ck_sum ?c)) = 0 \<longleftrightarrow> weighted False data = 0"
    using fold_carry_spec [of "ck_sum ?c"] unfolding c by blast+
  have r: "unat ?r mod 65535 = weighted False data mod 65535" "unat ?r = 0 \<longleftrightarrow> weighted False data = 0"
    using oc_sum [of "words16 data" 0] unfolding weighted_words16 unsigned_0 add_0 by blast+
  have "unat (fold_carry (ck_sum ?c)) = unat ?r"
    by (rule residue_unique [OF f(1) unat_u16_le]) (simp_all only: f r)
  then have "unat (ck_value ?c) = unat (NOT ?r)" by (simp only: unat_ck_value unat_not_u16)
  then show ?thesis by (simp only: word_unat_eq_iff)
qed

theorem InternetChecksum_rfc1071_witness:
  "ck_value (ck_add (InternetChecksum_new 0) [0xff, 0xff, 0, 1, 7]) = NOT 0x0701"
  using InternetChecksum_rfc1071 [of "[0xff, 0xff, 0, 1, 7]"] by (simp add: oc_add_def push_bit_eq_mult)

text \<open>
  A message whose 16-bit checksum field was computed over the message with that field zero
  passes the check of the receiver, for every position of the field at an even offset, every
  message of IP size and every pseudo-header sum.
\<close>

theorem InternetChecksum_verifies:
  assumes "even (length pre)" and "length pre + length post \<le> 65533" and "unat s \<le> 2 ^ 20"
  shows "ck_value (ck_add (InternetChecksum_new s) (pre
      @ unparse_u16 [] (ck_value (ck_add (InternetChecksum_new s) (pre @ unparse_u16 [] 0 @ post))) @ post)) = 0"
proof -
  have "unat s + weighted False (pre @ post) + 65535 < 2 ^ 32"
    using weighted_bound [of False "pre @ post"] assms(2,3) by simp
  from checksum_fills [OF assms(1) this] show ?thesis
    by (simp only: unparse_eq append_Nil)
qed

theorem InternetChecksum_verifies_witness:
  "ck_value (ck_add (InternetChecksum_new 5) ([1, 2]
      @ unparse_u16 [] (ck_value (ck_add (InternetChecksum_new 5) ([1, 2] @ unparse_u16 [] 0 @ [3]))) @ [3])) = 0"
  by (rule InternetChecksum_verifies) simp_all

end
