(* ===== verification/WrappingInts.thy ===== *)
theory WrappingInts
  imports Prelude
begin

text \<open>
  \<^verbatim>\<open>libsponge/wrapping_integers.{hh,cc}\<close>: 32-bit sequence numbers relative to an initial
  sequence number, and their conversion from and to absolute 64-bit sequence numbers.
\<close>

section \<open>Model\<close>

datatype WrappingInt32 = WrappingInt32 (raw_value: u32)

definition wrap :: "u64 \<Rightarrow> WrappingInt32 \<Rightarrow> WrappingInt32" where
  "wrap n isn = WrappingInt32 (ucast (drop_bit 32 (push_bit 32 n) + ucast (raw_value isn)))"

text \<open>\<open>abs(int64_t(x))\<close>; the argument is never \<open>INT64_MIN\<close> (\<^verbatim>\<open>unwrap_abs_defined\<close>).\<close>

definition abs_i64 :: "u64 \<Rightarrow> int" where
  "abs_i64 x = \<bar>sint x\<bar>"

definition unwrap :: "WrappingInt32 \<Rightarrow> WrappingInt32 \<Rightarrow> u64 \<Rightarrow> u64" where
  "unwrap n isn checkpoint =
     (let backPart = ucast (raw_value n - raw_value isn);
          prePart = checkpoint AND 0xFFFFFFFF00000000;
          ans = prePart + backPart
      in if abs_i64 (ans + push_bit 32 1 - checkpoint) < abs_i64 (ans - checkpoint)
         then ans + push_bit 32 1
         else if push_bit 32 1 \<le> ans
           \<and> abs_i64 (ans - push_bit 32 1 - checkpoint) < abs_i64 (ans - checkpoint)
         then ans - push_bit 32 1
         else ans)"

definition WrappingInt32_diff :: "WrappingInt32 \<Rightarrow> WrappingInt32 \<Rightarrow> int" where
  "WrappingInt32_diff a b = sint (raw_value a - raw_value b)"

definition WrappingInt32_plus :: "WrappingInt32 \<Rightarrow> u32 \<Rightarrow> WrappingInt32" where
  "WrappingInt32_plus a b = WrappingInt32 (raw_value a + b)"

definition WrappingInt32_minus :: "WrappingInt32 \<Rightarrow> u32 \<Rightarrow> WrappingInt32" where
  "WrappingInt32_minus a b = WrappingInt32_plus a (- b)"


section \<open>Lemmas\<close>

lemma shift_out_high: "drop_bit 32 (push_bit 32 (n :: u64)) = take_bit 32 n"
  by (rule bit_word_eqI) (auto simp: bit_simps)

lemma uint_ucast_32: "uint (ucast (x :: u64) :: u32) = uint x mod 2 ^ 32"
  by (simp add: unsigned_ucast_eq take_bit_eq_mod)

lemma uint_ucast_64: "uint (ucast (x :: u32) :: u64) = uint x"
proof -
  have "uint x < 2 ^ 64" using uint_lt2p [of x] by simp
  then show ?thesis by (simp add: unsigned_ucast_eq take_bit_int_eq_self)
qed

lemma raw_value_wrap: "raw_value (wrap n isn) = ucast n + raw_value isn"
proof -
  have "uint (raw_value (wrap n isn)) = uint (ucast n + raw_value isn)"
    by (simp add: wrap_def shift_out_high uint_ucast_32 uint_word_ariths uint_ucast_64 unsigned_take_bit_eq
        take_bit_eq_mod uint_mod_distrib mod_add_left_eq mod_mod_cancel)
  then show ?thesis by (simp add: word_uint_eq_iff)
qed

lemma sint_word_of_int: "- (2 ^ 63) \<le> k \<Longrightarrow> k < 2 ^ 63 \<Longrightarrow> sint (word_of_int k :: u64) = k"
  by (simp add: sint_sbintrunc' signed_take_bit_int_eq_self)

lemma high_half_bits: "(x :: u64) AND push_bit 32 (mask 32) = push_bit 32 (drop_bit 32 x)"
  by (rule bit_word_eqI) (auto simp: bit_simps)

lemma high_half: "uint ((x :: u64) AND 0xFFFFFFFF00000000) = uint x div 2 ^ 32 * 2 ^ 32"
proof -
  have c: "(0xFFFFFFFF00000000 :: u64) = push_bit 32 (mask 32)"
    by (simp add: mask_numeral)
  have "uint x < 2 ^ 64" using uint_lt2p [of x] by simp
  then have "0 \<le> uint x div 2 ^ 32 * 2 ^ 32" "uint x div 2 ^ 32 * 2 ^ 32 < 2 ^ 64"
    by (auto simp: pos_imp_zdiv_nonneg_iff)
  then have "uint x div 2 ^ 32 * 2 ^ 32 mod 2 ^ 64 = uint x div 2 ^ 32 * 2 ^ 32"
    by (rule mod_pos_pos_trivial)
  then show ?thesis
    unfolding c high_half_bits
    by (simp add: push_bit_eq_mult drop_bit_eq_div uint_word_ariths uint_div_distrib)
qed

text \<open>The conversion to absolute sequence numbers, over the integers.\<close>

definition rel_offset :: "WrappingInt32 \<Rightarrow> WrappingInt32 \<Rightarrow> int" where
  "rel_offset n isn = uint (raw_value n - raw_value isn)"

definition block_ans :: "WrappingInt32 \<Rightarrow> WrappingInt32 \<Rightarrow> u64 \<Rightarrow> int" where
  "block_ans n isn c = uint c div 2 ^ 32 * 2 ^ 32 + rel_offset n isn"

lemma rel_offset_bounds: "0 \<le> rel_offset n isn" "rel_offset n isn < 2 ^ 32"
  using uint_lt2p [of "raw_value n - raw_value isn"] by (simp_all add: rel_offset_def)

lemma uint_u64_bounds: "0 \<le> uint (x :: u64)" "uint (x :: u64) < 2 ^ 64"
  using uint_lt2p [of x] by simp_all

lemma block_ans_bounds:
  "0 \<le> block_ans n isn c" "block_ans n isn c < 2 ^ 64"
  "\<bar>block_ans n isn c - uint c\<bar> < 2 ^ 32"
proof -
  define q where "q = uint c div 2 ^ 32"
  have "0 \<le> q" "q < 2 ^ 32" "q * 2 ^ 32 \<le> uint c" "uint c < q * 2 ^ 32 + 2 ^ 32"
    using uint_u64_bounds [of c] by (auto simp: q_def pos_imp_zdiv_nonneg_iff)
  moreover note rel_offset_bounds [of n isn]
  ultimately show "0 \<le> block_ans n isn c" "block_ans n isn c < 2 ^ 64"
    "\<bar>block_ans n isn c - uint c\<bar> < 2 ^ 32"
    unfolding block_ans_def q_def [symmetric] by simp_all
qed

lemma block_word:
  "(c AND 0xFFFFFFFF00000000) + ucast (raw_value n - raw_value isn) = word_of_int (block_ans n isn c)"
proof -
  have "uint ((c AND 0xFFFFFFFF00000000) + ucast (raw_value n - raw_value isn)) = block_ans n isn c mod 2 ^ 64"
    by (simp only: uint_word_ariths high_half uint_ucast_64 block_ans_def rel_offset_def) simp
  then show ?thesis
    by (simp add: word_uint_eq_iff uint_word_of_int_eq take_bit_eq_mod)
qed

lemma wrap_eq_iff: "wrap m isn = n \<longleftrightarrow> uint m mod 2 ^ 32 = rel_offset n isn"
proof -
  have "wrap m isn = n \<longleftrightarrow> ucast m = raw_value n - raw_value isn"
    by (metis WrappingInt32.expand add_diff_cancel_right' diff_add_cancel raw_value_wrap)
  also have "\<dots> \<longleftrightarrow> uint m mod 2 ^ 32 = rel_offset n isn"
    by (simp add: rel_offset_def word_uint_eq_iff uint_ucast_32)
  finally show ?thesis .
qed

definition unwrap_int :: "int \<Rightarrow> int \<Rightarrow> int" where
  "unwrap_int a c =
     (if \<bar>a + 2 ^ 32 - c\<bar> < \<bar>a - c\<bar> then a + 2 ^ 32
      else if 2 ^ 32 \<le> a \<and> \<bar>a - 2 ^ 32 - c\<bar> < \<bar>a - c\<bar> then a - 2 ^ 32
      else a)"

lemma unwrap_word: "unwrap n isn c = word_of_int (unwrap_int (block_ans n isn c) (uint c))"
proof -
  define a where "a = block_ans n isn c"
  have b: "0 \<le> a" "a < 2 ^ 64" "\<bar>a - uint c\<bar> < 2 ^ 32"
    using block_ans_bounds [of n isn c] by (simp_all add: a_def)
  have s: "abs_i64 (word_of_int a + word_of_int k - c) = \<bar>a + k - uint c\<bar>"
    if "- (2 ^ 32) \<le> k" "k \<le> 2 ^ 32" for k
  proof -
    have "word_of_int a + word_of_int k - c = word_of_int (a + k - uint c)" 
      by simp
    moreover have "sint (word_of_int (a + k - uint c) :: u64) = a + k - uint c"
      using that b by (intro sint_word_of_int) auto
    ultimately show ?thesis by (simp only: abs_i64_def)
  qed
  have s0: "abs_i64 (word_of_int a - c) = \<bar>a - uint c\<bar>"
    using s [of 0] by simp
  have s1: "abs_i64 (word_of_int a + 2 ^ 32 - c) = \<bar>a + 2 ^ 32 - uint c\<bar>"
    using s [of "2 ^ 32"] by simp
  have s2: "abs_i64 (word_of_int a - 2 ^ 32 - c) = \<bar>a - 2 ^ 32 - uint c\<bar>"
    using s [of "- (2 ^ 32)"] by simp
  have le: "(2 ^ 32 \<le> (word_of_int a :: u64)) \<longleftrightarrow> 2 ^ 32 \<le> a"
    using b by (simp add: word_le_def uint_word_of_int_eq take_bit_int_eq_self)
  have p: "push_bit 32 1 = (2 ^ 32 :: u64)"
    by simp
  show ?thesis
    unfolding unwrap_def Let_def block_word a_def [symmetric] p s0 s1 s2 le unwrap_int_def
    by (simp only: if_distrib [of word_of_int] of_int_add of_int_diff of_int_power of_int_numeral)
qed

text \<open>Nearest candidate with a given residue, over the integers.\<close>

lemma unwrap_int_nearest:
  assumes "0 \<le> a" "0 \<le> m" "m mod 2 ^ 32 = a mod 2 ^ 32" "\<bar>a - c\<bar> < 2 ^ 32"
  shows "\<bar>unwrap_int a c - c\<bar> \<le> \<bar>m - c\<bar>"
proof -
  obtain k where k: "m = a + 2 ^ 32 * k"
    using assms(3) by (metis mod_eqE)
  consider "k = 0" | "1 \<le> k" | "k \<le> -1" by linarith
  then show ?thesis
  proof cases
    case 1
    then show ?thesis using k assms(4) by (auto simp: unwrap_int_def)
  next
    case 2
    then show ?thesis using k assms(4) by (auto simp: unwrap_int_def)
  next
    case 3
    then have "2 ^ 32 \<le> a" using k assms(2) by simp
    then show ?thesis using k 3 assms(4) by (auto simp: unwrap_int_def)
  qed
qed

lemma unwrap_int_mod: "unwrap_int a c mod 2 ^ 32 = a mod 2 ^ 32"
  by (simp add: unwrap_int_def)

lemma unwrap_int_bounds:
  assumes "0 \<le> a" "0 \<le> c" "\<bar>a - c\<bar> < 2 ^ 32"
  shows "0 \<le> unwrap_int a c" "\<bar>unwrap_int a c - c\<bar> \<le> 2 ^ 31 \<or> (unwrap_int a c = a \<and> a < 2 ^ 32)"
  using assms by (auto simp: unwrap_int_def)

lemma uint_unwrap:
  assumes "uint c < 2 ^ 64 - 2 ^ 32"
  shows "uint (unwrap n isn c) = unwrap_int (block_ans n isn c) (uint c)"
proof -
  note b = block_ans_bounds [of n isn c]
  have "0 \<le> unwrap_int (block_ans n isn c) (uint c)"
    using unwrap_int_bounds(1) [OF b(1) _ b(3)] uint_u64_bounds by blast
  moreover have "unwrap_int (block_ans n isn c) (uint c) < 2 ^ 64"
    using b assms by (auto simp: unwrap_int_def)
  ultimately show ?thesis
    by (simp add: unwrap_word uint_word_of_int_eq take_bit_int_eq_self)
qed

lemma block_ans_mod: "block_ans n isn c mod 2 ^ 32 = rel_offset n isn"
  using rel_offset_bounds [of n isn] by (simp add: block_ans_def)

lemma wrap_unwrap: "wrap (unwrap n isn c) isn = n"
proof -
  have "uint (unwrap n isn c) mod 2 ^ 32 = unwrap_int (block_ans n isn c) (uint c) mod 2 ^ 64 mod 2 ^ 32"
    by (simp add: unwrap_word uint_word_of_int_eq take_bit_eq_mod)
  also have "\<dots> = unwrap_int (block_ans n isn c) (uint c) mod 2 ^ 32"
    by (rule mod_mod_cancel) simp
  also have "\<dots> = rel_offset n isn"
    by (simp only: unwrap_int_mod block_ans_mod)
  finally show ?thesis by (simp only: wrap_eq_iff)
qed

lemma unwrap_closest:
  assumes "uint c < 2 ^ 64 - 2 ^ 32" and "wrap m isn = n"
  shows "\<bar>uint (unwrap n isn c) - uint c\<bar> \<le> \<bar>uint m - uint c\<bar>"
proof -
  note b = block_ans_bounds [of n isn c]
  have "uint m mod 2 ^ 32 = block_ans n isn c mod 2 ^ 32"
    using assms(2) by (simp only: wrap_eq_iff block_ans_mod)
  then show ?thesis
    unfolding uint_unwrap [OF assms(1)]
    using unwrap_int_nearest [OF b(1) _ _ b(3)] uint_u64_bounds(1) by blast
qed

lemma unwrap_wrap:
  assumes "uint c < 2 ^ 64 - 2 ^ 32" and "\<bar>uint m - uint c\<bar> < 2 ^ 31"
  shows "unwrap (wrap m isn) isn c = m"
proof -
  let ?u = "unwrap (wrap m isn) isn c"
  have "\<bar>uint ?u - uint c\<bar> \<le> \<bar>uint m - uint c\<bar>"
    using unwrap_closest [OF assms(1) refl] .
  then have "\<bar>uint ?u - uint m\<bar> < 2 ^ 32" using assms(2) by simp
  moreover have "uint ?u mod 2 ^ 32 = uint m mod 2 ^ 32"
    using wrap_eq_iff [of ?u isn "wrap m isn"] wrap_eq_iff [of m isn "wrap m isn"] wrap_unwrap
    by simp
  then have "2 ^ 32 dvd (uint ?u - uint m)"
    by (simp add: mod_eq_dvd_iff)
  ultimately have "uint ?u - uint m = 0"
    using dvd_imp_le_int [of "uint ?u - uint m" "2 ^ 32"] by fastforce
  then show ?thesis by (simp add: word_uint_eq_iff)
qed

text \<open>
  The arguments of \<open>abs\<close> in \<open>unwrap\<close> stay far from \<open>INT64_MIN\<close>, where \<open>abs\<close> is undefined.
\<close>

lemma unwrap_abs_defined:
  fixes c :: u64
  assumes "k \<in> {0, 2 ^ 32, - (2 ^ 32)}"
  shows "\<bar>sint ((c AND 0xFFFFFFFF00000000) + ucast (raw_value n - raw_value isn) + word_of_int k - c)\<bar> < 2 ^ 33"
proof -
  define a where "a = block_ans n isn c"
  have b: "0 \<le> a" "a < 2 ^ 64" "\<bar>a - uint c\<bar> < 2 ^ 32"
    using block_ans_bounds [of n isn c] by (simp_all add: a_def)
  have "word_of_int a + word_of_int k - c = word_of_int (a + k - uint c)" by simp
  moreover have "sint (word_of_int (a + k - uint c) :: u64) = a + k - uint c"
    using assms b by (intro sint_word_of_int) auto
  ultimately show ?thesis
    unfolding block_word a_def [symmetric] using assms b by auto
qed

text \<open>Stepping a sequence number steps the absolute number it stands for.\<close>

lemma ucast_add_32: "(ucast (a + b :: u64) :: u32) = ucast a + ucast b"
  by (simp add: word_uint_eq_iff uint_ucast_32 uint_word_ariths mod_add_eq mod_mod_cancel)

lemma wrap_plus: "WrappingInt32_plus (wrap n isn) (ucast (m :: u64)) = wrap (n + m) isn"
  by (rule WrappingInt32.expand) (simp add: WrappingInt32_plus_def raw_value_wrap ucast_add_32)

lemma wrap_0 [simp]: "wrap 0 isn = isn"
  by (rule WrappingInt32.expand) (simp add: raw_value_wrap)

lemma wrap_plus_1: "WrappingInt32_plus (wrap n isn) 1 = wrap (n + 1) isn" "WrappingInt32_plus isn 1 = wrap 1 isn"
  using wrap_plus [of n isn 1] wrap_plus [of 0 isn 1] by simp_all

section \<open>The contract of sequence numbers\<close>

text \<open>
  What the receiver relies on: encoding is a left inverse of decoding, and decoding recovers
  an absolute number that is near the checkpoint.
\<close>

locale seqno_space =
  fixes enc :: "u64 \<Rightarrow> 's \<Rightarrow> 's"
    and dec :: "'s \<Rightarrow> 's \<Rightarrow> u64 \<Rightarrow> u64"
  assumes enc_dec: "enc (dec n isn c) isn = n"
    and dec_enc: "uint c < 2 ^ 64 - 2 ^ 32 \<Longrightarrow> \<bar>uint m - uint c\<bar> < 2 ^ 31 \<Longrightarrow> dec (enc m isn) isn c = m"
begin

lemma enc_inj_near:
  fixes m m' c :: u64
  assumes "enc m isn = enc m' isn" and "uint c < 2 ^ 64 - 2 ^ 32"
    and "\<bar>uint m - uint c\<bar> < 2 ^ 31" and "\<bar>uint m' - uint c\<bar> < 2 ^ 31"
  shows "m = m'"
proof -
  have "m = dec (enc m' isn) isn c"
    using dec_enc [OF assms(2,3), of isn] unfolding assms(1) by (rule sym)
  also have "\<dots> = m'" using assms(2,4) by (rule dec_enc)
  finally show ?thesis .
qed

lemma dec_determined:
  "enc m isn = n \<Longrightarrow> uint c < 2 ^ 64 - 2 ^ 32 \<Longrightarrow> \<bar>uint m - uint c\<bar> < 2 ^ 31 \<Longrightarrow> dec n isn c = m"
  by (drule sym) (simp only: dec_enc)

end

interpretation seq32: seqno_space wrap unwrap
  by unfold_locales (rule wrap_unwrap, erule (1) unwrap_wrap)

section \<open>Properties\<close>

text \<open>
  C3. \<open>unwrap\<close> returns the absolute sequence number closest to the checkpoint: it wraps to the
  given relative number, and no other number that does is nearer. The checkpoint is not within
  the last \<open>2 ^ 32\<close> values of the 64-bit range, where \<open>ans + (1ul << 32)\<close> overflows.
\<close>

theorem unwrap_is_nearest:
  assumes "checkpoint < 0xFFFFFFFF00000000"
  shows "wrap (unwrap n isn checkpoint) isn = n \<and>
    (\<forall>m. wrap m isn = n \<longrightarrow>
       \<bar>uint (unwrap n isn checkpoint) - uint checkpoint\<bar> \<le> \<bar>uint m - uint checkpoint\<bar>)"
  using assms by (simp add: wrap_unwrap unwrap_closest word_less_def)

theorem unwrap_is_nearest_witness:
  "unwrap (WrappingInt32 3) (WrappingInt32 5) 0x100000000 = 0xFFFFFFFE
   \<and> \<bar>uint (unwrap (WrappingInt32 3) (WrappingInt32 5) 0x100000000) - uint (0x100000000 :: u64)\<bar>
     \<le> \<bar>uint (0x1FFFFFFFE :: u64) - uint (0x100000000 :: u64)\<bar>"
proof -
  have h: "(0x100000000 :: u64) < 0xFFFFFFFF00000000" by simp
  have w: "wrap 0x1FFFFFFFE (WrappingInt32 5) = WrappingInt32 3"
    by (simp add: wrap_def)
  have "unwrap (WrappingInt32 3) (WrappingInt32 5) 0x100000000 = 0xFFFFFFFE"
    by (simp add: unwrap_def abs_i64_def Let_def)
  then show ?thesis
    using unwrap_is_nearest [OF h, of "WrappingInt32 3" "WrappingInt32 5"] w by blast
qed

text \<open>
  C16. Absolute sequence numbers survive the trip through 32 bits: wrapping and unwrapping with
  any checkpoint less than \<open>2 ^ 31\<close> away returns the original number.
\<close>

theorem unwrap_wrap_roundtrip:
  assumes "checkpoint < 0xFFFFFFFF00000000"
    and "\<bar>uint m - uint checkpoint\<bar> < 2 ^ 31"
  shows "unwrap (wrap m isn) isn checkpoint = m"
  using assms by (intro seq32.dec_enc) (simp_all add: word_less_def)

theorem unwrap_wrap_roundtrip_witness:
  "unwrap (wrap 0x180000000 (WrappingInt32 0xFFFFFFFF)) (WrappingInt32 0xFFFFFFFF) 0x100000001
     = 0x180000000"
  by (rule unwrap_wrap_roundtrip) simp_all

end
