(* ===== verification/TCP_Segments.thy ===== *)
theory TCP_Segments
  imports Checksum WrappingInts
begin

text \<open>
  \<^verbatim>\<open>libsponge/tcp_helpers/tcp_header.{hh,cc}\<close> and \<^verbatim>\<open>tcp_segment.{hh,cc}\<close>: the header fields, their
  wire format, and the segment with its checksum.
\<close>

section \<open>Model\<close>

record TCPHeader =
  sport :: u16
  dport :: u16
  seqno :: WrappingInt32
  ackno :: WrappingInt32
  doff :: u8
  urg :: bool
  ack :: bool
  psh :: bool
  rst :: bool
  syn :: bool
  fin :: bool
  win :: u16
  cksum :: u16
  uptr :: u16

definition TCPHeader_LENGTH :: u64 where
  "TCPHeader_LENGTH = 20"

definition TCPHeader_new :: TCPHeader where
  "TCPHeader_new = \<lparr>sport = 0, dport = 0, seqno = WrappingInt32 0, ackno = WrappingInt32 0,
     doff = ucast (TCPHeader_LENGTH div 4), urg = False, ack = False, psh = False, rst = False,
     syn = False, fin = False, win = 0, cksum = 0, uptr = 0\<rparr>"

text \<open>
  \<open>parse\<close> assigns every field, so the header it is called on does not matter. The first part
  reads the fixed fields; the result is the header, the parser and the returned code.
\<close>

definition TCPHeader_parse_fields :: "NetParser \<Rightarrow> TCPHeader \<times> NetParser" where
  "TCPHeader_parse_fields p =
     (let (sp, p) = parse_u16 p;
          (dp, p) = parse_u16 p;
          (sq, p) = parse_u32 p;
          (ak, p) = parse_u32 p;
          (off, p) = parse_u8 p;
          (fl_b, p) = parse_u8 p;
          (wi, p) = parse_u16 p;
          (ck, p) = parse_u16 p;
          (up, p) = parse_u16 p
      in (\<lparr>sport = sp, dport = dp, seqno = WrappingInt32 sq, ackno = WrappingInt32 ak,
            doff = drop_bit 4 off,
            urg = (fl_b AND 0b00100000 \<noteq> 0), ack = (fl_b AND 0b00010000 \<noteq> 0),
            psh = (fl_b AND 0b00001000 \<noteq> 0), rst = (fl_b AND 0b00000100 \<noteq> 0),
            syn = (fl_b AND 0b00000010 \<noteq> 0), fin = (fl_b AND 0b00000001 \<noteq> 0),
            win = wi, cksum = ck, uptr = up\<rparr>, p))"

definition TCPHeader_parse :: "NetParser \<Rightarrow> TCPHeader \<times> NetParser \<times> ParseResult" where
  "TCPHeader_parse p =
     (let (h, p) = TCPHeader_parse_fields p
      in if doff h < 5 then (h, p, HeaderTooShort)
         else
           let p = np_remove_prefix p (ucast (doff h) * 4 - TCPHeader_LENGTH)
           in if parse_error p then (h, p, np_error p) else (h, p, NoError))"

text \<open>\<open>std::string::resize\<close>.\<close>

definition resize :: "byte list \<Rightarrow> nat \<Rightarrow> byte list" where
  "resize s n = take n s @ replicate (n - length s) 0"

definition flags_byte :: "TCPHeader \<Rightarrow> u8" where
  "flags_byte h =
     (if urg h then 0b00100000 else 0) OR (if ack h then 0b00010000 else 0)
     OR (if psh h then 0b00001000 else 0) OR (if rst h then 0b00000100 else 0)
     OR (if syn h then 0b00000010 else 0) OR (if fin h then 0b00000001 else 0)"

definition TCPHeader_serialize :: "TCPHeader \<Rightarrow> exn + byte list" where
  "TCPHeader_serialize h =
     (if doff h < 5 then Inl (runtime_error ''TCP header too short'')
      else
        let ret = [];
            ret = unparse_u16 ret (sport h);
            ret = unparse_u16 ret (dport h);
            ret = unparse_u32 ret (raw_value (seqno h));
            ret = unparse_u32 ret (raw_value (ackno h));
            ret = unparse_u8 ret (push_bit 4 (doff h));
            ret = unparse_u8 ret (flags_byte h);
            ret = unparse_u16 ret (win h);
            ret = unparse_u16 ret (cksum h);
            ret = unparse_u16 ret (uptr h)
        in Inr (resize ret (4 * unat (doff h))))"

definition TCPHeader_eq :: "TCPHeader \<Rightarrow> TCPHeader \<Rightarrow> bool" where
  "TCPHeader_eq a b \<longleftrightarrow> seqno a = seqno b \<and> ackno a = ackno b \<and> doff a = doff b \<and> urg a = urg b \<and> ack a = ack b
     \<and> psh a = psh b \<and> rst a = rst b \<and> syn a = syn b \<and> fin a = fin b \<and> win a = win b \<and> uptr a = uptr b"

record TCPSegment =
  header :: TCPHeader
  payload :: Buffer

definition TCPSegment_new :: TCPSegment where
  "TCPSegment_new = \<lparr>header = TCPHeader_new, payload = Buffer_empty\<rparr>"

definition TCPSegment_parse :: "TCPSegment \<Rightarrow> Buffer \<Rightarrow> u32 \<Rightarrow> TCPSegment \<times> ParseResult" where
  "TCPSegment_parse seg buffer datagram_layer_checksum =
     (let check = ck_add (InternetChecksum_new datagram_layer_checksum) (str buffer)
      in if ck_value check \<noteq> 0 then (seg, BadChecksum)
         else
           let (h, p, _) = TCPHeader_parse (NetParser_new buffer)
           in (seg\<lparr>header := h, payload := np_buffer p\<rparr>, np_error p))"

definition length_in_sequence_space :: "TCPSegment \<Rightarrow> u64" where
  "length_in_sequence_space seg =
     sz (str (payload seg)) + (if syn (header seg) then 1 else 0) + (if fin (header seg) then 1 else 0)"

definition TCPSegment_serialize :: "TCPSegment \<Rightarrow> u32 \<Rightarrow> exn + BufferList" where
  "TCPSegment_serialize seg datagram_layer_checksum =
     (let header_out = (header seg)\<lparr>cksum := 0\<rparr>
      in case TCPHeader_serialize header_out of
           Inl e \<Rightarrow> Inl e
         | Inr bytes \<Rightarrow>
             let check = ck_add (InternetChecksum_new datagram_layer_checksum) bytes;
                 check = ck_add check (str (payload seg));
                 header_out = header_out\<lparr>cksum := ck_value check\<rparr>
             in case TCPHeader_serialize header_out of
                  Inl e \<Rightarrow> Inl e
                | Inr bytes \<Rightarrow> Inr (BufferList_append (BufferList_append [] [Buffer_of bytes]) [payload seg]))"

section \<open>The wire format\<close>

definition fixed_bytes :: "TCPHeader \<Rightarrow> byte list" where
  "fixed_bytes h = be_bytes (sport h) @ be_bytes (dport h) @ be_bytes (raw_value (seqno h))
     @ be_bytes (raw_value (ackno h)) @ push_bit 4 (doff h) # flags_byte h # be_bytes (win h)
     @ be_bytes (cksum h) @ be_bytes (uptr h)"

lemma length_fixed_bytes [simp]: "length (fixed_bytes h) = 20"
  by (simp add: fixed_bytes_def)

lemma serialize_bytes:
  assumes "5 \<le> doff h"
  shows "TCPHeader_serialize h = Inr (fixed_bytes h @ replicate (4 * unat (doff h) - 20) 0)"
proof -
  have "20 \<le> 4 * unat (doff h)" using assms by (simp add: word_le_nat_alt)
  moreover have "\<not> doff h < 5" using assms by simp
  ultimately show ?thesis
    using length_fixed_bytes [of h] by (simp add: TCPHeader_serialize_def resize_def fixed_bytes_def Let_def)
qed

lemma flags_of_byte:
  "(flags_byte h AND 0b00100000 \<noteq> 0) = urg h" "(flags_byte h AND 0b00010000 \<noteq> 0) = ack h"
  "(flags_byte h AND 0b00001000 \<noteq> 0) = psh h" "(flags_byte h AND 0b00000100 \<noteq> 0) = rst h"
  "(flags_byte h AND 0b00000010 \<noteq> 0) = syn h" "(flags_byte h AND 0b00000001 \<noteq> 0) = fin h"
  by (cases "urg h"; cases "ack h"; cases "psh h"; cases "rst h"; cases "syn h"; cases "fin h";
      simp add: flags_byte_def)+

lemma doff_shift: "d \<le> 15 \<Longrightarrow> drop_bit 4 (push_bit 4 (d :: u8)) = d"
  by (simp add: drop_bit_eq_div push_bit_eq_mult word_unat_eq_iff unat_div_distrib unat_word_ariths
      word_le_nat_alt)

lemma fields_roundtrip:
  assumes "ready p (fixed_bytes h @ rest)" and "doff h \<le> 15"
  shows "\<exists>p'. TCPHeader_parse_fields p = (h, p') \<and> ready p' rest"
proof -
  from assms(1) obtain p1 where 1: "parse_u16 p = (sport h, p1)" "ready p1 (drop 2 (fixed_bytes h) @ rest)"
    using parse_u16E [of p "sport h" "drop 2 (fixed_bytes h) @ rest"] by (auto simp: fixed_bytes_def)
  then obtain p2 where 2: "parse_u16 p1 = (dport h, p2)" "ready p2 (drop 4 (fixed_bytes h) @ rest)"
    using parse_u16E [of p1 "dport h" "drop 4 (fixed_bytes h) @ rest"] by (auto simp: fixed_bytes_def)
  then obtain p3 where 3: "parse_u32 p2 = (raw_value (seqno h), p3)" "ready p3 (drop 8 (fixed_bytes h) @ rest)"
    using parse_u32E [of p2 "raw_value (seqno h)" "drop 8 (fixed_bytes h) @ rest"] by (auto simp: fixed_bytes_def)
  then obtain p4 where 4: "parse_u32 p3 = (raw_value (ackno h), p4)" "ready p4 (drop 12 (fixed_bytes h) @ rest)"
    using parse_u32E [of p3 "raw_value (ackno h)" "drop 12 (fixed_bytes h) @ rest"] by (auto simp: fixed_bytes_def)
  then obtain p5 where 5: "parse_u8 p4 = (push_bit 4 (doff h), p5)" "ready p5 (drop 13 (fixed_bytes h) @ rest)"
    using parse_u8E [of p4 "push_bit 4 (doff h)" "drop 13 (fixed_bytes h) @ rest"] by (auto simp: fixed_bytes_def)
  then obtain p6 where 6: "parse_u8 p5 = (flags_byte h, p6)" "ready p6 (drop 14 (fixed_bytes h) @ rest)"
    using parse_u8E [of p5 "flags_byte h" "drop 14 (fixed_bytes h) @ rest"] by (auto simp: fixed_bytes_def)
  then obtain p7 where 7: "parse_u16 p6 = (win h, p7)" "ready p7 (drop 16 (fixed_bytes h) @ rest)"
    using parse_u16E [of p6 "win h" "drop 16 (fixed_bytes h) @ rest"] by (auto simp: fixed_bytes_def)
  then obtain p8 where 8: "parse_u16 p7 = (cksum h, p8)" "ready p8 (drop 18 (fixed_bytes h) @ rest)"
    using parse_u16E [of p7 "cksum h" "drop 18 (fixed_bytes h) @ rest"] by (auto simp: fixed_bytes_def)
  then obtain p9 where 9: "parse_u16 p8 = (uptr h, p9)" "ready p9 rest"
    using parse_u16E [of p8 "uptr h" rest] by (auto simp: fixed_bytes_def)
  show ?thesis
    using 1 2 3 4 5 6 7 8 9 doff_shift [OF assms(2)]
    by (simp add: TCPHeader_parse_fields_def flags_of_byte)
qed

lemma unat_skip: "5 \<le> (d :: u8) \<Longrightarrow> unat (ucast d * 4 - TCPHeader_LENGTH) = 4 * unat d - 20"
proof -
  assume d: "5 \<le> d"
  have m: "unat (ucast d * 4 :: u64) = 4 * unat d"
    using unat_byte_le [of d] by (simp add: unat_word_ariths unsigned_ucast_eq take_bit_nat_eq_self)
  then have "TCPHeader_LENGTH \<le> ucast d * 4"
    using d by (simp add: word_le_nat_alt TCPHeader_LENGTH_def)
  then show ?thesis by (simp add: unat_sub m TCPHeader_LENGTH_def)
qed

lemma header_roundtrip:
  assumes "5 \<le> doff h" "doff h \<le> 15" and "ready p (fixed_bytes h @ replicate (4 * unat (doff h) - 20) 0 @ rest)"
  shows "\<exists>p'. TCPHeader_parse p = (h, p', NoError) \<and> ready p' rest"
proof -
  obtain p1 where 1: "TCPHeader_parse_fields p = (h, p1)" "ready p1 (replicate (4 * unat (doff h) - 20) 0 @ rest)"
    using fields_roundtrip [OF assms(3,2)] by blast
  define n where "n = ucast (doff h) * 4 - TCPHeader_LENGTH"
  have n: "unat n = 4 * unat (doff h) - 20" using unat_skip [OF assms(1)] by (simp add: n_def)
  have r: "ready (np_remove_prefix p1 n) rest"
    using remove_prefix_ready(1) [OF 1(2), of n] by (simp add: n)
  then have "\<not> parse_error (np_remove_prefix p1 n)" by (simp add: ready_def parse_error_def)
  then show ?thesis using 1(1) r assms(1) by (simp add: TCPHeader_parse_def flip: n_def)
qed

text \<open>What the fixed part of the parser does on arbitrary input.\<close>

lemma fields_consumed:
  assumes "ready p bs"
  shows "if 20 \<le> length bs then ready (snd (TCPHeader_parse_fields p)) (drop 20 bs)
    else too_short (snd (TCPHeader_parse_fields p))"
    and "20 \<le> length bs \<Longrightarrow> doff (fst (TCPHeader_parse_fields p)) = drop_bit 4 (bs ! 12)"
proof -
  have 0: "nu16.consumed p bs 0" using assms by (simp add: nu16.consumed_def)
  define p4 where "p4 = snd (parse_u32 (snd (parse_u32 (snd (parse_u16 (snd (parse_u16 p)))))))"
  have 4: "nu16.consumed p4 bs 12"
    using nu32.consumed_get [OF nu32.consumed_get [OF nu16.consumed_get [OF nu16.consumed_get [OF 0]]]]
    by (simp add: p4_def)
  have 9: "nu16.consumed (snd (parse_u16 (snd (parse_u16 (snd (parse_u16 (snd (parse_u8 (snd (parse_u8 p4)))))))))) bs 20"
    using nu16.consumed_get [OF nu16.consumed_get [OF nu16.consumed_get
          [OF nu8.consumed_get [OF nu8.consumed_get [OF 4]]]]] by simp
  have s: "snd (TCPHeader_parse_fields p) = snd (parse_u16 (snd (parse_u16 (snd (parse_u16 (snd (parse_u8 (snd (parse_u8 p4)))))))))"
    "doff (fst (TCPHeader_parse_fields p)) = drop_bit 4 (fst (parse_u8 p4))"
    by (simp_all add: TCPHeader_parse_fields_def p4_def split_def Let_def)
  show "if 20 \<le> length bs then ready (snd (TCPHeader_parse_fields p)) (drop 20 bs)
      else too_short (snd (TCPHeader_parse_fields p))"
    using 9 by (simp add: s nu16.consumed_def)
  assume l: "20 \<le> length bs"
  then have "ready p4 (drop 12 bs)" using 4 by (simp add: nu16.consumed_def)
  moreover have "take 1 (drop 12 bs) = [bs ! 12]" using l by (simp add: take_Suc_conv_app_nth)
  ultimately have "fst (parse_u8 p4) = bs ! 12" using nu8.get_bytes(1) [of p4 "drop 12 bs"] l by simp
  then show "doff (fst (TCPHeader_parse_fields p)) = drop_bit 4 (bs ! 12)" by (simp add: s)
qed

text \<open>The layout of RFC 793: which bytes of a header hold which field.\<close>

definition header_of :: "byte list \<Rightarrow> TCPHeader \<Rightarrow> bool" where
  "header_of bs h \<longleftrightarrow>
     be_bytes (sport h) = take 2 bs \<and> be_bytes (dport h) = take 2 (drop 2 bs)
   \<and> be_bytes (raw_value (seqno h)) = take 4 (drop 4 bs) \<and> be_bytes (raw_value (ackno h)) = take 4 (drop 8 bs)
   \<and> doff h = drop_bit 4 (bs ! 12)
   \<and> urg h = bit (bs ! 13) 5 \<and> ack h = bit (bs ! 13) 4 \<and> psh h = bit (bs ! 13) 3
   \<and> rst h = bit (bs ! 13) 2 \<and> syn h = bit (bs ! 13) 1 \<and> fin h = bit (bs ! 13) 0
   \<and> be_bytes (win h) = take 2 (drop 14 bs) \<and> be_bytes (cksum h) = take 2 (drop 16 bs) \<and> be_bytes (uptr h) = take 2 (drop 18 bs)"

lemma flag_bits:
  "(b AND 0b00100000 \<noteq> 0) = bit (b :: u8) 5" "(b AND 0b00010000 \<noteq> 0) = bit b 4" "(b AND 0b00001000 \<noteq> 0) = bit b 3"
  "(b AND 0b00000100 \<noteq> 0) = bit b 2" "(b AND 0b00000010 \<noteq> 0) = bit b 1" "(b AND 0b00000001 \<noteq> 0) = bit b 0"
  unfolding bit_iff_and_push_bit_not_eq_0 by (simp_all add: push_bit_eq_mult)

lemma fields_layout:
  assumes r: "ready p bs" and l: "20 \<le> length bs"
  shows "header_of bs (fst (TCPHeader_parse_fields p))"
proof -
  define p1 p2 p3 p4 where "p1 = snd (parse_u16 p)" and "p2 = snd (parse_u16 p1)" and "p3 = snd (parse_u32 p2)" and "p4 = snd (parse_u32 p3)"
  define p5 p6 p7 p8 where "p5 = snd (parse_u8 p4)" and "p6 = snd (parse_u8 p5)" and "p7 = snd (parse_u16 p6)" and "p8 = snd (parse_u16 p7)"
  note ps = p1_def p2_def p3_def p4_def p5_def p6_def p7_def p8_def
  have 1: "be_bytes (fst (parse_u16 p)) = take 2 bs" "ready p1 (drop 2 bs)"
    using nu16.get_bytes [OF r] l by (simp_all add: ps(1))
  have 2: "be_bytes (fst (parse_u16 p1)) = take 2 (drop 2 bs)" "ready p2 (drop 4 bs)"
    using nu16.get_bytes [OF 1(2)] l by (simp_all add: ps(2))
  have 3: "be_bytes (fst (parse_u32 p2)) = take 4 (drop 4 bs)" "ready p3 (drop 8 bs)"
    using nu32.get_bytes [OF 2(2)] l by (simp_all add: ps(3))
  have 4: "be_bytes (fst (parse_u32 p3)) = take 4 (drop 8 bs)" "ready p4 (drop 12 bs)"
    using nu32.get_bytes [OF 3(2)] l by (simp_all add: ps(4))
  have 5: "fst (parse_u8 p4) = bs ! 12" "ready p5 (drop 13 bs)"
    using nu8.get_bytes [OF 4(2)] l by (simp_all add: ps(5) take_Suc_conv_app_nth)
  have 6: "fst (parse_u8 p5) = bs ! 13" "ready p6 (drop 14 bs)"
    using nu8.get_bytes [OF 5(2)] l by (simp_all add: ps(6) take_Suc_conv_app_nth)
  have 7: "be_bytes (fst (parse_u16 p6)) = take 2 (drop 14 bs)" "ready p7 (drop 16 bs)"
    using nu16.get_bytes [OF 6(2)] l by (simp_all add: ps(7))
  have 8: "be_bytes (fst (parse_u16 p7)) = take 2 (drop 16 bs)" "ready p8 (drop 18 bs)"
    using nu16.get_bytes [OF 7(2)] l by (simp_all add: ps(8))
  have 9: "be_bytes (fst (parse_u16 p8)) = take 2 (drop 18 bs)" using nu16.get_bytes(1) [OF 8(2)] l by simp
  show ?thesis
    using 1(1) 2(1) 3(1) 4(1) 5(1) 6(1) 7(1) 8(1) 9
    by (simp add: header_of_def TCPHeader_parse_fields_def split_def Let_def flag_bits flip: ps)
qed

lemma remove_prefix_stuck: "too_short p \<Longrightarrow> too_short (np_remove_prefix p n)"
  by (simp add: too_short_def np_remove_prefix_def check_size_def parse_error_def np_set_error_def Let_def)

lemma header_parse_input:
  assumes "ready p bs"
  defines "p' \<equiv> fst (snd (TCPHeader_parse p))" and "d \<equiv> drop_bit 4 (bs ! 12)"
  shows "length bs < 20 \<Longrightarrow> too_short p'"
    and "20 \<le> length bs \<Longrightarrow> d < 5 \<Longrightarrow> ready p' (drop 20 bs)"
    and "20 \<le> length bs \<Longrightarrow> 5 \<le> d \<Longrightarrow> 4 * unat d \<le> length bs \<Longrightarrow> ready p' (drop (4 * unat d) bs)"
    and "20 \<le> length bs \<Longrightarrow> 5 \<le> d \<Longrightarrow> length bs < 4 * unat d \<Longrightarrow> too_short p'"
proof -
  obtain h p1 where f: "TCPHeader_parse_fields p = (h, p1)" by (cases "TCPHeader_parse_fields p")
  note c = fields_consumed [OF assms(1), unfolded f fst_conv snd_conv]
  have p': "p' = (if doff h < 5 then p1 else np_remove_prefix p1 (ucast (doff h) * 4 - TCPHeader_LENGTH))"
    by (simp add: p'_def TCPHeader_parse_def f Let_def)
  show "length bs < 20 \<Longrightarrow> too_short p'" using c(1) by (simp add: p' remove_prefix_stuck)
  assume l: "20 \<le> length bs"
  then have r: "ready p1 (drop 20 bs)" and d: "doff h = d" using c by (simp_all add: d_def)
  show "d < 5 \<Longrightarrow> ready p' (drop 20 bs)" using r by (simp add: p' d)
  assume d5: "5 \<le> d"
  then have p'': "p' = np_remove_prefix p1 (ucast d * 4 - TCPHeader_LENGTH)" by (simp add: p' d)
  have d20: "20 \<le> 4 * unat d" using d5 by (simp add: word_le_nat_alt)
  show "4 * unat d \<le> length bs \<Longrightarrow> ready p' (drop (4 * unat d) bs)"
    using remove_prefix_ready(1) [OF r, of "ucast d * 4 - TCPHeader_LENGTH"] d20 by (simp add: p'' unat_skip [OF d5])
  show "length bs < 4 * unat d \<Longrightarrow> too_short p'"
    using remove_prefix_ready(2) [OF r, of "ucast d * 4 - TCPHeader_LENGTH"] d20 l
    by (simp add: p'' unat_skip [OF d5] too_short_def)
qed

lemma segment_parse_checksum:
  "TCPSegment_parse seg b s = (if ck_value (ck_add (InternetChecksum_new s) (str b)) \<noteq> 0 then (seg, BadChecksum)
     else (seg\<lparr>header := fst (TCPHeader_parse (NetParser_new b)),
               payload := np_buffer (fst (snd (TCPHeader_parse (NetParser_new b))))\<rparr>,
           np_error (fst (snd (TCPHeader_parse (NetParser_new b))))))"
  by (simp add: TCPSegment_parse_def split_def Let_def)

lemma weighted_update:
  assumes "i < length bs"
  shows "weighted p (bs[i := b]) + (if p \<noteq> odd i then unat (bs ! i) else 256 * unat (bs ! i))
    = weighted p bs + (if p \<noteq> odd i then unat b else 256 * unat b)"
  using assms
proof (induction bs arbitrary: p i)
  case (Cons x bs)
  show ?case
  proof (cases i)
    case (Suc j)
    then show ?thesis using Cons.IH [of j "\<not> p"] Cons.prems by (auto split: if_splits)
  qed simp
qed simp

lemma multiples_apart:
  assumes "65535 dvd (x :: nat)" "65535 dvd y" "x + a = y + b" "a \<le> 65280" "b \<le> 65280"
  shows "a = b"
proof -
  obtain k l where "x = 65535 * k" "y = 65535 * l" using assms(1,2) by (auto elim!: dvdE)
  then have "(65535 * k + a) mod 65535 = (65535 * l + b) mod 65535" using assms(3) by simp
  then show ?thesis using assms(4,5) by (simp only: mod_mult_self4) simp
qed

text \<open>One changed byte moves the sum by less than \<open>2 ^ 16 - 1\<close>.\<close>

lemma corrupted_byte:
  assumes "length bs \<le> 65535" "unat s \<le> 2 ^ 20" "i < length bs" "b \<noteq> bs ! i"
    and "ck_value (ck_add (InternetChecksum_new s) bs) = 0"
  shows "ck_value (ck_add (InternetChecksum_new s) (bs[i := b])) \<noteq> 0"
proof
  assume z: "ck_value (ck_add (InternetChecksum_new s) (bs[i := b])) = 0"
  let ?w = "\<lambda>x :: byte. if odd i then unat x else 256 * unat x"
  have "unat s + weighted False bs < 2 ^ 32" "unat s + weighted False (bs[i := b]) < 2 ^ 32"
    using weighted_bound [of False bs] weighted_bound [of False "bs[i := b]"] assms(1,2) by simp_all
  then have "65535 dvd unat s + weighted False bs" "65535 dvd unat s + weighted False (bs[i := b])"
    using ck_zero_iff assms(5) z by blast+
  moreover have "(unat s + weighted False (bs[i := b])) + ?w (bs ! i) = (unat s + weighted False bs) + ?w b"
    using weighted_update [OF assms(3), of False b] by simp
  moreover have "?w x \<le> 65280" for x using unat_byte_le [of x] by simp
  ultimately have "?w (bs ! i) = ?w b" using multiples_apart by blast
  then have "unat (bs ! i) = unat b" by (simp split: if_splits)
  then show False using assms(4) by (simp add: word_unat_eq_iff)
qed

text \<open>The bytes of a serialized segment.\<close>

lemma segment_bytes:
  assumes "5 \<le> doff (header seg)" and "buf_inv (payload seg)"
    and "4 * unat (doff (header seg)) + length (str (payload seg)) \<le> 65535"
  defines "bytes \<equiv> \<lambda>c. fixed_bytes ((header seg)\<lparr>cksum := c\<rparr>) @ replicate (4 * unat (doff (header seg)) - 20) 0 @ str (payload seg)"
  shows "\<exists>bl. TCPSegment_serialize seg pseudo = Inr bl
    \<and> BufferList_concatenate bl = bytes (ck_value (ck_add (InternetChecksum_new pseudo) (bytes 0)))"
proof -
  have "fits (fixed_bytes ((header seg)\<lparr>cksum := c\<rparr>) @ replicate (4 * unat (doff (header seg)) - 20) 0)" for c
    using assms(3) by (simp add: fits_def)
  then show ?thesis
    using serialize_bytes [of "(header seg)\<lparr>cksum := c\<rparr>" for c] assms(1)
    by (simp add: TCPSegment_serialize_def Let_def BufferList_append_eq BufferList_concatenate_eq bytes_def ck_add_append)
qed

text \<open>What parsing these bytes gives.\<close>

lemma segment_wire:
  assumes "5 \<le> doff (header seg)" "doff (header seg) \<le> 15" and "buf_inv (payload seg)"
    and "4 * unat (doff (header seg)) + length (str (payload seg)) \<le> 65535" and "unat pseudo \<le> 2 ^ 20"
  shows "\<exists>bl. TCPSegment_serialize seg pseudo = Inr bl \<and> fits (BufferList_concatenate bl)
    \<and> (\<forall>b seg0. buf_inv b \<and> str b = BufferList_concatenate bl \<longrightarrow>
        (\<exists>seg'. TCPSegment_parse seg0 b pseudo = (seg', NoError) \<and> header seg' = (header seg)\<lparr>cksum := cksum (header seg')\<rparr>
          \<and> str (payload seg') = str (payload seg) \<and> buf_inv (payload seg')))"
proof -
  let ?h = "header seg"
  define pre post where "pre = take 16 (fixed_bytes ?h)"
    and "post = be_bytes (uptr ?h) @ replicate (4 * unat (doff ?h) - 20) 0 @ str (payload seg)"
  have w: "fixed_bytes (?h\<lparr>cksum := c\<rparr>) @ replicate (4 * unat (doff ?h) - 20) 0 @ str (payload seg)
      = pre @ be_bytes c @ post" for c
    by (simp add: fixed_bytes_def pre_def post_def flags_byte_def)
  define ck where "ck = ck_value (ck_add (InternetChecksum_new pseudo) (pre @ be_bytes (0 :: u16) @ post))"
  let ?h' = "?h\<lparr>cksum := ck\<rparr>" and ?bytes = "pre @ be_bytes ck @ post"
  have len: "length pre = 16" "length post = 2 + (4 * unat (doff ?h) - 20) + length (str (payload seg))"
    by (simp_all add: pre_def post_def)
  have ck0: "ck_value (ck_add (InternetChecksum_new pseudo) ?bytes) = 0"
  proof -
    have "unat pseudo + weighted False (pre @ post) + 65535 < 2 ^ 32"
      using weighted_bound [of False "pre @ post"] assms(1,4,5) len by (simp add: word_le_nat_alt)
    then show ?thesis unfolding ck_def using len(1) by (intro checksum_fills) simp_all
  qed
  have fits: "fits ?bytes" using assms(4) len by (simp add: fits_def)
  obtain bl where s: "TCPSegment_serialize seg pseudo = Inr bl" and bl: "BufferList_concatenate bl = ?bytes"
    using segment_bytes [OF assms(1,3,4), of pseudo] unfolding w ck_def by blast
  have "\<exists>seg'. TCPSegment_parse seg0 b pseudo = (seg', NoError) \<and> header seg' = ?h\<lparr>cksum := cksum (header seg')\<rparr>
      \<and> str (payload seg') = str (payload seg) \<and> buf_inv (payload seg')" if "buf_inv b" "str b = ?bytes" for b seg0
  proof -
    have r: "ready (NetParser_new b) ?bytes" using that by (simp add: ready_def NetParser_new_def)
    obtain p' where p: "TCPHeader_parse (NetParser_new b) = (?h', p', NoError)" "ready p' (str (payload seg))"
      using header_roundtrip [of ?h' "NetParser_new b" "str (payload seg)"] assms(1,2) r by (auto simp: w)
    have "TCPSegment_parse seg0 b pseudo = (seg0\<lparr>header := ?h', payload := np_buffer p'\<rparr>, NoError)"
      using p ck0 that by (simp add: segment_parse_checksum ready_def)
    then show ?thesis using p(2) by (auto simp: ready_def)
  qed
  then show ?thesis using s bl fits by auto
qed

section \<open>Segments of a stream\<close>

text \<open>
  A sender sends the stream \<open>S\<close> of length \<open>L\<close> from the initial sequence number \<open>isn\<close>. A segment
  of it carries the bytes from position \<open>k\<close> on; a bare acknowledgment carries nothing, and its
  sequence number does not matter.
\<close>

definition seg_at :: "(nat \<Rightarrow> byte) \<Rightarrow> nat \<Rightarrow> WrappingInt32 \<Rightarrow> nat \<Rightarrow> TCPSegment \<Rightarrow> bool" where
  "seg_at S L isn k seg \<longleftrightarrow>
     k + length (str (payload seg)) \<le> L
   \<and> str (payload seg) = map S [k..<k + length (str (payload seg))]
   \<and> (if syn (header seg) then k = 0 \<and> seqno (header seg) = isn else seqno (header seg) = wrap (of_nat k + 1) isn)
   \<and> (fin (header seg) \<longrightarrow> k + length (str (payload seg)) = L)"

definition bare_ack :: "TCPSegment \<Rightarrow> bool" where
  "bare_ack seg \<longleftrightarrow> str (payload seg) = [] \<and> \<not> syn (header seg) \<and> \<not> fin (header seg)"

section \<open>Properties\<close>

text \<open>
  C8. A segment survives the wire: for every legal data offset and every payload that fits an IP
  packet, \<open>serialize\<close> does not throw, and parsing the bytes it produces with the same
  pseudo-header sum succeeds with the same header (apart from the checksum field, which
  \<open>serialize\<close> fills in) and the same payload.
\<close>

theorem TCPSegment_roundtrip:
  assumes "5 \<le> doff (header seg)" "doff (header seg) \<le> 15" and "buf_inv (payload seg)"
    and "4 * unat (doff (header seg)) + length (str (payload seg)) \<le> 65535" and "unat pseudo \<le> 2 ^ 20"
  shows "\<exists>bl seg'. TCPSegment_serialize seg pseudo = Inr bl
    \<and> TCPSegment_parse seg0 (Buffer_of (BufferList_concatenate bl)) pseudo = (seg', NoError)
    \<and> header seg' = (header seg)\<lparr>cksum := cksum (header seg')\<rparr>
    \<and> str (payload seg') = str (payload seg)"
  using segment_wire [OF assms] buf_inv_new(2) str_new(2) by blast

theorem TCPSegment_roundtrip_witness:
  "\<exists>bl seg'. TCPSegment_serialize (TCPSegment_new\<lparr>payload := Buffer_of [1, 2, 3]\<rparr>) 7 = Inr bl
    \<and> TCPSegment_parse TCPSegment_new (Buffer_of (BufferList_concatenate bl)) 7 = (seg', NoError)
    \<and> str (payload seg') = [1, 2, 3]"
proof -
  let ?seg = "TCPSegment_new\<lparr>payload := Buffer_of [1, 2, 3]\<rparr>"
  have d: "doff (header ?seg) = 5"
    by (simp add: TCPSegment_new_def TCPHeader_new_def TCPHeader_LENGTH_def)
  have p: "buf_inv (payload ?seg)" "str (payload ?seg) = [1, 2, 3]" by (simp_all add: fits_def)
  have "\<exists>bl seg'. TCPSegment_serialize ?seg 7 = Inr bl
    \<and> TCPSegment_parse TCPSegment_new (Buffer_of (BufferList_concatenate bl)) 7 = (seg', NoError)
    \<and> header seg' = (header ?seg)\<lparr>cksum := cksum (header seg')\<rparr> \<and> str (payload seg') = str (payload ?seg)"
    by (rule TCPSegment_roundtrip) (simp_all only: d p, simp_all)
  then show ?thesis unfolding p(2) by blast
qed

text \<open>
  C23. Corruption of a byte in transit is detected: if a segment was accepted by the checksum, the
  same bytes with any one byte changed to another value are rejected with \<open>BadChecksum\<close>, and
  the segment object is left as it was.
\<close>

theorem corruption_detected:
  assumes "length bs \<le> 65535" and "unat pseudo \<le> 2 ^ 20" and "i < length bs" and "b \<noteq> bs ! i"
    and "snd (TCPSegment_parse seg (Buffer_of bs) pseudo) \<noteq> BadChecksum"
  shows "TCPSegment_parse seg (Buffer_of (bs[i := b])) pseudo = (seg, BadChecksum)"
proof -
  have f: "str (Buffer_of bs) = bs" "str (Buffer_of (bs[i := b])) = bs[i := b]"
    using assms(1) by (simp_all add: fits_def)
  have "ck_value (ck_add (InternetChecksum_new pseudo) bs) = 0"
    using assms(5) unfolding segment_parse_checksum f by (simp split: if_splits)
  from corrupted_byte [OF assms(1-4) this] show ?thesis
    by (simp only: segment_parse_checksum f not_False_eq_True if_True)
qed

theorem corruption_detected_witness:
  "TCPSegment_parse TCPSegment_new (Buffer_of [0xff, 0xfe]) 0 = (TCPSegment_new, BadChecksum)"
proof -
  have "ck_value (ck_add (InternetChecksum_new 0) [0xff, 0xff]) = 0"
    by (subst ck_zero_iff) simp_all
  moreover have "too_short (fst (snd (TCPHeader_parse (NetParser_new (Buffer_of [0xff, 0xff])))))"
    by (rule header_parse_input(1) [of _ "[0xff, 0xff]"]) (simp_all add: fits_def)
  ultimately have "snd (TCPSegment_parse TCPSegment_new (Buffer_of [0xff, 0xff]) 0) \<noteq> BadChecksum"
    by (simp add: segment_parse_checksum too_short_def fits_def)
  then show ?thesis using corruption_detected [of "[0xff, 0xff]" 0 1 "0xfe" TCPSegment_new] by simp
qed

text \<open>
  C24. Parsing detects what it must and reads each field from its place. \<open>TCPHeader::parse\<close> fails on less than 20 bytes, on a data offset
  below five and on less data than the data offset claims; else it succeeds with the fields of RFC 793 and stands behind the
  header. \<open>TCPSegment::parse\<close> answers a bad checksum, leaving the segment as it was, and data that are too short; a header with a legal
  data offset it returns with the payload behind it.
\<close>

theorem TCPSegment_parse_result:
  assumes "fits bs"
  defines "d \<equiv> drop_bit 4 (bs ! 12)"
  shows "(case TCPHeader_parse (NetParser_new (Buffer_of bs)) of (h, p, res) \<Rightarrow>
      (if length bs < 20 then res \<noteq> NoError
       else header_of bs h \<and> (if d < 5 then res = HeaderTooShort else if length bs < 4 * unat d then res = PacketTooShort
            else res = NoError \<and> str (np_buffer p) = drop (4 * unat d) bs)))
    \<and> (let r = TCPSegment_parse seg (Buffer_of bs) pseudo
       in if ck_value (ck_add (InternetChecksum_new pseudo) bs) \<noteq> 0 then r = (seg, BadChecksum)
          else if length bs < 20 \<or> 5 \<le> d \<and> length bs < 4 * unat d then snd r = PacketTooShort
          else 5 \<le> d \<longrightarrow> snd r = NoError \<and> header_of bs (header (fst r)) \<and> str (payload (fst r)) = drop (4 * unat d) bs)"
proof -
  let ?p = "NetParser_new (Buffer_of bs)"
  obtain h p where f: "TCPHeader_parse_fields ?p = (h, p)" by (cases "TCPHeader_parse_fields ?p")
  have r: "ready ?p bs" using assms(1) by simp
  define p' where "p' = (if doff h < 5 then p else np_remove_prefix p (ucast (doff h) * 4 - TCPHeader_LENGTH))"
  have parse: "TCPHeader_parse ?p
      = (h, p', if doff h < 5 then HeaderTooShort else if parse_error p' then np_error p' else NoError)"
    by (simp add: TCPHeader_parse_def f p'_def Let_def)
  note i = header_parse_input [OF r, unfolded parse fst_conv snd_conv, folded d_def]
  have h: "20 \<le> length bs \<Longrightarrow> header_of bs h" using fields_layout [OF r] f by simp
  then have d: "20 \<le> length bs \<Longrightarrow> doff h = d" by (simp add: header_of_def d_def)
  have seg: "TCPSegment_parse seg (Buffer_of bs) pseudo = (if ck_value (ck_add (InternetChecksum_new pseudo) bs) \<noteq> 0
      then (seg, BadChecksum) else (seg\<lparr>header := h, payload := np_buffer p'\<rparr>, np_error p'))"
    using assms(1) by (simp add: segment_parse_checksum parse)
  consider (short) "length bs < 20" | (low) "20 \<le> length bs" "d < 5"
    | (cut) "20 \<le> length bs" "5 \<le> d" "length bs < 4 * unat d" | (good) "20 \<le> length bs" "5 \<le> d" "4 * unat d \<le> length bs"
    by (meson not_less)
  then show ?thesis
  proof cases
    case short
    then show ?thesis using i(1) by (auto simp: parse seg too_short_def parse_error_def)
  next
    case low
    then show ?thesis using h d by (auto simp: parse seg)
  next
    case cut
    then show ?thesis using h d i(4) by (auto simp: parse seg too_short_def parse_error_def)
  next
    case good
    then show ?thesis using h d i(3) by (auto simp: parse seg ready_def parse_error_def)
  qed
qed

text \<open>A header with the SYN flag and two bytes of payload, its checksum included.\<close>

definition wit_bytes :: "byte list" where
  "wit_bytes = [0, 1, 0, 2, 0, 0, 0, 9, 0, 0, 0, 0, 0x50, 2, 0, 0, 0xaf, 0xf1, 0, 0, 0, 0]"

theorem TCPSegment_parse_result_witness:
  "snd (TCPSegment_parse TCPSegment_new (Buffer_of wit_bytes) 0) = NoError
   \<and> syn (header (fst (TCPSegment_parse TCPSegment_new (Buffer_of wit_bytes) 0)))
   \<and> str (payload (fst (TCPSegment_parse TCPSegment_new (Buffer_of wit_bytes) 0))) = [0, 0]"
proof -
  have c: "ck_value (ck_add (InternetChecksum_new 0) wit_bytes) = 0"
    by (subst ck_zero_iff) (simp_all add: wit_bytes_def)
  have "fits wit_bytes" by (simp add: wit_bytes_def fits_def)
  from conjunct2 [OF TCPSegment_parse_result [OF this, of TCPSegment_new 0]] show ?thesis
    using c by (simp add: Let_def header_of_def wit_bytes_def drop_bit_eq_div)
qed

section \<open>Where the code departs from its documentation\<close>

text \<open>
  A data offset below five is documented as an error and \<open>TCPHeader::parse\<close> reports it, but
  \<open>TCPSegment::parse\<close> drops that result and answers with the parser's own error.
\<close>

lemma header_too_short_dropped:
  assumes "fits bs" "20 \<le> length bs" "drop_bit 4 (bs ! 12) < (5 :: u8)"
    and "ck_value (ck_add (InternetChecksum_new pseudo) bs) = 0"
  shows "snd (snd (TCPHeader_parse (NetParser_new (Buffer_of bs)))) = HeaderTooShort"
    and "snd (TCPSegment_parse seg (Buffer_of bs) pseudo) = NoError"
proof -
  let ?p = "NetParser_new (Buffer_of bs)"
  have r: "ready ?p bs" using assms(1) by simp
  show "snd (snd (TCPHeader_parse ?p)) = HeaderTooShort"
    using fields_consumed(2) [OF r assms(2)] assms(3) by (simp add: TCPHeader_parse_def split_def Let_def)
  show "snd (TCPSegment_parse seg (Buffer_of bs) pseudo) = NoError"
    using header_parse_input(2) [OF r assms(2,3)] assms(1,4) by (simp add: segment_parse_checksum ready_def)
qed

end
