(* ===== verification/Receiver.thy ===== *)
theory Receiver
  imports Reassembler TCP_Segments
begin

text \<open>
  \<^verbatim>\<open>libsponge/tcp_receiver.{hh,cc}\<close>: the receiver turns sequence numbers into stream indices for
  the reassembler and reports the acknowledgment number and the window.
\<close>

section \<open>Model\<close>

record TCPReceiver =
  rcv_reassembler :: StreamReassembler
  rcv_capacity :: u64
  rcv_isn :: WrappingInt32
  rcv_isn_set :: bool

definition TCPReceiver_new :: "u64 \<Rightarrow> TCPReceiver" where
  "TCPReceiver_new capacity = \<lparr>rcv_reassembler = StreamReassembler_new capacity, rcv_capacity = capacity,
     rcv_isn = WrappingInt32 0, rcv_isn_set = False\<rparr>"

definition rcv_stream_out :: "TCPReceiver \<Rightarrow> ByteStream" where
  "rcv_stream_out r = sr_output (rcv_reassembler r)"

definition rcv_unassembled_bytes :: "TCPReceiver \<Rightarrow> u64" where
  "rcv_unassembled_bytes r = unassembled_bytes (rcv_reassembler r)"

definition rcv_segment_received :: "TCPReceiver \<Rightarrow> TCPSegment \<Rightarrow> TCPReceiver" where
  "rcv_segment_received r seg =
     (let h = header seg
      in if \<not> syn h \<and> \<not> rcv_isn_set r then r
         else
           let r = (if syn h then r\<lparr>rcv_isn := seqno h, rcv_isn_set := True\<rparr> else r);
               sq = (if syn h then WrappingInt32_plus (seqno h) 1 else seqno h);
               checkpoint = bytes_written (rcv_stream_out r);
               abs_seqno = unwrap sq (rcv_isn r) checkpoint;
               stream_index = abs_seqno - 1
           in r\<lparr>rcv_reassembler :=
                  push_substring (rcv_reassembler r) (Buffer_copy (payload seg)) stream_index (fin h)\<rparr>)"

definition rcv_ackno :: "TCPReceiver \<Rightarrow> WrappingInt32 option" where
  "rcv_ackno r =
     (if \<not> rcv_isn_set r then None
      else if input_ended (rcv_stream_out r)
      then Some (WrappingInt32_plus (wrap (bytes_written (rcv_stream_out r) + 1) (rcv_isn r)) 1)
      else Some (wrap (bytes_written (rcv_stream_out r) + 1) (rcv_isn r)))"

definition rcv_window_size :: "TCPReceiver \<Rightarrow> u64" where
  "rcv_window_size r =
     rcv_capacity r - (bytes_written (rcv_stream_out r) - bytes_read (rcv_stream_out r))"

section \<open>Runs\<close>

text \<open>Sequence numbers are told apart only within half their range of the receiver's position.\<close>

definition in_reach :: "TCPReceiver \<Rightarrow> nat \<Rightarrow> bool" where
  "in_reach r k \<longleftrightarrow> \<bar>int k + 1 - uint (bytes_written (rcv_stream_out r))\<bar> < 2 ^ 31"

datatype rcv_op = Deliver nat TCPSegment | RRead u64

fun rcv_step :: "rcv_op \<Rightarrow> TCPReceiver \<Rightarrow> TCPReceiver" where
  "rcv_step (Deliver k seg) r = rcv_segment_received r seg"
| "rcv_step (RRead n) r = r\<lparr>rcv_reassembler := sr_step (SRead n) (rcv_reassembler r)\<rparr>"

fun rcv_delivers :: "rcv_op \<Rightarrow> TCPReceiver \<Rightarrow> byte list" where
  "rcv_delivers (Deliver k seg) r = []"
| "rcv_delivers (RRead n) r = snd (ByteStream_read (rcv_stream_out r) n)"

abbreviation rcv_hist :: "rcv_op list \<Rightarrow> TCPReceiver \<Rightarrow> byte list" where
  "rcv_hist \<equiv> history rcv_delivers rcv_step"

fun rcv_ok :: "(nat \<Rightarrow> byte) \<Rightarrow> nat \<Rightarrow> WrappingInt32 \<Rightarrow> TCPReceiver \<Rightarrow> rcv_op \<Rightarrow> bool" where
  "rcv_ok S L isn r (Deliver k seg) \<longleftrightarrow> bare_ack seg \<or> seg_at S L isn k seg \<and> in_reach r k"
| "rcv_ok S L isn r (RRead n) \<longleftrightarrow> True"

text \<open>The same with FINs that the reassembler treats well: see \<open>eof_ok\<close>.\<close>

fun rcv_eof_ok :: "(nat \<Rightarrow> byte) \<Rightarrow> nat \<Rightarrow> WrappingInt32 \<Rightarrow> TCPReceiver \<Rightarrow> rcv_op \<Rightarrow> bool" where
  "rcv_eof_ok S L isn r (Deliver k seg) \<longleftrightarrow> rcv_ok S L isn r (Deliver k seg)
     \<and> (fin (header seg) \<longrightarrow> eof_ok L (rcv_reassembler r) (str (payload seg)) (of_nat k))"
| "rcv_eof_ok S L isn r (RRead n) \<longleftrightarrow> True"

definition rcv_inv :: "(nat \<Rightarrow> byte) \<Rightarrow> nat \<Rightarrow> WrappingInt32 \<Rightarrow> TCPReceiver \<Rightarrow> bool" where
  "rcv_inv S L isn r \<longleftrightarrow> sr_inv S L (rcv_reassembler r) \<and> L < 2 ^ 64 - 2 ^ 32
     \<and> rcv_capacity r = sr_capacity (rcv_reassembler r)
     \<and> (rcv_isn_set r \<longrightarrow> rcv_isn r = isn)"

section \<open>The receiver pushes where the peer meant\<close>

lemma rcv_new_inv: "L < 2 ^ 64 - 2 ^ 32 \<Longrightarrow> rcv_inv S L isn (TCPReceiver_new cap)"
  unfolding rcv_inv_def TCPReceiver_new_def
  using sr_inv_new [of L S cap] by (simp add: StreamReassembler_new_def)

lemma rcv_invD:
  assumes "rcv_inv S L isn r"
  shows "sr_inv S L (rcv_reassembler r)" "L < 2 ^ 64 - 2 ^ 32" "rcv_capacity r = sr_capacity (rcv_reassembler r)"
    "rcv_isn_set r \<Longrightarrow> rcv_isn r = isn"
    "bytes_written (rcv_stream_out r) = nextIndex (rcv_reassembler r)" "unat (bytes_written (rcv_stream_out r)) \<le> L"
  using assms sr_invD(3,5) [of S L "rcv_reassembler r"]
  by (auto simp: rcv_inv_def rcv_stream_out_def bytes_written_def)

text \<open>The index computed from the sequence number is the position the peer meant.\<close>

lemma index_recovered:
  assumes "rcv_inv S L isn r" and "k \<le> L" and "in_reach r k"
  shows "unwrap (wrap (of_nat k + 1) isn) isn (bytes_written (rcv_stream_out r)) = of_nat k + 1"
proof -
  let ?c = "bytes_written (rcv_stream_out r)"
  note L = rcv_invD(2) [OF assms(1)]
  have c: "uint ?c < 2 ^ 64 - 2 ^ 32"
    using rcv_invD(6) [OF assms(1)] L uint_less_nat [of ?c "2 ^ 64 - 2 ^ 32"] by simp
  have "uint (of_nat k + 1 :: u64) = int k + 1" using assms(2) L by (intro uint_of_nat_Suc) simp
  then have "\<bar>uint (of_nat k + 1 :: u64) - uint ?c\<bar> < 2 ^ 31"
    using assms(3) by (simp only: in_reach_def)
  with c show ?thesis by (rule seq32.dec_enc)
qed

lemma seg_at_matches:
  assumes "seg_at S L isn k seg" and "L < 2 ^ 64"
  shows "matches S L (str (payload seg)) (of_nat k)"
proof -
  have "unat (of_nat k :: u64) = k" "length (str (payload seg)) < 2 ^ 64"
    using assms by (auto simp: seg_at_def intro!: unat_of_nat_u64)
  then show ?thesis using assms(1) by (simp add: matches_def seg_at_def fits_def)
qed

lemma rcv_segment_pushes:
  assumes i: "rcv_inv S L isn r" and s: "seg_at S L isn k seg" and n: "in_reach r k"
    and "syn (header seg) \<or> rcv_isn_set r"
  shows "rcv_segment_received r seg
    = r\<lparr>rcv_isn := isn, rcv_isn_set := True,
        rcv_reassembler := push_substring (rcv_reassembler r) (str (payload seg)) (of_nat k) (fin (header seg))\<rparr>"
proof -
  have k: "k \<le> L" using s by (simp add: seg_at_def)
  note u = index_recovered [OF i k n]
  show ?thesis
  proof (cases "syn (header seg)")
    case True
    then have h: "seqno (header seg) = isn" "k = 0" using s by (simp_all add: seg_at_def)
    then show ?thesis
      using True u by (simp add: rcv_segment_received_def Buffer_copy_def rcv_stream_out_def wrap_plus_1)
  next
    case False
    then have "seqno (header seg) = wrap (of_nat k + 1) isn" "rcv_isn_set r" "rcv_isn r = isn"
      using s assms(4) rcv_invD(4) [OF i] by (simp_all add: seg_at_def)
    then show ?thesis using False u by (simp add: rcv_segment_received_def Buffer_copy_def rcv_stream_out_def)
  qed
qed

lemma rcv_bare_ack:
  assumes "bare_ack seg"
  shows "\<exists>index. rcv_segment_received r seg
    = (if rcv_isn_set r then r\<lparr>rcv_reassembler := push_substring (rcv_reassembler r) [] index False\<rparr> else r)"
  using assms by (auto simp: bare_ack_def rcv_segment_received_def Buffer_copy_def)

lemma matches_Nil [simp]: "matches S L [] index"
  by (simp add: matches_def)

text \<open>Each step of the receiver is a step of its reassembler, or none.\<close>

lemma rcv_step_sr:
  assumes i: "rcv_inv S L isn r" and o: "rcv_ok S L isn r e"
  obtains "rcv_step e r = r" "rcv_delivers e r = []"
  | e' isn' set' where "rcv_step e r = r\<lparr>rcv_isn := isn', rcv_isn_set := set', rcv_reassembler := sr_step e' (rcv_reassembler r)\<rparr>"
      "sr_ok S L (rcv_reassembler r) e'" "set' \<longrightarrow> isn' = isn" "sr_delivers e' (rcv_reassembler r) = rcv_delivers e r"
      "rcv_eof_ok S L isn r e \<longrightarrow> sr_eof_ok S L (rcv_reassembler r) e'"
proof (cases e)
  case (RRead n)
  have "r = r\<lparr>rcv_isn := rcv_isn r, rcv_isn_set := rcv_isn_set r\<rparr>" by simp
  then show ?thesis
    using that(2) [of "SRead n" "rcv_isn_set r" "rcv_isn r"] RRead rcv_invD(4) [OF i]
    by (auto simp: rcv_stream_out_def)
next
  case (Deliver k seg)
  show ?thesis
  proof (cases "bare_ack seg")
    case True
    from rcv_bare_ack [OF True, of r] obtain index where
      b: "rcv_segment_received r seg = (if rcv_isn_set r
        then r\<lparr>rcv_reassembler := push_substring (rcv_reassembler r) [] index False\<rparr> else r)" by blast
    show ?thesis
    proof (cases "rcv_isn_set r")
      case True
      then show ?thesis
        using that(2) [of "Push [] index False" True "rcv_isn r"] b Deliver rcv_invD(4) [OF i] by simp
    qed (use b Deliver that(1) in simp)
  next
    case False
    then have s: "seg_at S L isn k seg" "in_reach r k" using o Deliver by simp_all
    show ?thesis
    proof (cases "syn (header seg) \<or> rcv_isn_set r")
      case True
      have "L < 2 ^ 64" using rcv_invD(2) [OF i] by linarith
      then show ?thesis
        using that(2) [of "Push (str (payload seg)) (of_nat k) (fin (header seg))" True isn]
          rcv_segment_pushes [OF i s True] seg_at_matches [OF s(1)] Deliver by simp
    qed (use Deliver that(1) in \<open>simp add: rcv_segment_received_def\<close>)
  qed
qed

lemma rcv_step_inv:
  assumes i: "rcv_inv S L isn r" and o: "rcv_ok S L isn r e"
  shows "rcv_inv S L isn (rcv_step e r)"
  using i o
proof (rule rcv_step_sr)
  fix e' isn' set'
  assume s: "rcv_step e r = r\<lparr>rcv_isn := isn', rcv_isn_set := set', rcv_reassembler := sr_step e' (rcv_reassembler r)\<rparr>"
    "sr_ok S L (rcv_reassembler r) e'" "set' \<longrightarrow> isn' = isn"
  have "sr_inv S L (sr_step e' (rcv_reassembler r))"
    using rcv_invD(1) [OF i] s(2) by (rule sr_step_inv)
  moreover have "sr_capacity (sr_step e' (rcv_reassembler r)) = sr_capacity (rcv_reassembler r)"
    using sr_step_advances [OF rcv_invD(1) [OF i] s(2)] by (simp add: advances_def)
  ultimately show ?thesis using i s(1,3) unfolding rcv_inv_def by simp
qed (use i in simp)

interpretation rcv_sys: invariant_system rcv_step "rcv_ok S L isn" "rcv_inv S L isn" for S L isn
  by unfold_locales (rule rcv_step_inv)

interpretation rcv_eof_sys: invariant_system rcv_step "rcv_eof_ok S L isn"
    "\<lambda>r. rcv_inv S L isn r \<and> eof_inv L (rcv_reassembler r)" for S L isn
proof
  fix r e
  assume i: "rcv_inv S L isn r \<and> eof_inv L (rcv_reassembler r)" and o: "rcv_eof_ok S L isn r e"
  have ok: "rcv_ok S L isn r e" using o by (cases e) auto
  have "eof_inv L (rcv_reassembler (rcv_step e r))"
    using conjunct1 [OF i] ok
  proof (rule rcv_step_sr)
    fix e' isn' set'
    assume s: "rcv_step e r = r\<lparr>rcv_isn := isn', rcv_isn_set := set', rcv_reassembler := sr_step e' (rcv_reassembler r)\<rparr>"
      "rcv_eof_ok S L isn r e \<longrightarrow> sr_eof_ok S L (rcv_reassembler r) e'"
    then show ?thesis
      using sr_eof_sys.step_inv [of S L "rcv_reassembler r" e'] i rcv_invD(1) [of S L isn r] o by simp
  qed (use i in simp)
  then show "rcv_inv S L isn (rcv_step e r) \<and> eof_inv L (rcv_reassembler (rcv_step e r))"
    using i rcv_step_inv [OF _ ok] by blast
qed

lemma rcv_step_delivers:
  assumes i: "rcv_inv S L isn r" and o: "rcv_ok S L isn r e"
  shows "map S [0..<unat (bytes_read (rcv_stream_out r))] @ rcv_delivers e r
    = map S [0..<unat (bytes_read (rcv_stream_out (rcv_step e r)))]"
  using i o
proof (rule rcv_step_sr)
  fix e' isn' set'
  assume s: "rcv_step e r = r\<lparr>rcv_isn := isn', rcv_isn_set := set', rcv_reassembler := sr_step e' (rcv_reassembler r)\<rparr>"
    "sr_ok S L (rcv_reassembler r) e'" "sr_delivers e' (rcv_reassembler r) = rcv_delivers e r"
  show ?thesis
    using sr_step_delivers [OF rcv_invD(1) [OF i] s(2)] s(1,3) by (simp add: rcv_stream_out_def)
qed simp

interpretation rcv_stream: delivery_system rcv_step "rcv_ok S L isn" "rcv_inv S L isn" rcv_delivers
    "\<lambda>r. unat (bytes_read (rcv_stream_out r))" S for S L isn
  by unfold_locales (rule rcv_step_delivers)

lemma rcv_window:
  assumes "rcv_inv S L isn r"
  shows "rcv_window_size r = remaining_capacity (rcv_stream_out r)"
    and "unat (rcv_window_size r) + length (bs_buf (rcv_stream_out r)) = unat (rcv_capacity r)"
proof -
  note d = rcv_invD [OF assms] and b = sr_invD [OF rcv_invD(1) [OF assms]]
  have i: "bs_inv (rcv_stream_out r)" using b(1) bs_holds_inv by (simp add: rcv_stream_out_def)
  then have "sz (bs_buf (rcv_stream_out r)) = bytes_written (rcv_stream_out r) - bytes_read (rcv_stream_out r)"
    by (simp add: bs_inv_def bytes_written_def bytes_read_def)
  then show w: "rcv_window_size r = remaining_capacity (rcv_stream_out r)"
    using d(3) b(2) by (simp add: rcv_window_size_def remaining_capacity_def rcv_stream_out_def)
  show "unat (rcv_window_size r) + length (bs_buf (rcv_stream_out r)) = unat (rcv_capacity r)"
    unfolding w using room_eq [OF i] i d(3) b(2)
    by (simp add: room_def bs_inv_def rcv_stream_out_def)
qed

text \<open>The flag records whether a SYN has been seen.\<close>

fun is_syn :: "rcv_op \<Rightarrow> bool" where
  "is_syn (Deliver k seg) = syn (header seg)"
| "is_syn (RRead n) = False"

lemma isn_set_step: "rcv_isn_set (rcv_step e r) \<longleftrightarrow> rcv_isn_set r \<or> is_syn e"
  by (cases e) (auto simp: rcv_segment_received_def Let_def)

lemma isn_set_run: "rcv_isn_set (run rcv_step ops r) \<longleftrightarrow> rcv_isn_set r \<or> (\<exists>e \<in> set ops. is_syn e)"
  by (induction ops arbitrary: r) (auto simp: isn_set_step)

lemma ackno_absolute:
  assumes i: "rcv_inv S L isn r" and a: "rcv_ackno r = Some a"
  shows "unwrap a isn (bytes_written (rcv_stream_out r))
    = bytes_written (rcv_stream_out r) + 1 + (if input_ended (rcv_stream_out r) then 1 else 0)"
proof -
  define w where "w = bytes_written (rcv_stream_out r)"
  define k where "k = unat w + (if input_ended (rcv_stream_out r) then 1 else 0)"
  have "a = wrap (of_nat k + 1) isn"
    using a rcv_invD(4) [OF i] by (auto simp: rcv_ackno_def w_def k_def wrap_plus_1(1) add.commute split: if_splits)
  moreover have "unwrap (wrap (of_nat k + 1) isn) isn w = of_nat k + 1"
  proof -
    have "unat w < 2 ^ 64 - 2 ^ 32" using rcv_invD(2,6) [OF i] unfolding w_def by linarith
    then have "uint w < 2 ^ 64 - 2 ^ 32" and k: "k + 1 < 2 ^ 64"
      using uint_less_nat [of w "2 ^ 64 - 2 ^ 32"] by (simp_all add: k_def)
    moreover have "\<bar>uint (of_nat k + 1 :: u64) - uint w\<bar> < 2 ^ 31"
      unfolding uint_of_nat_Suc [OF k] by (simp add: k_def)
    ultimately show ?thesis by (intro seq32.dec_enc)
  qed
  ultimately show ?thesis by (simp add: k_def w_def add.commute)
qed

section \<open>Properties\<close>

text \<open>
  C10. Reliable delivery at the receiver: whatever segments of the peer's stream arrive, in any
  order, repeated, overlapping, with losses, mixed with bare acknowledgments and with reads of the
  application, the bytes read so far followed by those waiting are a prefix of the peer's stream.
\<close>

theorem receiver_delivers_prefix:
  assumes "L < 2 ^ 64 - 2 ^ 32" and "run_ok (rcv_ok S L isn) rcv_step ops (TCPReceiver_new cap)"
  defines "r \<equiv> run rcv_step ops (TCPReceiver_new cap)"
  shows "rcv_hist ops (TCPReceiver_new cap) @ bs_buf (rcv_stream_out r)
      = map S [0..<unat (bytes_written (rcv_stream_out r))]
    \<and> unat (bytes_written (rcv_stream_out r)) \<le> L"
proof -
  note i = rcv_new_inv [OF assms(1), of S isn cap]
  have r: "rcv_inv S L isn r" unfolding r_def using i assms(2) by (rule rcv_sys.run_inv)
  have "bytes_read (rcv_stream_out (TCPReceiver_new cap)) = 0"
    by (simp add: bytes_read_def rcv_stream_out_def TCPReceiver_new_def StreamReassembler_new_def)
  then have "rcv_hist ops (TCPReceiver_new cap) = map S [0..<unat (bytes_read (rcv_stream_out r))]"
    using rcv_stream.run_delivers [OF i assms(2)] by (simp add: r_def)
  then show ?thesis
    using bs_holds_total [OF sr_invD(1) [OF rcv_invD(1) [OF r]]] rcv_invD(6) [OF r]
    by (simp add: rcv_stream_out_def bytes_read_def bytes_written_def)
qed

definition wit_syn :: TCPSegment where
  "wit_syn = TCPSegment_new\<lparr>header := TCPHeader_new\<lparr>seqno := WrappingInt32 0xFFFFFFFF, syn := True\<rparr>\<rparr>"

definition wit_data :: TCPSegment where
  "wit_data = \<lparr>header = TCPHeader_new\<lparr>seqno := WrappingInt32 1\<rparr>, payload = Buffer_of [5, 6]\<rparr>"

lemma wit_segments:
  "syn (header wit_syn)" "\<not> fin (header wit_syn)" "str (payload wit_syn) = []" "seqno (header wit_syn) = WrappingInt32 0xFFFFFFFF"
  "\<not> syn (header wit_data)" "\<not> fin (header wit_data)" "str (payload wit_data) = [5, 6]" "seqno (header wit_data) = WrappingInt32 1"
  by (simp_all add: wit_syn_def wit_data_def TCPSegment_new_def TCPHeader_new_def fits_def)

lemmas rcv_eval = rcv_segment_received_def TCPReceiver_new_def rcv_stream_out_def Buffer_copy_def sr_eval
  wrap_def unwrap_def abs_i64_def WrappingInt32_plus_def Let_def

text \<open>A SYN, the bytes at positions 1 and 2 early, and a read: nothing is delivered yet.\<close>

lemma wit_run_ok:
  "run_ok (rcv_ok (\<lambda>i. 4 + of_nat i) 3 (WrappingInt32 0xFFFFFFFF)) rcv_step
     [Deliver 0 wit_syn, Deliver 1 wit_data, RRead 1] (TCPReceiver_new 8)"
  by (simp add: wit_segments seg_at_def in_reach_def rcv_eval)

theorem receiver_delivers_prefix_witness:
  "rcv_hist [Deliver 0 wit_syn, Deliver 1 wit_data, RRead 1] (TCPReceiver_new 8)
     @ bs_buf (rcv_stream_out (run rcv_step [Deliver 0 wit_syn, Deliver 1 wit_data, RRead 1] (TCPReceiver_new 8)))
   = map (\<lambda>i. 4 + of_nat i) [0..<unat (bytes_written (rcv_stream_out
       (run rcv_step [Deliver 0 wit_syn, Deliver 1 wit_data, RRead 1] (TCPReceiver_new 8))))]"
  using receiver_delivers_prefix [OF _ wit_run_ok] by simp

text \<open>
  C25. The acknowledgment number: there is none exactly until a SYN has arrived; afterwards it stands for the first byte not yet assembled,
  counting the SYN, and for one more, the FIN, when the output has ended, which it has only if all \<open>L\<close> bytes have been assembled. The FINs are
  those the reassembler can place: one that ends the stream, fits the free room and does not arrive early and empty.
\<close>

theorem receiver_ackno:
  assumes "L < 2 ^ 64 - 2 ^ 32" and "run_ok (rcv_eof_ok S L isn) rcv_step ops (TCPReceiver_new cap)"
  defines "r \<equiv> run rcv_step ops (TCPReceiver_new cap)"
  shows "case rcv_ackno r of
      None \<Rightarrow> \<not> (\<exists>e \<in> set ops. is_syn e)
    | Some a \<Rightarrow> (\<exists>e \<in> set ops. is_syn e)
        \<and> (if input_ended (rcv_stream_out r)
           then unat (bytes_written (rcv_stream_out r)) = L \<and> unwrap a isn (bytes_written (rcv_stream_out r)) = of_nat L + 2
           else unwrap a isn (bytes_written (rcv_stream_out r)) = bytes_written (rcv_stream_out r) + 1)"
proof -
  have "rcv_inv S L isn (TCPReceiver_new cap) \<and> eof_inv L (rcv_reassembler (TCPReceiver_new cap))"
    using rcv_new_inv [OF assms(1)] by (simp add: TCPReceiver_new_def eof_inv_def StreamReassembler_new_def)
  from rcv_eof_sys.run_inv [OF this assms(2)]
  have r: "rcv_inv S L isn r" and e: "eof_inv L (rcv_reassembler r)" unfolding r_def by blast+
  have s: "rcv_isn_set r \<longleftrightarrow> (\<exists>e \<in> set ops. is_syn e)"
    by (simp add: r_def isn_set_run TCPReceiver_new_def)
  show ?thesis
  proof (cases "rcv_ackno r")
    case None
    then show ?thesis using s by (auto simp: rcv_ackno_def split: if_splits)
  next
    case (Some a)
    have L: "unat (bytes_written (rcv_stream_out r)) = L" if "input_ended (rcv_stream_out r)"
      using that e rcv_invD(5) [OF r] by (simp add: eof_inv_def input_ended_def rcv_stream_out_def)
    then have "bytes_written (rcv_stream_out r) = of_nat L" if "input_ended (rcv_stream_out r)"
      by (simp add: that flip: L)
    moreover have "rcv_isn_set r" using Some by (auto simp: rcv_ackno_def split: if_splits)
    ultimately show ?thesis
      using Some s ackno_absolute [OF r Some] L by (cases "input_ended (rcv_stream_out r)") simp_all
  qed
qed

text \<open>The last two bytes with the FIN arrive before the first byte.\<close>

definition wit_fin :: TCPSegment where
  "wit_fin = \<lparr>header = TCPHeader_new\<lparr>seqno := WrappingInt32 1, fin := True\<rparr>, payload = Buffer_of [5, 6]\<rparr>"

definition wit_first :: TCPSegment where
  "wit_first = \<lparr>header = TCPHeader_new\<lparr>seqno := WrappingInt32 0\<rparr>, payload = Buffer_of [4]\<rparr>"

lemma wit_fin_segments:
  "\<not> syn (header wit_fin)" "fin (header wit_fin)" "str (payload wit_fin) = [5, 6]" "seqno (header wit_fin) = WrappingInt32 1"
  "\<not> syn (header wit_first)" "\<not> fin (header wit_first)" "str (payload wit_first) = [4]" "seqno (header wit_first) = WrappingInt32 0"
  by (simp_all add: wit_fin_def wit_first_def TCPHeader_new_def fits_def)

theorem receiver_ackno_witness:
  "case rcv_ackno (run rcv_step [Deliver 0 wit_syn, Deliver 1 wit_fin, Deliver 0 wit_first] (TCPReceiver_new 8)) of
      None \<Rightarrow> False | Some a \<Rightarrow> unwrap a (WrappingInt32 0xFFFFFFFF) 3 = 5"
proof -
  let ?ops = "[Deliver 0 wit_syn, Deliver 1 wit_fin, Deliver 0 wit_first]"
  have o: "run_ok (rcv_eof_ok (\<lambda>i. 4 + of_nat i) 3 (WrappingInt32 0xFFFFFFFF)) rcv_step ?ops (TCPReceiver_new 8)"
    by (simp add: wit_segments wit_fin_segments seg_at_def in_reach_def eof_ok_def room_def rcv_eval)
  have "bytes_written (rcv_stream_out (run rcv_step ?ops (TCPReceiver_new 8))) = 3"
    "input_ended (rcv_stream_out (run rcv_step ?ops (TCPReceiver_new 8)))"
    by (simp_all add: wit_segments wit_fin_segments rcv_eval)
  then show ?thesis
    using receiver_ackno [OF _ o] by (auto simp: wit_segments split: option.splits)
qed

text \<open>
  C26. The window: it is the free room of the output stream, so the window and the bytes held for
  the reader add up to the capacity, and of a segment that starts at or before the
  acknowledgment point every byte inside the window is taken into the stream.
\<close>

theorem receiver_window:
  assumes "rcv_inv S L isn r" and "seg_at S L isn k seg" and "in_reach r k"
    and "syn (header seg) \<or> rcv_isn_set r" and "k \<le> unat (bytes_written (rcv_stream_out r))"
  shows "unat (rcv_window_size r) + length (bs_buf (rcv_stream_out r)) = unat (rcv_capacity r)
    \<and> min (k + length (str (payload seg))) (unat (bytes_written (rcv_stream_out r)) + unat (rcv_window_size r))
      \<le> unat (bytes_written (rcv_stream_out (rcv_segment_received r seg)))"
proof -
  note i = rcv_invD(1) [OF assms(1)] and p = rcv_segment_pushes [OF assms(1-4)]
  let ?d = "str (payload seg)" and ?r = "rcv_reassembler r"
  have L: "L < 2 ^ 64" using rcv_invD(2) [OF assms(1)] by linarith
  have m: "matches S L ?d (of_nat k)" using assms(2) L by (rule seg_at_matches)
  have "k \<le> L" using assms(2) by (simp add: seg_at_def)
  then have k: "unat (of_nat k :: u64) = k" using L by (intro unat_of_nat_u64) linarith
  have w: "bytes_written (rcv_stream_out r) = nextIndex ?r" by (rule rcv_invD(5) [OF assms(1)])
  have room: "unat (rcv_window_size r) = room (sr_output ?r)"
    using rcv_window(1) [OF assms(1)] by (simp add: room_def rcv_stream_out_def)
  show ?thesis
  proof (cases "unat (nextIndex ?r) < k + length ?d")
    case True
    have "of_nat k \<le> nextIndex ?r" using assms(5) unfolding w word_le_nat_alt k .
    from push_progress [OF i m this] True rcv_window(2) [OF assms(1)] show ?thesis
      unfolding w room p by (simp add: k rcv_stream_out_def)
  next
    case False
    have "advances ?r (push_substring ?r ?d (of_nat k) (fin (header seg)))" using i m by (rule push_spec(2))
    moreover have "sr_inv S L (push_substring ?r ?d (of_nat k) (fin (header seg)))" using i m by (rule push_spec(1))
    ultimately have "unat (nextIndex ?r) \<le> unat (bytes_written (rcv_stream_out (rcv_segment_received r seg)))"
      unfolding p by (simp add: advances_def rcv_stream_out_def bytes_written_def sr_invD(3) word_le_nat_alt)
    with False rcv_window(2) [OF assms(1)] show ?thesis by simp
  qed
qed

theorem receiver_window_witness:
  "0 \<le> unat (bytes_written (rcv_stream_out (rcv_segment_received (TCPReceiver_new 8) wit_syn)))
   \<and> unat (rcv_window_size (TCPReceiver_new 8)) + length (bs_buf (rcv_stream_out (TCPReceiver_new 8))) = 8"
proof -
  have "rcv_inv (\<lambda>i. 4 + of_nat i) 3 (WrappingInt32 0xFFFFFFFF) (TCPReceiver_new 8)"
    by (rule rcv_new_inv) simp
  moreover have "seg_at (\<lambda>i. 4 + of_nat i) 3 (WrappingInt32 0xFFFFFFFF) 0 wit_syn" "in_reach (TCPReceiver_new 8) 0"
    using wit_run_ok by (simp_all add: bare_ack_def wit_segments)
  ultimately show ?thesis
    using receiver_window [of "\<lambda>i. 4 + of_nat i" 3 "WrappingInt32 0xFFFFFFFF" "TCPReceiver_new 8" 0 wit_syn]
    by (simp add: wit_segments) (simp add: TCPReceiver_new_def)
qed

section \<open>Where the code departs from its documentation\<close>

text \<open>The initial sequence number is meant to be that of the first segment; every later SYN moves it.\<close>

lemma later_syn_moves_isn:
  "syn (header seg) \<Longrightarrow> rcv_isn (rcv_segment_received r seg) = seqno (header seg)"
  by (simp add: rcv_segment_received_def Let_def)

text \<open>
  An empty segment with a FIN that arrives early: after it and the first two of five bytes the acknowledgment number stands for
  absolute number 4, past the third byte, which has never arrived.
\<close>

definition early_fin :: TCPSegment where
  "early_fin = TCPSegment_new\<lparr>header := TCPHeader_new\<lparr>seqno := WrappingInt32 5, fin := True\<rparr>\<rparr>"

definition two_bytes :: TCPSegment where
  "two_bytes = \<lparr>header = TCPHeader_new\<lparr>seqno := WrappingInt32 0\<rparr>, payload = Buffer_of [0, 1]\<rparr>"

lemma early_fin_acknowledges_missing:
  "bytes_written (rcv_stream_out (run rcv_step [Deliver 0 wit_syn, Deliver 5 early_fin, Deliver 0 two_bytes] (TCPReceiver_new 8))) = 2
   \<and> rcv_ackno (run rcv_step [Deliver 0 wit_syn, Deliver 5 early_fin, Deliver 0 two_bytes] (TCPReceiver_new 8))
     = Some (wrap 4 (WrappingInt32 0xFFFFFFFF))"
proof -
  have "\<not> syn (header early_fin)" "fin (header early_fin)" "str (payload early_fin) = []" "seqno (header early_fin) = WrappingInt32 5"
    "\<not> syn (header two_bytes)" "\<not> fin (header two_bytes)" "str (payload two_bytes) = [0, 1]" "seqno (header two_bytes) = WrappingInt32 0"
    by (simp_all add: early_fin_def two_bytes_def TCPSegment_new_def TCPHeader_new_def fits_def)
  then show ?thesis by (simp add: wit_segments rcv_eval rcv_ackno_def)
qed

end
