(* ===== verification/Sender.thy ===== *)
theory Sender
  imports ByteStreams TCP_Segments
begin

text \<open>
  \<^verbatim>\<open>libsponge/tcp_sender.{hh,cc}\<close> with the retransmission timer \<open>RETimer\<close>, and the constants of
  \<^verbatim>\<open>tcp_helpers/tcp_config.hh\<close>. A \<open>std::queue\<close> is a list, front first. The random number
  that seeds the initial sequence number is an argument of the constructor.
\<close>

section \<open>Model\<close>

subsection \<open>Configuration\<close>

definition DEFAULT_CAPACITY :: u64 where
  "DEFAULT_CAPACITY = 64000"

definition MAX_PAYLOAD_SIZE :: u64 where
  "MAX_PAYLOAD_SIZE = 1452"

definition TIMEOUT_DFLT :: u16 where
  "TIMEOUT_DFLT = 1000"

definition MAX_RETX_ATTEMPTS :: u32 where
  "MAX_RETX_ATTEMPTS = 8"

record TCPConfig =
  rt_timeout :: u16
  recv_capacity :: u64
  send_capacity :: u64
  fixed_isn :: "WrappingInt32 option"

definition TCPConfig_new :: TCPConfig where
  "TCPConfig_new = \<lparr>rt_timeout = TIMEOUT_DFLT, recv_capacity = DEFAULT_CAPACITY,
     send_capacity = DEFAULT_CAPACITY, fixed_isn = None\<rparr>"

subsection \<open>The retransmission timer\<close>

record RETimer =
  rto :: u32
  tm_time :: u32
  isRunning :: bool

definition RETimer_new :: "u32 \<Rightarrow> RETimer" where
  "RETimer_new initial_retrans_timeout = \<lparr>rto = initial_retrans_timeout, tm_time = 0, isRunning = True\<rparr>"

definition passTime :: "u32 \<Rightarrow> RETimer \<Rightarrow> RETimer" where
  "passTime passedTime t =
     (if \<not> isRunning t then t
      else
        let t = t\<lparr>tm_time := tm_time t + passedTime\<rparr>
        in if rto t \<le> tm_time t then t\<lparr>isRunning := False, tm_time := 0\<rparr> else t)"

definition doubleRTO :: "RETimer \<Rightarrow> RETimer" where
  "doubleRTO t = t\<lparr>rto := rto t * 2\<rparr>"

definition resetTime :: "RETimer \<Rightarrow> RETimer" where
  "resetTime t = t\<lparr>tm_time := 0\<rparr>"

definition resetRTO :: "u32 \<Rightarrow> RETimer \<Rightarrow> RETimer" where
  "resetRTO initial_retrans_timeout t = t\<lparr>rto := initial_retrans_timeout\<rparr>"

definition timer_start :: "RETimer \<Rightarrow> RETimer" where
  "timer_start t = t\<lparr>isRunning := True\<rparr>"

subsection \<open>The sender\<close>

record TCPSender =
  snd_isn :: WrappingInt32
  segments_out :: "TCPSegment list"
  initial_retransmission_timeout :: u32
  snd_stream :: ByteStream
  next_seqno :: u64
  outSegments :: "TCPSegment list"
  bytes_in_flight :: u64
  ackGot :: WrappingInt32
  true_window_size :: u16
  consecutive_retransmission :: u16
  fin_flag :: bool
  syn_flag :: bool
  timer :: RETimer

definition TCPSender_new :: "u64 \<Rightarrow> u16 \<Rightarrow> WrappingInt32 option \<Rightarrow> u32 \<Rightarrow> TCPSender" where
  "TCPSender_new capacity retx_timeout fixed random =
     (let isn = (case fixed of Some i \<Rightarrow> i | None \<Rightarrow> WrappingInt32 random)
      in \<lparr>snd_isn = isn, segments_out = [], initial_retransmission_timeout = ucast retx_timeout,
          snd_stream = ByteStream_new capacity, next_seqno = 0, outSegments = [], bytes_in_flight = 0,
          ackGot = WrappingInt32 (raw_value isn), true_window_size = 0, consecutive_retransmission = 0,
          fin_flag = False, syn_flag = False, timer = RETimer_new (ucast retx_timeout)\<rparr>)"

definition sendSegment :: "TCPSegment \<Rightarrow> TCPSender \<Rightarrow> TCPSender" where
  "sendSegment segment s =
     s\<lparr>segments_out := segments_out s @ [segment],
       outSegments := outSegments s @ [segment],
       next_seqno := next_seqno s + length_in_sequence_space segment,
       bytes_in_flight := bytes_in_flight s + length_in_sequence_space segment,
       timer := (if \<not> isRunning (timer s) then timer_start (resetTime (timer s)) else timer s)\<rparr>"

text \<open>The window space left; the subtraction is on \<open>unsigned int\<close>.\<close>

definition remain :: "TCPSender \<Rightarrow> u64" where
  "remain s = ucast (ucast (true_window_size s) - (raw_value (wrap (next_seqno s) (snd_isn s)) - raw_value (ackGot s)) :: u32)"

text \<open>One iteration of the loop: the segment built from the stream, and the state after reading.\<close>

definition next_segment :: "TCPSender \<Rightarrow> TCPSegment \<times> TCPSender" where
  "next_segment s =
     (let dataLen = min (remain s) MAX_PAYLOAD_SIZE;
          (stream, data) = ByteStream_read (snd_stream s) dataLen;
          segment = TCPSegment_new\<lparr>header := TCPHeader_new\<lparr>seqno := wrap (next_seqno s) (snd_isn s)\<rparr>,
                                   payload := Buffer_of data\<rparr>
      in if ByteStream_eof stream \<and> length_in_sequence_space segment + 1 \<le> remain s
         then (segment\<lparr>header := (header segment)\<lparr>fin := True\<rparr>\<rparr>, s\<lparr>snd_stream := stream, fin_flag := True\<rparr>)
         else (segment, s\<lparr>snd_stream := stream\<rparr>))"

lemma next_segment_measure:
  assumes "next_segment s = (seg, s')" "length_in_sequence_space seg \<noteq> 0" "\<not> fin_flag s"
  shows "length (bs_buf (snd_stream s')) + (if fin_flag s' then 0 else 1) < length (bs_buf (snd_stream s)) + 1"
proof -
  obtain stream data where r: "ByteStream_read (snd_stream s) (min (remain s) MAX_PAYLOAD_SIZE) = (stream, data)"
    by (cases "ByteStream_read (snd_stream s) (min (remain s) MAX_PAYLOAD_SIZE)")
  have b: "length (bs_buf stream) \<le> length (bs_buf (snd_stream s))"
    "data \<noteq> [] \<Longrightarrow> length (bs_buf stream) < length (bs_buf (snd_stream s))"
    using r by (auto simp: ByteStream_read_def Let_def peek_output_def pop_output_def substr_def)
  have "data \<noteq> [] \<or> fin_flag s'"
    using assms r by (auto simp: next_segment_def Let_def length_in_sequence_space_def TCPSegment_new_def
        TCPHeader_new_def str_def Buffer_of_def substr_def split: if_splits)
  moreover have "snd_stream s' = stream" using assms(1) r by (auto simp: next_segment_def Let_def split: if_splits)
  ultimately show ?thesis using b by auto
qed

text \<open>The loop; the flag says that it was left by the \<open>return\<close> in its body.\<close>

function fill_loop :: "TCPSender \<Rightarrow> TCPSender \<times> bool" where
  "fill_loop s =
     (if remain s = 0 \<or> fin_flag s then (s, False)
      else
        case next_segment s of (segment, s) \<Rightarrow>
          if length_in_sequence_space segment = 0 then (s, True)
          else fill_loop (sendSegment segment s))"
  by auto
termination
proof (relation "measure (\<lambda>s. length (bs_buf (snd_stream s)) + (if fin_flag s then 0 else 1))", goal_cases)
  case (2 s seg s')
  then show ?case using next_segment_measure [of s seg s'] by (simp add: sendSegment_def)
qed simp

declare fill_loop.simps [simp del]

definition fill_window :: "TCPSender \<Rightarrow> TCPSender" where
  "fill_window s =
     (if fin_flag s then s
      else if \<not> syn_flag s
      then sendSegment (TCPSegment_new\<lparr>header := TCPHeader_new\<lparr>seqno := wrap (next_seqno s) (snd_isn s), syn := True\<rparr>\<rparr>)
             (s\<lparr>syn_flag := True\<rparr>)
      else
        let zero_flag = (true_window_size s = 0);
            s = (if zero_flag then s\<lparr>true_window_size := 1\<rparr> else s)
        in case fill_loop s of (s, returned) \<Rightarrow>
             if returned then s
             else if zero_flag then s\<lparr>true_window_size := 0\<rparr> else s)"

text \<open>The loop of \<open>ack_received\<close>: sequence numbers are compared as raw values, the end of a segment in 64 bits.\<close>

function drop_acked :: "WrappingInt32 \<Rightarrow> TCPSender \<Rightarrow> TCPSender" where
  "drop_acked a s =
     (case outSegments s of
        [] \<Rightarrow> s
      | segment # rest \<Rightarrow>
          if ucast (raw_value (seqno (header segment))) + length_in_sequence_space segment \<le> ucast (raw_value a)
          then drop_acked a (s\<lparr>bytes_in_flight := bytes_in_flight s - length_in_sequence_space segment,
                               outSegments := rest\<rparr>)
          else s)"
  by auto
termination
  by (relation "measure (\<lambda>(a, s). length (outSegments s))") simp_all

declare drop_acked.simps [simp del]

definition ack_received :: "WrappingInt32 \<Rightarrow> u16 \<Rightarrow> TCPSender \<Rightarrow> TCPSender" where
  "ack_received a window_size s =
     (if raw_value (wrap (next_seqno s) (snd_isn s)) < raw_value a then s
      else
        let s = drop_acked a s;
            s = (if raw_value (ackGot s) < raw_value a
                 then
                   let t = resetRTO (initial_retransmission_timeout s) (resetTime (timer s));
                       t = (if outSegments s \<noteq> [] then timer_start t else t)
                   in s\<lparr>ackGot := a, timer := t, consecutive_retransmission := 0\<rparr>
                 else s)
        in fill_window (s\<lparr>true_window_size := window_size\<rparr>))"

definition snd_tick :: "u64 \<Rightarrow> TCPSender \<Rightarrow> TCPSender" where
  "snd_tick ms_since_last_tick s =
     (let s = s\<lparr>timer := passTime (ucast ms_since_last_tick) (timer s)\<rparr>
      in if isRunning (timer s) then s
         else case outSegments s of
             [] \<Rightarrow> s
           | segment # rest \<Rightarrow>
               let s = s\<lparr>segments_out := segments_out s @ [segment]\<rparr>;
                   s = (if true_window_size s \<noteq> 0 \<or> next_seqno s = 1
                        then s\<lparr>consecutive_retransmission := consecutive_retransmission s + 1,
                               timer := doubleRTO (timer s)\<rparr>
                        else s)
               in s\<lparr>timer := timer_start (resetTime (timer s))\<rparr>)"

definition consecutive_retransmissions :: "TCPSender \<Rightarrow> u32" where
  "consecutive_retransmissions s = ucast (consecutive_retransmission s)"

definition send_empty_segment :: "TCPSender \<Rightarrow> TCPSender" where
  "send_empty_segment s = sendSegment TCPSegment_new s"

section \<open>Lemmas on the operations\<close>

lemma send_fields [simp]:
  "segments_out (sendSegment seg s) = segments_out s @ [seg]"
  "outSegments (sendSegment seg s) = outSegments s @ [seg]"
  "next_seqno (sendSegment seg s) = next_seqno s + length_in_sequence_space seg"
  "bytes_in_flight (sendSegment seg s) = bytes_in_flight s + length_in_sequence_space seg"
  "snd_isn (sendSegment seg s) = snd_isn s" "snd_stream (sendSegment seg s) = snd_stream s"
  "ackGot (sendSegment seg s) = ackGot s" "true_window_size (sendSegment seg s) = true_window_size s"
  "fin_flag (sendSegment seg s) = fin_flag s" "syn_flag (sendSegment seg s) = syn_flag s"
  "consecutive_retransmission (sendSegment seg s) = consecutive_retransmission s"
  "initial_retransmission_timeout (sendSegment seg s) = initial_retransmission_timeout s"
  "isRunning (timer (sendSegment seg s))" "rto (timer (sendSegment seg s)) = rto (timer s)"
  by (simp_all add: sendSegment_def timer_start_def resetTime_def)

lemma empty_segment [simp]:
  "length_in_sequence_space TCPSegment_new = 0" "str (payload TCPSegment_new) = []"
  "\<not> syn (header TCPSegment_new)" "\<not> fin (header TCPSegment_new)"
  by (simp_all add: length_in_sequence_space_def TCPSegment_new_def TCPHeader_new_def)

text \<open>What one iteration builds: at most \<open>MAX_PAYLOAD_SIZE\<close> and at most the window of the next bytes.\<close>

lemma next_segment_spec:
  assumes n: "next_segment s = (seg, s')" and i: "bs_inv (snd_stream s)"
  defines "st \<equiv> snd_stream s" and "st' \<equiv> snd_stream s'"
  shows "bs_inv st'" and "bs_buf st = str (payload seg) @ bs_buf st'"
    and "bs_read_count st' = bs_read_count st + sz (str (payload seg))"
    and "s' = s\<lparr>snd_stream := st', fin_flag := fin_flag s'\<rparr>"
    and "st' = fst (ByteStream_read st (min (remain s) MAX_PAYLOAD_SIZE))"
    and "length (str (payload seg)) = min (min (unat (remain s)) 1452) (length (bs_buf st))"
    and "seqno (header seg) = wrap (next_seqno s) (snd_isn s)" "\<not> syn (header seg)"
    and "fin_flag s' \<longleftrightarrow> fin_flag s \<or> fin (header seg)"
    and "fin (header seg) \<longleftrightarrow> ByteStream_eof st' \<and> sz (str (payload seg)) + 1 \<le> remain s"
    and "length_in_sequence_space seg = sz (str (payload seg)) + (if fin (header seg) then 1 else 0)"
    and "buf_inv (payload seg)" "doff (header seg) = 5"
proof -
  obtain stream data where r: "ByteStream_read st (min (remain s) MAX_PAYLOAD_SIZE) = (stream, data)"
    by (cases "ByteStream_read st (min (remain s) MAX_PAYLOAD_SIZE)")
  have d: "data = take (unat (min (remain s) MAX_PAYLOAD_SIZE)) (bs_buf st)"
    "bs_buf st = data @ bs_buf stream" "bs_inv stream" "bs_read_count stream = bs_read_count st + sz data"
    using read_state(2) read_buf bs_inv_read read_counts i r unfolding st_def by (metis fst_conv snd_conv)+
  have f: "fits data" unfolding d(1) using bs_inv_fits [OF i [folded st_def]] by (rule fits_take)
  have p: "str (payload seg) = data" and st': "st' = stream"
    using n r f by (auto simp: next_segment_def st_def st'_def Let_def split: if_splits)
  have len: "length data = min (min (unat (remain s)) 1452) (length (bs_buf st))"
    unfolding d(1) by (simp add: min_def word_le_nat_alt MAX_PAYLOAD_SIZE_def)
  show "bs_inv st'" "bs_buf st = str (payload seg) @ bs_buf st'"
    "bs_read_count st' = bs_read_count st + sz (str (payload seg))"
    "st' = fst (ByteStream_read st (min (remain s) MAX_PAYLOAD_SIZE))"
    "length (str (payload seg)) = min (min (unat (remain s)) 1452) (length (bs_buf st))"
    using d(2-4) len r p st' by simp_all
  show "s' = s\<lparr>snd_stream := st', fin_flag := fin_flag s'\<rparr>" "seqno (header seg) = wrap (next_seqno s) (snd_isn s)"
    "\<not> syn (header seg)" "fin_flag s' \<longleftrightarrow> fin_flag s \<or> fin (header seg)"
    using n r by (auto simp: next_segment_def st_def st'_def Let_def TCPHeader_new_def split: if_splits)
  show "fin (header seg) \<longleftrightarrow> ByteStream_eof st' \<and> sz (str (payload seg)) + 1 \<le> remain s"
    "length_in_sequence_space seg = sz (str (payload seg)) + (if fin (header seg) then 1 else 0)"
    using n r f unfolding p st'
    by (auto simp: next_segment_def st_def st'_def Let_def TCPHeader_new_def length_in_sequence_space_def split: if_splits)
  show "buf_inv (payload seg)" "doff (header seg) = 5"
    using n r f by (auto simp: next_segment_def st_def st'_def Let_def TCPHeader_new_def TCPHeader_LENGTH_def split: if_splits)
qed

section \<open>Elementary moves\<close>

text \<open>
  Every operation of the sender is a sequence of these moves, so an invariant is proved once per
  move. The last one is the owner taking a segment off the outbound queue.
\<close>

definition syn_segment :: "TCPSender \<Rightarrow> TCPSegment" where
  "syn_segment s = TCPSegment_new\<lparr>header := TCPHeader_new\<lparr>seqno := wrap (next_seqno s) (snd_isn s), syn := True\<rparr>\<rparr>"

inductive snd_move :: "TCPSender \<Rightarrow> TCPSender \<Rightarrow> bool" where
  read_send: "syn_flag s \<Longrightarrow> \<not> fin_flag s \<Longrightarrow> remain s \<noteq> 0 \<Longrightarrow> next_segment s = (seg, s') \<Longrightarrow>
    length_in_sequence_space seg \<noteq> 0 \<Longrightarrow> snd_move s (sendSegment seg s')"
| read_idle: "syn_flag s \<Longrightarrow> \<not> fin_flag s \<Longrightarrow> remain s \<noteq> 0 \<Longrightarrow> next_segment s = (seg, s') \<Longrightarrow>
    length_in_sequence_space seg = 0 \<Longrightarrow> snd_move s s'"
| send_syn: "\<not> fin_flag s \<Longrightarrow> \<not> syn_flag s \<Longrightarrow> snd_move s (sendSegment (syn_segment s) (s\<lparr>syn_flag := True\<rparr>))"
| send_empty: "snd_move s (sendSegment TCPSegment_new s)"
| window: "snd_move s (s\<lparr>true_window_size := w\<rparr>)"
| acked: "outSegments s = seg # rest \<Longrightarrow>
    snd_move s (s\<lparr>bytes_in_flight := bytes_in_flight s - length_in_sequence_space seg, outSegments := rest\<rparr>)"
| new_ack: "(outSegments s \<noteq> [] \<Longrightarrow> isRunning t) \<Longrightarrow>
    snd_move s (s\<lparr>ackGot := a, timer := t, consecutive_retransmission := 0\<rparr>)"
| time: "(outSegments s \<noteq> [] \<Longrightarrow> isRunning t) \<Longrightarrow> snd_move s (s\<lparr>timer := t\<rparr>)"
| retransmit: "outSegments s = seg # rest \<Longrightarrow> isRunning t \<Longrightarrow>
    snd_move s (s\<lparr>segments_out := segments_out s @ [seg], consecutive_retransmission := n, timer := t\<rparr>)"
| transmit: "segments_out s = seg # rest \<Longrightarrow> snd_move s (s\<lparr>segments_out := rest\<rparr>)"

abbreviation snd_moves :: "TCPSender \<Rightarrow> TCPSender \<Rightarrow> bool" where
  "snd_moves \<equiv> snd_move\<^sup>*\<^sup>*"

lemma next_segment_flags:
  "next_segment s = (seg, s') \<Longrightarrow> syn_flag s' = syn_flag s \<and> outSegments s' = outSegments s \<and> timer s' = timer s"
  by (auto simp: next_segment_def Let_def split: if_splits prod.splits)

lemma fill_loop_moves: "syn_flag s \<Longrightarrow> snd_moves s (fst (fill_loop s))"
proof (induction s rule: fill_loop.induct)
  case (1 s)
  obtain seg s' where n: "next_segment s = (seg, s')" by (cases "next_segment s")
  show ?case
  proof (cases "remain s = 0 \<or> fin_flag s")
    case True
    then show ?thesis by (simp add: fill_loop.simps [of s])
  next
    case False
    show ?thesis
    proof (cases "length_in_sequence_space seg = 0")
      case True
      then show ?thesis using False n "1.prems" read_idle [of s seg s'] by (simp add: fill_loop.simps [of s])
    next
      case l: False
      have "snd_move s (sendSegment seg s')" using False n l "1.prems" by (intro read_send) auto
      moreover have "snd_moves (sendSegment seg s') (fst (fill_loop (sendSegment seg s')))"
        using "1.IH" [OF False n [symmetric] l] next_segment_flags [OF n] "1.prems" by simp
      ultimately show ?thesis using False n l by (simp add: fill_loop.simps [of s] converse_rtranclp_into_rtranclp)
    qed
  qed
qed

lemma fill_window_moves: "snd_moves s (fill_window s)"
proof (cases "fin_flag s \<or> \<not> syn_flag s")
  case True
  then show ?thesis using send_syn [of s] by (auto simp: fill_window_def syn_segment_def)
next
  case False
  define s1 where "s1 = (if true_window_size s = 0 then s\<lparr>true_window_size := 1\<rparr> else s)"
  obtain s2 b where l: "fill_loop s1 = (s2, b)" by (cases "fill_loop s1")
  have "snd_moves s s1" using window [of s 1] by (auto simp: s1_def)
  also have "snd_moves s1 s2" using fill_loop_moves [of s1] False l by (simp add: s1_def)
  also have "snd_moves s2 (fill_window s)"
    using False l window [of s2 0] by (auto simp: fill_window_def Let_def s1_def split: if_splits)
  finally show ?thesis .
qed

lemma drop_acked_moves: "snd_moves s (drop_acked a s)"
proof (induction a s rule: drop_acked.induct)
  case (1 a s)
  then show ?case
    by (subst drop_acked.simps) (auto split: list.split intro: acked converse_rtranclp_into_rtranclp)
qed

lemma ack_received_moves: "snd_moves s (ack_received a w s)"
proof (cases "raw_value (wrap (next_seqno s) (snd_isn s)) < raw_value a")
  case False
  let ?s = "drop_acked a s"
  let ?t = "resetRTO (initial_retransmission_timeout ?s) (resetTime (timer ?s))"
  let ?t = "if outSegments ?s \<noteq> [] then timer_start ?t else ?t"
  define s1 where "s1 = (if raw_value (ackGot ?s) < raw_value a
    then ?s\<lparr>ackGot := a, timer := ?t, consecutive_retransmission := 0\<rparr> else ?s)"
  have "snd_moves ?s s1" using new_ack [of ?s ?t a] by (auto simp: s1_def timer_start_def)
  with drop_acked_moves [of s a] have "snd_moves s s1" by simp
  also have "snd_moves s1 (s1\<lparr>true_window_size := w\<rparr>)" by (blast intro: window)
  also note fill_window_moves
  finally show ?thesis by (simp only: ack_received_def s1_def Let_def False if_False)
qed (simp add: ack_received_def)

lemma snd_tick_moves: "snd_moves s (snd_tick ms s)"
proof -
  let ?t = "passTime (ucast ms) (timer s)"
  have r: "isRunning (timer_start t)" for t by (simp add: timer_start_def)
  show ?thesis
  proof (cases "isRunning ?t \<or> outSegments s = []")
    case True
    then show ?thesis using time [of s ?t] by (auto simp: snd_tick_def Let_def split: list.splits)
  next
    case False
    then obtain seg rest where o: "outSegments s = seg # rest" by (cases "outSegments s") auto
    then have "snd_tick ms s = s\<lparr>segments_out := segments_out s @ [seg],
        consecutive_retransmission := consecutive_retransmission (snd_tick ms s), timer := timer (snd_tick ms s)\<rparr>"
      and "isRunning (timer (snd_tick ms s))"
      using False r by (auto simp: snd_tick_def Let_def)
    then show ?thesis using retransmit [OF o] by (metis r_into_rtranclp)
  qed
qed

end
