(* ===== verification/Sender_Safety.thy ===== *)
theory Sender_Safety
  imports Sender
begin

text \<open>
  The invariant of the sender: what it has sent are pieces of the outgoing stream at their sequence
  numbers, the outstanding segments are contiguous up to \<open>next_seqno\<close> and are counted by
  \<open>bytes_in_flight\<close>, and the timer runs while anything is outstanding. It is proved once per
  elementary move and lifted to runs by the locale \<^verbatim>\<open>sender_invariant\<close>.
\<close>

section \<open>The invariant\<close>

definition seg_len :: "TCPSegment \<Rightarrow> nat" where
  "seg_len seg = unat (length_in_sequence_space seg)"

definition in_flight :: "TCPSender \<Rightarrow> nat" where
  "in_flight s = (\<Sum>seg \<leftarrow> outSegments s. seg_len seg)"

text \<open>Segments that occupy sequence space follow one another from the absolute number \<open>n\<close> on.\<close>

fun contiguous :: "WrappingInt32 \<Rightarrow> nat \<Rightarrow> TCPSegment list \<Rightarrow> bool" where
  "contiguous isn n [] \<longleftrightarrow> True"
| "contiguous isn n (seg # segs) \<longleftrightarrow>
     (seg_len seg \<noteq> 0 \<longrightarrow> seqno (header seg) = wrap (of_nat n) isn) \<and> contiguous isn (n + seg_len seg) segs"

text \<open>
  A segment the sender may emit for the stream \<open>S\<close> of length \<open>L\<close>: a piece of it, with its SYN or FIN,
  or an empty segment; never longer than the maximal payload, with a plain header.
\<close>

definition sent_ok :: "(nat \<Rightarrow> byte) \<Rightarrow> nat \<Rightarrow> WrappingInt32 \<Rightarrow> TCPSegment \<Rightarrow> bool" where
  "sent_ok S L isn seg \<longleftrightarrow> buf_inv (payload seg) \<and> length (str (payload seg)) \<le> unat MAX_PAYLOAD_SIZE
     \<and> doff (header seg) = 5 \<and> (seg = TCPSegment_new \<or> seg_len seg \<noteq> 0 \<and> (\<exists>k. seg_at S L isn k seg))"

definition snd_data :: "(nat \<Rightarrow> byte) \<Rightarrow> nat \<Rightarrow> TCPSender \<Rightarrow> bool" where
  "snd_data S L s \<longleftrightarrow> bs_holds S (snd_stream s) \<and> L < 2 ^ 64 - 2 ^ 32
     \<and> unat (bs_write_count (snd_stream s)) \<le> L
     \<and> (bs_is_eof (snd_stream s) \<longrightarrow> unat (bs_write_count (snd_stream s)) = L)
     \<and> unat (next_seqno s) = (if syn_flag s then 1 else 0) + unat (bs_read_count (snd_stream s)) + (if fin_flag s then 1 else 0)
     \<and> (fin_flag s \<longrightarrow> syn_flag s \<and> bs_is_eof (snd_stream s) \<and> bs_buf (snd_stream s) = [])
     \<and> (\<not> syn_flag s \<longrightarrow> bs_read_count (snd_stream s) = 0)"

definition snd_acct :: "TCPSender \<Rightarrow> bool" where
  "snd_acct s \<longleftrightarrow> in_flight s \<le> unat (next_seqno s) \<and> bytes_in_flight s = of_nat (in_flight s)
     \<and> contiguous (snd_isn s) (unat (next_seqno s) - in_flight s) (outSegments s)"

definition snd_sent :: "(nat \<Rightarrow> byte) \<Rightarrow> nat \<Rightarrow> TCPSender \<Rightarrow> bool" where
  "snd_sent S L s \<longleftrightarrow> (\<forall>seg \<in> set (segments_out s) \<union> set (outSegments s). sent_ok S L (snd_isn s) seg)"

definition snd_live :: "TCPSender \<Rightarrow> bool" where
  "snd_live s \<longleftrightarrow> (outSegments s \<noteq> [] \<longrightarrow> isRunning (timer s))"

definition snd_inv :: "(nat \<Rightarrow> byte) \<Rightarrow> nat \<Rightarrow> TCPSender \<Rightarrow> bool" where
  "snd_inv S L s \<longleftrightarrow> snd_data S L s \<and> snd_acct s \<and> snd_sent S L s \<and> snd_live s"

lemmas snd_inv_defs = snd_inv_def snd_data_def snd_acct_def snd_sent_def snd_live_def

lemma snd_new_fields [simp]:
  "snd_stream (TCPSender_new cap timeout fixed random) = ByteStream_new cap"
  "snd_isn (TCPSender_new cap timeout (Some isn) random) = isn"
  by (simp_all add: TCPSender_new_def Let_def)

lemma snd_inv_new: "L < 2 ^ 64 - 2 ^ 32 \<Longrightarrow> snd_inv S L (TCPSender_new cap timeout fixed random)"
  by (simp add: snd_inv_defs TCPSender_new_def Let_def in_flight_def)

text \<open>The stream never reaches the end of the 64-bit range.\<close>

lemma next_seqno_bound:
  assumes "snd_data S L s"
  shows "unat (next_seqno s) \<le> L + 2" and "unat (bs_read_count (snd_stream s)) + length (bs_buf (snd_stream s)) \<le> L"
  using assms by (auto simp: snd_data_def bs_holds_def)

lemma contiguous_append:
  "contiguous isn n (xs @ ys) \<longleftrightarrow> contiguous isn n xs \<and> contiguous isn (n + (\<Sum>seg \<leftarrow> xs. seg_len seg)) ys"
  by (induction xs arbitrary: n) (auto simp: add.assoc)

section \<open>Moves\<close>

text \<open>Which fields the parts of the invariant read.\<close>

lemma data_frame [simp]:
  "snd_data S L (s\<lparr>true_window_size := w\<rparr>) = snd_data S L s" "snd_data S L (s\<lparr>ackGot := a\<rparr>) = snd_data S L s"
  "snd_data S L (s\<lparr>timer := t\<rparr>) = snd_data S L s" "snd_data S L (s\<lparr>consecutive_retransmission := n\<rparr>) = snd_data S L s"
  "snd_data S L (s\<lparr>segments_out := q\<rparr>) = snd_data S L s" "snd_data S L (s\<lparr>outSegments := q\<rparr>) = snd_data S L s"
  "snd_data S L (s\<lparr>bytes_in_flight := f\<rparr>) = snd_data S L s"
  by (simp_all add: snd_data_def)

lemma acct_frame [simp]:
  "snd_acct (s\<lparr>true_window_size := w\<rparr>) = snd_acct s" "snd_acct (s\<lparr>ackGot := a\<rparr>) = snd_acct s"
  "snd_acct (s\<lparr>timer := t\<rparr>) = snd_acct s" "snd_acct (s\<lparr>consecutive_retransmission := n\<rparr>) = snd_acct s"
  "snd_acct (s\<lparr>segments_out := q\<rparr>) = snd_acct s" "snd_acct (s\<lparr>syn_flag := b\<rparr>) = snd_acct s"
  "snd_acct (s\<lparr>snd_stream := st\<rparr>) = snd_acct s"
  by (simp_all add: snd_acct_def in_flight_def)

lemma sent_frame [simp]:
  "snd_sent S L (s\<lparr>true_window_size := w\<rparr>) = snd_sent S L s" "snd_sent S L (s\<lparr>ackGot := a\<rparr>) = snd_sent S L s"
  "snd_sent S L (s\<lparr>timer := t\<rparr>) = snd_sent S L s" "snd_sent S L (s\<lparr>consecutive_retransmission := n\<rparr>) = snd_sent S L s"
  "snd_sent S L (s\<lparr>syn_flag := b\<rparr>) = snd_sent S L s" "snd_sent S L (s\<lparr>bytes_in_flight := f\<rparr>) = snd_sent S L s"
  "snd_sent S L (s\<lparr>snd_stream := st\<rparr>) = snd_sent S L s"
  by (simp_all add: snd_sent_def)

lemma live_frame [simp]:
  "snd_live (s\<lparr>true_window_size := w\<rparr>) = snd_live s" "snd_live (s\<lparr>segments_out := q\<rparr>) = snd_live s"
  "snd_live (s\<lparr>snd_stream := st\<rparr>) = snd_live s"
  by (simp_all add: snd_live_def)


lemma acct_send:
  assumes "snd_acct s" and "seg_len seg \<noteq> 0 \<Longrightarrow> seqno (header seg) = wrap (next_seqno s) (snd_isn s)"
    and "unat (next_seqno s) + seg_len seg < 2 ^ 64"
  shows "snd_acct (sendSegment seg s)"
proof -
  have "unat (next_seqno s + length_in_sequence_space seg) = unat (next_seqno s) + seg_len seg"
    using assms(3) unfolding seg_len_def by (rule unat_add_u64)
  then show ?thesis
    using assms(1,2) by (auto simp: snd_acct_def in_flight_def contiguous_append seg_len_def)
qed

lemma sent_send: "snd_sent S L s \<Longrightarrow> sent_ok S L (snd_isn s) seg \<Longrightarrow> snd_sent S L (sendSegment seg s)"
  by (auto simp: snd_sent_def)

lemma live_send [simp]: "snd_live (sendSegment seg s)"
  by (simp add: snd_live_def)

text \<open>Reading the next piece of the stream.\<close>

lemma read_move:
  assumes i: "snd_inv S L s" and f: "syn_flag s" "\<not> fin_flag s" and n: "next_segment s = (seg, s')"
  shows "snd_acct s'" "snd_sent S L s'" "snd_live s'" "next_seqno s' = next_seqno s" "snd_isn s' = snd_isn s"
    and "seg_len seg = length (str (payload seg)) + (if fin (header seg) then 1 else 0)"
    and "unat (bs_read_count (snd_stream s')) = unat (bs_read_count (snd_stream s)) + length (str (payload seg))"
    and "bs_holds S (snd_stream s')" "bs_write_count (snd_stream s') = bs_write_count (snd_stream s)"
    "bs_is_eof (snd_stream s') = bs_is_eof (snd_stream s)"
    and "seg_len seg \<noteq> 0 \<Longrightarrow> sent_ok S L (snd_isn s) seg"
proof -
  note d = i [unfolded snd_inv_def, THEN conjunct1, unfolded snd_data_def]
  have h: "bs_holds S (snd_stream s)" using d by blast
  note x = next_segment_spec [OF n bs_holds_inv [OF h]]
  note b = next_seqno_bound [OF i [unfolded snd_inv_def, THEN conjunct1]]
  have s': "s' = s\<lparr>snd_stream := snd_stream s', fin_flag := fin_flag s'\<rparr>" by (rule x(4))
  show fr: "next_seqno s' = next_seqno s" "snd_isn s' = snd_isn s" "snd_acct s'" "snd_sent S L s'" "snd_live s'"
    using i by (subst s', simp add: snd_inv_defs in_flight_def)+
  let ?d = "str (payload seg)"
  have len: "length ?d \<le> length (bs_buf (snd_stream s))" "length ?d \<le> 1452" using x(6) by simp_all
  have fits: "fits ?d" using x(2) bs_inv_fits [OF bs_holds_inv [OF h]] by (simp add: fits_def)
  show hs: "bs_holds S (snd_stream s')" using bs_holds_read [OF h] x(5) by simp
  show w: "bs_write_count (snd_stream s') = bs_write_count (snd_stream s)"
    "bs_is_eof (snd_stream s') = bs_is_eof (snd_stream s)" using x(5) by simp_all
  have L: "L < 2 ^ 64 - 2 ^ 32" using d by blast
  have "unat (bs_read_count (snd_stream s)) + unat (sz ?d) < 2 ^ 64"
    using fits b(2) len(1) L by simp
  from unat_add_u64 [OF this] show rc: "unat (bs_read_count (snd_stream s')) = unat (bs_read_count (snd_stream s)) + length ?d"
    using fits by (simp add: x(3))
  have "unat (sz ?d) + 1 < 2 ^ 64" using fits len(2) by simp
  from unat_Suc_u64 [OF this] show sl: "seg_len seg = length ?d + (if fin (header seg) then 1 else 0)"
    using fits by (simp add: seg_len_def x(11))
  let ?k = "unat (bs_read_count (snd_stream s))"
  have "?d = map S [?k..<?k + length ?d]" using h x(2) by (rule bs_holds_front)
  moreover have "next_seqno s = of_nat ?k + 1"
  proof (rule u64_eqI)
    have "?k + 1 < 2 ^ 64" using b(2) L by simp
    then show "unat (next_seqno s) = unat (of_nat ?k + 1 :: u64)" using d f unat_Suc_u64 [of "bs_read_count (snd_stream s)"] by simp
  qed
  moreover have "?k + length ?d = L" if "fin (header seg)"
  proof -
    have "bs_is_eof (snd_stream s')" "bs_buf (snd_stream s') = []"
      using that bs_inv_fits [OF x(1)] unfolding x(10) by (simp_all add: ByteStream_eof_def input_ended_def buffer_empty_def buffer_size_def)
    then have "unat (bs_read_count (snd_stream s')) = unat (bs_write_count (snd_stream s'))" "unat (bs_write_count (snd_stream s)) = L"
      using hs d w(2) by (auto simp: bs_holds_def)
    then show ?thesis using rc w(1) by simp
  qed
  ultimately have "seg_at S L (snd_isn s) ?k seg" using x(7,8) len(1) b(2) by (simp add: seg_at_def)
  then show "sent_ok S L (snd_isn s) seg" if "seg_len seg \<noteq> 0"
    using that x(12,13) len(2) by (auto simp: sent_ok_def MAX_PAYLOAD_SIZE_def)
qed

lemma read_data:
  assumes i: "snd_inv S L s" and f: "syn_flag s" "\<not> fin_flag s" and n: "next_segment s = (seg, s')"
  shows "fin (header seg) \<Longrightarrow> bs_is_eof (snd_stream s') \<and> bs_buf (snd_stream s') = []"
    and "syn_flag s' = syn_flag s" "fin_flag s' = fin (header seg)"
proof -
  have h: "bs_inv (snd_stream s)" using i by (auto simp: snd_inv_def snd_data_def intro: bs_holds_inv)
  note x = next_segment_spec [OF n h]
  show "syn_flag s' = syn_flag s" "fin_flag s' = fin (header seg)"
    using next_segment_flags [OF n] x(9) f(2) by simp_all
  show "bs_is_eof (snd_stream s') \<and> bs_buf (snd_stream s') = []" if "fin (header seg)"
    using that bs_inv_fits [OF x(1)] unfolding x(10)
    by (simp add: ByteStream_eof_def input_ended_def buffer_empty_def buffer_size_def)
qed

lemma inv_read_send:
  assumes i: "snd_inv S L s" and f: "syn_flag s" "\<not> fin_flag s" and n: "next_segment s = (seg, s')"
  shows "length_in_sequence_space seg \<noteq> 0 \<Longrightarrow> snd_inv S L (sendSegment seg s')"
    and "length_in_sequence_space seg = 0 \<Longrightarrow> snd_inv S L s'"
proof -
  note r = read_move [OF i f n] and d = read_data [OF i f n]
  have sd: "snd_data S L s" using i by (simp add: snd_inv_def)
  note b = next_seqno_bound [OF sd]
  have h: "bs_inv (snd_stream s)" using sd by (auto simp: snd_data_def intro: bs_holds_inv)
  have sq: "seqno (header seg) = wrap (next_seqno s') (snd_isn s')" using next_segment_spec(7) [OF n h] r(4,5) by simp
  have nx: "unat (next_seqno s) = 1 + unat (bs_read_count (snd_stream s))" using sd f by (simp add: snd_data_def)
  have bound: "unat (next_seqno s') + seg_len seg < 2 ^ 64"
  proof -
    have "length (str (payload seg)) \<le> length (bs_buf (snd_stream s))" using next_segment_spec(2) [OF n h] by simp
    moreover have "L < 2 ^ 64 - 2 ^ 32" using sd by (simp only: snd_data_def)
    moreover have "seg_len seg \<le> length (str (payload seg)) + 1" unfolding r(6) by simp
    ultimately show ?thesis unfolding r(4) nx using b(2) by simp
  qed
  then have nx': "unat (next_seqno s' + length_in_sequence_space seg) = unat (next_seqno s') + seg_len seg"
    unfolding seg_len_def by (rule unat_add_u64)
  show "snd_inv S L (sendSegment seg s')" if l: "length_in_sequence_space seg \<noteq> 0"
  proof -
    have "seg_len seg \<noteq> 0" using l by (simp add: seg_len_def unat_eq_0)
    note ok = r(11) [OF this]
    have "unat (next_seqno (sendSegment seg s')) = 1 + unat (bs_read_count (snd_stream s')) + (if fin (header seg) then 1 else 0)"
      using nx nx' r(4,6,7) by simp
    moreover have "syn_flag s'" "fin_flag s' = fin (header seg)" using d(2,3) f(1) by simp_all
    ultimately have "snd_data S L (sendSegment seg s')"
      unfolding snd_data_def send_fields(6,9,10) r(9,10) using sd [unfolded snd_data_def] d(1) r(8,10) by auto
    then show ?thesis
      using acct_send [OF r(1) sq bound] sent_send [OF r(2)] r(5) ok by (simp add: snd_inv_def)
  qed
  show "snd_inv S L s'" if "length_in_sequence_space seg = 0"
  proof -
    have "length (str (payload seg)) = 0" "\<not> fin (header seg)"
      using that r(6) by (auto simp: seg_len_def split: if_splits)
    then have "unat (next_seqno s') = 1 + unat (bs_read_count (snd_stream s'))" "syn_flag s'" "\<not> fin_flag s'"
      using nx r(4,7) d(2,3) f(1) by simp_all
    then have "snd_data S L s'"
      unfolding snd_data_def r(9,10) using sd [unfolded snd_data_def] r(8) by auto
    then show ?thesis using r(1-3) by (simp add: snd_inv_def)
  qed
qed

lemma syn_segment_fields [simp]:
  "str (payload (syn_segment s)) = []" "buf_inv (payload (syn_segment s))" "syn (header (syn_segment s))"
  "\<not> fin (header (syn_segment s))" "seqno (header (syn_segment s)) = wrap (next_seqno s) (snd_isn s)"
  "doff (header (syn_segment s)) = 5" "length_in_sequence_space (syn_segment s) = 1"
  by (simp_all add: syn_segment_def TCPSegment_new_def TCPHeader_new_def TCPHeader_LENGTH_def length_in_sequence_space_def)

lemma inv_send_syn:
  assumes i: "snd_inv S L s" and f: "\<not> fin_flag s" "\<not> syn_flag s"
  shows "snd_inv S L (sendSegment (syn_segment s) (s\<lparr>syn_flag := True\<rparr>))"
proof -
  let ?s = "s\<lparr>syn_flag := True\<rparr>"
  have sd: "snd_data S L s" using i by (simp add: snd_inv_def)
  have "unat (next_seqno s) = 0" using sd f by (simp add: snd_data_def)
  then have z: "next_seqno s = 0" by (simp only: unat_eq_0)
  have sl: "seg_len (syn_segment s) = 1" by (simp add: seg_len_def)
  have "snd_acct ?s" "snd_sent S L ?s" using i by (simp_all add: snd_inv_def)
  moreover have "sent_ok S L (snd_isn s) (syn_segment s)"
    using z sl by (auto simp: sent_ok_def seg_at_def intro!: exI [of _ 0])
  moreover have "snd_data S L (sendSegment (syn_segment s) ?s)" using sd f z by (simp add: snd_data_def)
  ultimately show ?thesis
    using acct_send [of ?s "syn_segment s"] sent_send [of S L ?s "syn_segment s"] z sl by (simp add: snd_inv_def)
qed

lemma inv_send_empty:
  assumes "snd_inv S L s"
  shows "snd_inv S L (sendSegment TCPSegment_new s)"
proof -
  have "sent_ok S L (snd_isn s) TCPSegment_new"
    by (simp add: sent_ok_def) (simp add: TCPSegment_new_def TCPHeader_new_def TCPHeader_LENGTH_def)
  moreover have "seg_len TCPSegment_new = 0" by (simp add: seg_len_def)
  moreover have "snd_data S L (sendSegment TCPSegment_new s)" using assms by (simp add: snd_inv_def snd_data_def)
  ultimately show ?thesis
    using assms acct_send [of s TCPSegment_new] sent_send [of S L s TCPSegment_new] unat_u64_less [of "next_seqno s"]
    by (simp add: snd_inv_def)
qed

lemma inv_acked:
  assumes i: "snd_inv S L s" and o: "outSegments s = seg # rest"
  shows "snd_inv S L (s\<lparr>bytes_in_flight := bytes_in_flight s - length_in_sequence_space seg, outSegments := rest\<rparr>)"
proof -
  let ?s = "s\<lparr>bytes_in_flight := bytes_in_flight s - length_in_sequence_space seg, outSegments := rest\<rparr>"
  define r where "r = (\<Sum>seg \<leftarrow> rest. seg_len seg)"
  have f: "in_flight s = seg_len seg + r" "in_flight ?s = r" by (simp_all add: in_flight_def o r_def)
  have a: "seg_len seg + r \<le> unat (next_seqno s)" "bytes_in_flight s = of_nat (seg_len seg + r)"
    "contiguous (snd_isn s) (unat (next_seqno s) - (seg_len seg + r) + seg_len seg) rest"
    using i o f(1) by (auto simp: snd_inv_def snd_acct_def)
  have "of_nat (seg_len seg + r) = length_in_sequence_space seg + of_nat r" by (simp add: seg_len_def)
  then have "bytes_in_flight s - length_in_sequence_space seg = of_nat r" unfolding a(2) by (simp only: add_diff_cancel_left')
  moreover have "unat (next_seqno s) - (seg_len seg + r) + seg_len seg = unat (next_seqno s) - r" using a(1) by simp
  ultimately have "snd_acct ?s" using a(1,3) f(2) by (simp add: snd_acct_def)
  moreover have "snd_sent S L ?s" "snd_live ?s" using i o by (simp_all add: snd_inv_def snd_sent_def snd_live_def)
  ultimately show ?thesis using i by (simp add: snd_inv_def)
qed

lemma snd_move_inv: "snd_move s s' \<Longrightarrow> snd_inv S L s \<Longrightarrow> snd_inv S L s'"
proof (induction rule: snd_move.induct)
  case (read_send s seg s')
  from read_send(6,1,2,4,5) show ?case by (rule inv_read_send(1))
next
  case (read_idle s seg s')
  from read_idle(6,1,2,4,5) show ?case by (rule inv_read_send(2))
next
  case (retransmit s seg rest t n)
  then show ?case by (simp add: snd_inv_def snd_sent_def snd_live_def)
next
  case (transmit s seg rest)
  then show ?case by (simp add: snd_inv_def snd_sent_def)
next
  case (new_ack s t a)
  then show ?case by (simp add: snd_inv_def snd_live_def)
next
  case (time s t)
  then show ?case by (simp add: snd_inv_def snd_live_def)
next
  case (send_syn s)
  from send_syn(3,1,2) show ?case by (rule inv_send_syn)
next
  case (send_empty s)
  then show ?case by (rule inv_send_empty)
next
  case (acked s seg rest)
  from acked(2,1) show ?case by (rule inv_acked)
qed (simp only: snd_inv_def data_frame acct_frame sent_frame live_frame)

section \<open>Runs\<close>

text \<open>What the owner of a sender does with it; \<open>STransmit\<close> takes the front of \<open>segments_out\<close>.\<close>

datatype snd_op = SWrite "byte list" | SEnd | SFill | SAck WrappingInt32 u16 | STick u64 | SEmpty | STransmit

fun snd_step :: "snd_op \<Rightarrow> TCPSender \<Rightarrow> TCPSender" where
  "snd_step (SWrite d) s = s\<lparr>snd_stream := fst (ByteStream_write (snd_stream s) d)\<rparr>"
| "snd_step SEnd s = s\<lparr>snd_stream := end_input (snd_stream s)\<rparr>"
| "snd_step SFill s = fill_window s"
| "snd_step (SAck a w) s = ack_received a w s"
| "snd_step (STick ms) s = snd_tick ms s"
| "snd_step SEmpty s = send_empty_segment s"
| "snd_step STransmit s = s\<lparr>segments_out := tl (segments_out s)\<rparr>"

text \<open>
  The contract of an invariant of the sender: kept by every elementary move, and by the two things
  the application does to the outgoing stream.
\<close>

locale sender_invariant =
  fixes I :: "TCPSender \<Rightarrow> bool"
    and ok :: "TCPSender \<Rightarrow> snd_op \<Rightarrow> bool"
  assumes move: "snd_move s s' \<Longrightarrow> I s \<Longrightarrow> I s'"
    and app_write: "I s \<Longrightarrow> ok s (SWrite d) \<Longrightarrow> I (s\<lparr>snd_stream := fst (ByteStream_write (snd_stream s) d)\<rparr>)"
    and app_end: "I s \<Longrightarrow> ok s SEnd \<Longrightarrow> I (s\<lparr>snd_stream := end_input (snd_stream s)\<rparr>)"
begin

lemma moves: "snd_moves s s' \<Longrightarrow> I s \<Longrightarrow> I s'"
  by (induction rule: rtranclp_induct) (auto intro: move)

lemma step: "I s \<Longrightarrow> ok s e \<Longrightarrow> I (snd_step e s)"
proof (cases e)
  case STransmit
  assume i: "I s"
  have "snd_moves s (s\<lparr>segments_out := tl (segments_out s)\<rparr>)"
  proof (cases "segments_out s")
    case Nil
    then have "tl (segments_out s) = segments_out s" by simp
    then show ?thesis by (simp only:) simp
  qed (use transmit [of s] in auto)
  then show ?thesis using i moves STransmit by simp
qed (simp_all add: app_write app_end moves [OF fill_window_moves] moves [OF ack_received_moves]
    moves [OF snd_tick_moves] move [OF send_empty] send_empty_segment_def)

end

sublocale sender_invariant \<subseteq> invariant_system snd_step ok I
  by unfold_locales (rule step)

text \<open>The application writes the stream \<open>S\<close> of length \<open>L\<close> in pieces, and ends it once it is complete.\<close>

fun snd_ok :: "(nat \<Rightarrow> byte) \<Rightarrow> nat \<Rightarrow> TCPSender \<Rightarrow> snd_op \<Rightarrow> bool" where
  "snd_ok S L s (SWrite d) \<longleftrightarrow> fits d \<and> \<not> input_ended (snd_stream s)
     \<and> unat (bytes_written (snd_stream s)) + length d \<le> L
     \<and> d = map S [unat (bytes_written (snd_stream s))..<unat (bytes_written (snd_stream s)) + length d]"
| "snd_ok S L s SEnd \<longleftrightarrow> unat (bytes_written (snd_stream s)) = L"
| "snd_ok S L s e \<longleftrightarrow> True"

lemma inv_app_write:
  assumes i: "snd_inv S L s" and o: "snd_ok S L s (SWrite d)"
  shows "snd_inv S L (s\<lparr>snd_stream := fst (ByteStream_write (snd_stream s) d)\<rparr>)"
proof -
  let ?st = "snd_stream s" and ?st' = "fst (ByteStream_write (snd_stream s) d)"
  have sd: "snd_data S L s" using i by (simp add: snd_inv_def)
  have h: "bs_holds S ?st" and L: "L < 2 ^ 64 - 2 ^ 32" using sd by (simp_all only: snd_data_def)
  let ?d = "take (room ?st) d" and ?w = "unat (bs_write_count ?st)"
  have d: "fits d" "?w + length d \<le> L" "d = map S [?w..<?w + length d]" "\<not> bs_is_eof ?st"
    using o by (simp_all add: bytes_written_def input_ended_def)
  note w = bs_holds_append [OF h d(1,3)]
  have "?w + length d < 2 ^ 64" using d(2) L by linarith
  note w = w [OF this]
  have "\<not> fin_flag s" using sd d(4) by (auto simp: snd_data_def)
  then have "snd_data S L (s\<lparr>snd_stream := ?st'\<rparr>)"
    using sd w d(2,4) by (auto simp: snd_data_def)
  then show ?thesis using i by (simp add: snd_inv_def)
qed

lemma inv_app_end:
  assumes "snd_inv S L s" and "snd_ok S L s SEnd"
  shows "snd_inv S L (s\<lparr>snd_stream := end_input (snd_stream s)\<rparr>)"
  using assms by (auto simp: snd_inv_def snd_data_def bytes_written_def)

interpretation snd_sys: sender_invariant "snd_inv S L" "snd_ok S L" for S L
  by unfold_locales (rule snd_move_inv inv_app_write inv_app_end; assumption)+

text \<open>The initial sequence number is fixed at construction.\<close>

lemma isn_move: "snd_move s s' \<Longrightarrow> snd_isn s = i \<Longrightarrow> snd_isn s' = i"
  by (induction rule: snd_move.induct) (auto simp: next_segment_def Let_def split: if_splits prod.splits)

interpretation isn_sys: sender_invariant "\<lambda>s. snd_isn s = i" "\<lambda>s e. True" for i
  by unfold_locales (auto dest: isn_move)

lemma run_ok_True: "run_ok (\<lambda>s e. True) step es s"
  by (induction es arbitrary: s) auto

lemma snd_isn_run: "snd_isn (run snd_step ops s) = snd_isn s"
  by (rule isn_sys.run_inv [OF refl run_ok_True])

text \<open>What a receiver may rely on.\<close>

lemma sent_ok_peer:
  "sent_ok S L isn seg \<Longrightarrow> length (str (payload seg)) \<le> unat MAX_PAYLOAD_SIZE
     \<and> (bare_ack seg \<or> (\<exists>k. seg_at S L isn k seg))"
  by (cases "seg = TCPSegment_new") (simp_all add: sent_ok_def bare_ack_def)

section \<open>Properties\<close>

text \<open>
  C4. Everything the sender emits is the application's stream: after any interleaving of writes,
  acknowledgments (with arbitrary numbers and windows), timeouts and transmissions, every segment
  waiting to be sent and every outstanding one is empty, or carries the bytes of the stream from
  some position \<open>k\<close> at the sequence number of that position, with SYN only at the beginning and FIN
  only at the end, and never more than \<open>MAX_PAYLOAD_SIZE\<close> bytes.
\<close>

theorem sender_faithful:
  assumes "L < 2 ^ 64 - 2 ^ 32" and "run_ok (snd_ok S L) snd_step ops (TCPSender_new cap timeout fixed random)"
  defines "s \<equiv> run snd_step ops (TCPSender_new cap timeout fixed random)"
  shows "\<forall>seg \<in> set (segments_out s) \<union> set (outSegments s).
      length (str (payload seg)) \<le> unat MAX_PAYLOAD_SIZE
    \<and> (bare_ack seg \<or> (\<exists>k. seg_at S L (snd_isn (TCPSender_new cap timeout fixed random)) k seg))"
proof -
  have "snd_inv S L s"
    unfolding s_def using snd_inv_new [OF assms(1)] assms(2) by (rule snd_sys.run_inv)
  then have "\<forall>seg \<in> set (segments_out s) \<union> set (outSegments s). sent_ok S L (snd_isn s) seg"
    by (simp add: snd_inv_def snd_sent_def)
  then show ?thesis unfolding s_def snd_isn_run using sent_ok_peer by blast
qed

lemma wit_ops_ok:
  "run_ok (snd_ok (\<lambda>i. 7 + of_nat i) 2) snd_step [SWrite [7, 8], SEnd, SFill, SAck (WrappingInt32 1) 100, STick 1000]
     (TCPSender_new 10 1000 (Some (WrappingInt32 0)) 0)"
proof -
  have "bytes_written (fst (ByteStream_write (ByteStream_new 10) [7, 8])) = 2"
    by (simp add: ByteStream_write_def ByteStream_new_def bytes_written_def sz_def word_less_nat_alt)
  then show ?thesis
    by (simp add: fits_def bytes_written_def input_ended_def upt_rec)
qed

theorem sender_faithful_witness:
  "list_all (\<lambda>seg. bare_ack seg \<or> (\<exists>k. seg_at (\<lambda>i. 7 + of_nat i) 2 (WrappingInt32 0) k seg))
     (segments_out (run snd_step [SWrite [7, 8], SEnd, SFill, SAck (WrappingInt32 1) 100, STick 1000]
       (TCPSender_new 10 1000 (Some (WrappingInt32 0)) 0)))"
  using sender_faithful [OF _ wit_ops_ok] by (auto simp: list_all_iff)

text \<open>
  C27. The sender's books are right in every reachable state: \<open>bytes_in_flight\<close> is the sequence space
  of the outstanding segments, these follow one another without gap up to \<open>next_seqno\<close>, and
  \<open>next_seqno\<close> counts the SYN, the bytes taken from the stream and the FIN.
\<close>

theorem sender_accounting:
  assumes "L < 2 ^ 64 - 2 ^ 32" and "run_ok (snd_ok S L) snd_step ops (TCPSender_new cap timeout fixed random)"
  defines "s \<equiv> run snd_step ops (TCPSender_new cap timeout fixed random)"
  shows "unat (bytes_in_flight s) = (\<Sum>seg \<leftarrow> outSegments s. unat (length_in_sequence_space seg))
    \<and> unat (bytes_in_flight s) \<le> unat (next_seqno s)
    \<and> contiguous (snd_isn s) (unat (next_seqno s) - unat (bytes_in_flight s)) (outSegments s)
    \<and> unat (next_seqno s) = (if syn_flag s then 1 else 0) + unat (bytes_read (snd_stream s)) + (if fin_flag s then 1 else 0)"
proof -
  have i: "snd_inv S L s"
    unfolding s_def using snd_inv_new [OF assms(1)] assms(2) by (rule snd_sys.run_inv)
  then have a: "in_flight s \<le> unat (next_seqno s)" "bytes_in_flight s = of_nat (in_flight s)"
    "contiguous (snd_isn s) (unat (next_seqno s) - in_flight s) (outSegments s)"
    by (simp_all add: snd_inv_def snd_acct_def)
  then have "unat (bytes_in_flight s) = in_flight s"
    using unat_u64_less [of "next_seqno s"] by (simp only: a(2)) (intro unat_of_nat_u64, linarith)
  then show ?thesis
    using a i by (simp add: snd_inv_def snd_data_def bytes_read_def in_flight_def seg_len_def)
qed

theorem sender_accounting_witness:
  "unat (bytes_in_flight (run snd_step [SWrite [7, 8], SEnd, SFill, SAck (WrappingInt32 1) 100, STick 1000]
      (TCPSender_new 10 1000 (Some (WrappingInt32 0)) 0)))
   \<le> unat (next_seqno (run snd_step [SWrite [7, 8], SEnd, SFill, SAck (WrappingInt32 1) 100, STick 1000]
      (TCPSender_new 10 1000 (Some (WrappingInt32 0)) 0)))"
  using sender_accounting [OF _ wit_ops_ok] by simp

end
