(* ===== verification/Sender_Window.thy ===== *)
theory Sender_Window
  imports Sender_Safety
begin

text \<open>
  What the sender's operations achieve: the window is respected and filled, acknowledged segments
  are dropped, and lost ones are retransmitted with exponential backoff.
\<close>

section \<open>The window\<close>



lemma next_segment_frame:
  "next_segment s = (seg, s') \<Longrightarrow> ackGot s' = ackGot s \<and> true_window_size s' = true_window_size s
     \<and> snd_isn s' = snd_isn s \<and> next_seqno s' = next_seqno s \<and> syn_flag s' = syn_flag s
     \<and> outSegments s' = outSegments s"
  by (auto simp: next_segment_def Let_def split: if_splits prod.splits)




text \<open>Why the loop stops: the window is full, the FIN is out, or there is nothing to send.\<close>

lemma fill_loop_stops:
  assumes "fill_loop s = (s', returned)" and "bs_inv (snd_stream s)"
  shows "if returned then bs_buf (snd_stream s') = [] \<and> \<not> bs_is_eof (snd_stream s') else remain s' = 0 \<or> fin_flag s'"
  using assms
proof (induction s rule: fill_loop.induct)
  case (1 s)
  obtain seg s1 where n: "next_segment s = (seg, s1)" by (cases "next_segment s")
  note x = next_segment_spec [OF n "1.prems"(2)]
  show ?case
  proof (cases "remain s = 0 \<or> fin_flag s")
    case True
    then show ?thesis using "1.prems"(1) by (auto simp: fill_loop.simps [of s])
  next
    case False
    show ?thesis
    proof (cases "length_in_sequence_space seg = 0")
      case True
      have l: "seg_len seg = 0" using True by (simp add: seg_len_def)
      have r: "unat (remain s) \<noteq> 0" using False by (simp add: unat_eq_0)
      have f: "fits (str (payload seg))" using x(12) by simp
      have nf: "\<not> fin (header seg)" "str (payload seg) = []"
      proof -
        have "length (str (payload seg)) \<le> 1452" using x(6) by simp
        then have "unat (sz (str (payload seg)) + 1) = length (str (payload seg)) + 1"
          using f unat_Suc_u64 [of "sz (str (payload seg))"] by simp
        then show "\<not> fin (header seg)" "str (payload seg) = []" using x(11) f True by (auto split: if_splits)
      qed
      have "bs_buf (snd_stream s) = []" using x(6) nf(2) r by (simp add: min_def split: if_splits)
      then have b: "bs_buf (snd_stream s1) = []" using x(2) nf(2) by simp
      have "1 \<le> remain s" using r by (simp add: word_le_nat_alt)
      then have "\<not> bs_is_eof (snd_stream s1)"
        using x(10) nf b by (simp add: ByteStream_eof_def input_ended_def buffer_empty_def buffer_size_def)
      then show ?thesis using "1.prems"(1) True False n b by (simp add: fill_loop.simps [of s])
    next
      case l: False
      have "fill_loop (sendSegment seg s1) = (s', returned)"
        using "1.prems"(1) False n l by (simp add: fill_loop.simps [of s])
      then show ?thesis using "1.IH" [OF False n [symmetric] l] x(1) by simp
    qed
  qed
qed

lemma fill_loop_true_window: "true_window_size (fst (fill_loop s)) = true_window_size s"
proof (induction s rule: fill_loop.induct)
  case (1 s)
  obtain seg s1 where n: "next_segment s = (seg, s1)" by (cases "next_segment s")
  show ?case
    using "1.IH" [OF _ n [symmetric]] next_segment_frame [OF n]
    by (subst fill_loop.simps, cases "remain s = 0 \<or> fin_flag s"; cases "length_in_sequence_space seg = 0") (auto simp: n)
qed

section \<open>Acknowledgments\<close>

text \<open>The segments left by an acknowledgment of the absolute number \<open>A\<close>: reference definition.\<close>

fun unacked :: "nat \<Rightarrow> nat \<Rightarrow> TCPSegment list \<Rightarrow> TCPSegment list" where
  "unacked A n [] = []"
| "unacked A n (seg # segs) = (if seg_len seg = 0 \<or> n + seg_len seg \<le> A then unacked A (n + seg_len seg) segs else seg # segs)"

lemma unat_add_u32: "unat (x :: u32) + unat y < 2 ^ 32 \<Longrightarrow> unat (x + y) = unat x + unat y"
  by (simp add: unat_word_ariths)

lemma unat_raw_wrap:
  "unat (raw_value isn) + n < 2 ^ 32 \<Longrightarrow> unat (raw_value (wrap (of_nat n) isn)) = unat (raw_value isn) + n"
proof -
  assume b: "unat (raw_value isn) + n < 2 ^ 32"
  then have "n < 2 ^ 32" by linarith
  then have n: "unat (ucast (of_nat n :: u64) :: u32) = n" by (simp add: unsigned_ucast_eq unat_of_nat take_bit_nat_eq_self)
  have "unat (ucast (of_nat n :: u64) + raw_value isn) = n + unat (raw_value isn)"
    using unat_add_u32 [of "ucast (of_nat n :: u64)" "raw_value isn"] b unfolding n by linarith
  then show ?thesis by (simp only: raw_value_wrap add.commute)
qed

lemma unat_ucast_u64: "unat (ucast (x :: u32) :: u64) = unat x"
proof -
  have "unat x < 2 ^ LENGTH(32)" by (rule unsigned_less)
  then show ?thesis by (simp add: unsigned_ucast_eq take_bit_nat_eq_self)
qed

text \<open>While the sequence space does not wrap, comparing raw values compares absolute numbers.\<close>

lemma acked_iff:
  assumes "seqno (header seg) = wrap (of_nat n) isn" "unat (raw_value isn) + n + seg_len seg < 2 ^ 32"
    "unat (raw_value isn) + A < 2 ^ 32"
  shows "ucast (raw_value (seqno (header seg))) + length_in_sequence_space seg \<le> (ucast (raw_value (wrap (of_nat A) isn)) :: u64)
    \<longleftrightarrow> n + seg_len seg \<le> A"
proof -
  have r: "unat (ucast (raw_value (seqno (header seg))) :: u64) = unat (raw_value isn) + n"
    "unat (ucast (raw_value (wrap (of_nat A) isn)) :: u64) = unat (raw_value isn) + A"
    unfolding assms(1) unat_ucast_u64 using assms(2,3) by (intro unat_raw_wrap, linarith)+
  have "unat (ucast (raw_value (seqno (header seg))) :: u64) + unat (length_in_sequence_space seg) < 2 ^ 64"
    unfolding r(1) using assms(2) [unfolded seg_len_def] by simp
  from unat_add_u64 [OF this] have
    "unat (ucast (raw_value (seqno (header seg))) + length_in_sequence_space seg :: u64) = unat (raw_value isn) + n + seg_len seg"
    by (simp only: r(1) seg_len_def)
  then show ?thesis unfolding word_le_nat_alt r(2) by linarith
qed

lemma drop_acked_frame:
  "next_seqno (drop_acked a s) = next_seqno s \<and> snd_isn (drop_acked a s) = snd_isn s \<and> ackGot (drop_acked a s) = ackGot s
   \<and> timer (drop_acked a s) = timer s \<and> initial_retransmission_timeout (drop_acked a s) = initial_retransmission_timeout s"
proof (induction a s rule: drop_acked.induct)
  case (1 a s)
  then show ?case by (subst (1 2 3 4 5) drop_acked.simps) (simp split: list.split)
qed

lemma drop_acked_unacked:
  assumes "contiguous isn n (outSegments s)" "\<forall>seg \<in> set (outSegments s). seg_len seg = 0 \<longrightarrow> seqno (header seg) = WrappingInt32 0"
    "unat (raw_value isn) + n + in_flight s < 2 ^ 32" "unat (raw_value isn) + A < 2 ^ 32"
  shows "outSegments (drop_acked (wrap (of_nat A) isn) s) = unacked A n (outSegments s)"
  using assms
proof (induction "outSegments s" arbitrary: s n)
  case Nil
  then have "outSegments s = []" by simp
  then show ?case by (subst drop_acked.simps) simp
next
  case (Cons seg rest)
  let ?a = "wrap (of_nat A) isn"
  let ?s = "s\<lparr>bytes_in_flight := bytes_in_flight s - length_in_sequence_space seg, outSegments := rest\<rparr>"
  have o: "outSegments s = seg # rest" using Cons.hyps(2) by simp
  have f: "in_flight s = seg_len seg + in_flight ?s" by (simp add: in_flight_def o)
  have IH: "outSegments (drop_acked ?a ?s) = unacked A (n + seg_len seg) rest"
  proof -
    have "outSegments ?s = rest" by simp
    moreover have "contiguous isn (n + seg_len seg) rest"
      "\<forall>seg \<in> set rest. seg_len seg = 0 \<longrightarrow> seqno (header seg) = WrappingInt32 0"
      using Cons.prems(1,2) o by simp_all
    moreover have "unat (raw_value isn) + (n + seg_len seg) + in_flight ?s < 2 ^ 32"
      using Cons.prems(3) f by linarith
    ultimately show ?thesis using Cons.hyps(1) [of ?s "n + seg_len seg"] Cons.prems(4) by (simp only:)
  qed
  have "(ucast (raw_value (seqno (header seg))) + length_in_sequence_space seg \<le> (ucast (raw_value ?a) :: u64))
      \<longleftrightarrow> seg_len seg = 0 \<or> n + seg_len seg \<le> A"
  proof (cases "seg_len seg = 0")
    case True
    then have "length_in_sequence_space seg = 0" by (simp add: seg_len_def unat_eq_0)
    then show ?thesis using True Cons.prems(2) o by simp
  next
    case False
    then have "seqno (header seg) = wrap (of_nat n) isn" using Cons.prems(1) o by simp
    moreover have "unat (raw_value isn) + n + seg_len seg < 2 ^ 32" using Cons.prems(3) f by linarith
    ultimately show ?thesis using acked_iff [of seg n isn A] Cons.prems(4) False by blast
  qed
  then show ?case using IH by (subst drop_acked.simps) (simp add: o)
qed

lemma fill_loop_appends:
  "\<exists>new. outSegments (fst (fill_loop s)) = outSegments s @ new \<and> ackGot (fst (fill_loop s)) = ackGot s"
proof (induction s rule: fill_loop.induct)
  case (1 s)
  obtain seg s1 where n: "next_segment s = (seg, s1)" by (cases "next_segment s")
  note f = next_segment_frame [OF n]
  show ?case
  proof (cases "remain s = 0 \<or> fin_flag s \<or> length_in_sequence_space seg = 0")
    case True
    then show ?thesis using n f by (subst (1 2) fill_loop.simps) auto
  next
    case False
    then have "\<exists>new. outSegments (fst (fill_loop (sendSegment seg s1))) = outSegments (sendSegment seg s1) @ new
        \<and> ackGot (fst (fill_loop (sendSegment seg s1))) = ackGot (sendSegment seg s1)"
      using "1.IH" [OF _ n [symmetric]] by simp
    then show ?thesis using False n f by (subst (1 2) fill_loop.simps) auto
  qed
qed

lemma fill_window_appends:
  "\<exists>new. outSegments (fill_window s) = outSegments s @ new \<and> ackGot (fill_window s) = ackGot s"
proof -
  define s1 where "s1 = (if true_window_size s = 0 then s\<lparr>true_window_size := 1\<rparr> else s)"
  obtain s2 b where l: "fill_loop s1 = (s2, b)" by (cases "fill_loop s1")
  have "\<exists>new. outSegments s2 = outSegments s @ new \<and> ackGot s2 = ackGot s"
    using fill_loop_appends [of s1] l by (auto simp: s1_def)
  then show ?thesis
    using l [unfolded s1_def] by (auto simp: fill_window_def Let_def)
qed

lemma ack_received_shape:
  assumes "\<not> raw_value (wrap (next_seqno s) (snd_isn s)) < raw_value a"
  shows "(\<exists>new. outSegments (ack_received a w s) = outSegments (drop_acked a s) @ new)
    \<and> ackGot (ack_received a w s) = (if raw_value (ackGot s) < raw_value a then a else ackGot s)"
proof -
  define s1 where "s1 = (if raw_value (ackGot (drop_acked a s)) < raw_value a
    then (let t = resetRTO (initial_retransmission_timeout (drop_acked a s)) (resetTime (timer (drop_acked a s)));
              t = (if outSegments (drop_acked a s) \<noteq> [] then timer_start t else t)
          in (drop_acked a s)\<lparr>ackGot := a, timer := t, consecutive_retransmission := 0\<rparr>) else drop_acked a s)"
  have s': "ack_received a w s = fill_window (s1\<lparr>true_window_size := w\<rparr>)"
    unfolding ack_received_def Let_def s1_def by (simp only: assms if_False)
  have "outSegments s1 = outSegments (drop_acked a s)"
    "ackGot s1 = (if raw_value (ackGot s) < raw_value a then a else ackGot s)"
    by (simp_all add: s1_def Let_def drop_acked_frame)
  then show ?thesis
    using fill_window_appends [of "s1\<lparr>true_window_size := w\<rparr>"] unfolding s' by auto
qed

section \<open>The timer\<close>

text \<open>A timeout: time reaches the current retransmission timeout.\<close>

definition timeout_tick :: "TCPSender \<Rightarrow> TCPSender" where
  "timeout_tick s = snd_tick (ucast (rto (timer s))) s"

lemma ucast_back: "(ucast (ucast (x :: u32) :: u64) :: u32) = x"
  by (rule bit_word_eqI) (simp add: bit_simps)

lemma snd_tick_spec:
  fixes ms :: u64
  assumes "isRunning (timer s)" and "outSegments s = seg # rest"
  defines "fired \<equiv> rto (timer s) \<le> tm_time (timer s) + ucast ms"
    and "count \<equiv> true_window_size s \<noteq> 0 \<or> next_seqno s = 1"
  shows "segments_out (snd_tick ms s) = segments_out s @ (if fired then [seg] else [])"
    and "rto (timer (snd_tick ms s)) = (if fired \<and> count then 2 * rto (timer s) else rto (timer s))"
    and "consecutive_retransmission (snd_tick ms s) = consecutive_retransmission s + (if fired \<and> count then 1 else 0)"
    and "tm_time (timer (snd_tick ms s)) = (if fired then 0 else tm_time (timer s) + ucast ms)"
    and "isRunning (timer (snd_tick ms s))" "outSegments (snd_tick ms s) = outSegments s"
    "true_window_size (snd_tick ms s) = true_window_size s"
  using assms(1,2) by (auto simp: snd_tick_def passTime_def Let_def fired_def count_def timer_start_def resetTime_def doubleRTO_def)

lemma backoff:
  assumes "outSegments s = seg # rest" "isRunning (timer s)" "tm_time (timer s) = 0" "true_window_size s \<noteq> 0"
  shows "segments_out ((timeout_tick ^^ n) s) = segments_out s @ replicate n seg
    \<and> rto (timer ((timeout_tick ^^ n) s)) = 2 ^ n * rto (timer s)
    \<and> consecutive_retransmission ((timeout_tick ^^ n) s) = consecutive_retransmission s + of_nat n
    \<and> tm_time (timer ((timeout_tick ^^ n) s)) = 0 \<and> isRunning (timer ((timeout_tick ^^ n) s))
    \<and> outSegments ((timeout_tick ^^ n) s) = seg # rest \<and> true_window_size ((timeout_tick ^^ n) s) \<noteq> 0"
proof (induction n)
  case 0
  then show ?case using assms by simp
next
  case (Suc n)
  let ?s = "(timeout_tick ^^ n) s"
  have h: "isRunning (timer ?s)" "outSegments ?s = seg # rest" using Suc by simp_all
  have f: "rto (timer ?s) \<le> tm_time (timer ?s) + ucast (ucast (rto (timer ?s)) :: u64)"
    using Suc by (simp add: ucast_back)
  note t = snd_tick_spec [OF h, of "ucast (rto (timer ?s))"]
  show ?case
    unfolding funpow.simps comp_apply timeout_tick_def [of ?s]
    using Suc t f by (simp add: replicate_append_same mult.assoc)
qed

section \<open>The window over whole runs\<close>












lemmas snd_eval = TCPSender_new_def RETimer_new_def fill_window_def fill_loop.simps next_segment_def sendSegment_def
  remain_def ack_received_def drop_acked.simps snd_tick_def passTime_def timer_start_def resetTime_def resetRTO_def doubleRTO_def
  send_empty_segment_def TCPSegment_new_def TCPHeader_new_def length_in_sequence_space_def wrap_def MAX_PAYLOAD_SIZE_def
  ByteStream_new_def ByteStream_write_def ByteStream_read_def peek_output_def pop_output_def end_input_def
  ByteStream_eof_def input_ended_def buffer_empty_def buffer_size_def sz_def substr_def str_def Buffer_of_def Buffer_empty_def
  Let_def word_le_def word_less_def

section \<open>Properties\<close>



text \<open>
  C15. The sender fills the window: when \<open>fill_window\<close> returns after the SYN, the FIN has been sent,
  or no space is left in the window, or the outgoing stream is empty and not ended.
\<close>

theorem fill_window_fills:
  assumes "bs_inv (snd_stream s)" and "syn_flag s"
  defines "s' \<equiv> fill_window s" and "w \<equiv> (if true_window_size s = 0 then 1 else true_window_size s)"
  shows "fin_flag s' \<or> remain (s'\<lparr>true_window_size := w\<rparr>) = 0
    \<or> buffer_empty (snd_stream s') \<and> \<not> input_ended (snd_stream s')"
proof (cases "fin_flag s")
  case True
  then show ?thesis by (simp add: s'_def fill_window_def)
next
  case False
  define s1 where "s1 = (if true_window_size s = 0 then s\<lparr>true_window_size := 1\<rparr> else s)"
  obtain s2 b where l: "fill_loop s1 = (s2, b)" by (cases "fill_loop s1")
  have "bs_inv (snd_stream s1)" using assms(1) by (simp add: s1_def)
  note st = fill_loop_stops [OF l this]
  have s': "s' = (if b then s2 else if true_window_size s = 0 then s2\<lparr>true_window_size := 0\<rparr> else s2)"
    using False assms(2) l [unfolded s1_def] by (simp add: s'_def fill_window_def Let_def)
  have "true_window_size s2 = w" using fill_loop_true_window [of s1] l by (simp add: w_def s1_def)
  then have "remain (s'\<lparr>true_window_size := w\<rparr>) = remain s2" by (simp add: s' remain_def)
  then show ?thesis
    using st s' by (auto simp: buffer_empty_def buffer_size_def input_ended_def split: if_splits)
qed

theorem fill_window_fills_witness:
  "let s' = fill_window ((TCPSender_new 10 1000 (Some (WrappingInt32 5)) 0)\<lparr>syn_flag := True, true_window_size := 3\<rparr>)
   in fin_flag s' \<or> remain (s'\<lparr>true_window_size := 3\<rparr>) = 0 \<or> buffer_empty (snd_stream s') \<and> \<not> input_ended (snd_stream s')"
  using fill_window_fills [of "(TCPSender_new 10 1000 (Some (WrappingInt32 5)) 0)\<lparr>syn_flag := True, true_window_size := 3\<rparr>"]
  by (simp add: Let_def TCPSender_new_def)

text \<open>
  C11. Acknowledgment handling implements its specification while the 32-bit sequence space has not
  wrapped: for an acknowledgment of the absolute number \<open>A\<close> the outstanding segments that end at or
  before \<open>A\<close> are forgotten, the others stay in order in front of anything newly sent, and the
  acknowledged number becomes the larger of the old and the new one.
\<close>

theorem ack_received_refines:
  fixes w :: u16
  assumes "snd_inv S L s" and "unat (raw_value (snd_isn s)) + unat (next_seqno s) < 2 ^ 32"
    and "A \<le> unat (next_seqno s)" and "A0 \<le> unat (next_seqno s)" and "ackGot s = wrap (of_nat A0) (snd_isn s)"
  defines "s' \<equiv> ack_received (wrap (of_nat A) (snd_isn s)) w s"
  shows "(\<exists>new. outSegments s' = unacked A (unat (next_seqno s) - unat (bytes_in_flight s)) (outSegments s) @ new)
    \<and> ackGot s' = wrap (of_nat (max A A0)) (snd_isn s)"
proof -
  let ?a = "wrap (of_nat A) (snd_isn s)"
  have acct: "in_flight s \<le> unat (next_seqno s)" "bytes_in_flight s = of_nat (in_flight s)"
    "contiguous (snd_isn s) (unat (next_seqno s) - in_flight s) (outSegments s)"
    using assms(1) by (simp_all add: snd_inv_def snd_acct_def)
  have fl: "unat (bytes_in_flight s) = in_flight s"
    unfolding acct(2) using acct(1) unat_u64_less [of "next_seqno s"] by (intro unat_of_nat_u64) linarith
  have empty: "\<forall>seg \<in> set (outSegments s). seg_len seg = 0 \<longrightarrow> seqno (header seg) = WrappingInt32 0"
  proof (intro ballI impI)
    fix seg assume "seg \<in> set (outSegments s)" "seg_len seg = 0"
    then have "seg = TCPSegment_new" using assms(1) by (auto simp: snd_inv_def snd_sent_def sent_ok_def)
    then show "seqno (header seg) = WrappingInt32 0" by (simp add: TCPSegment_new_def TCPHeader_new_def)
  qed
  have rA: "unat (raw_value ?a) = unat (raw_value (snd_isn s)) + A" using assms(2,3) by (intro unat_raw_wrap) linarith
  have r0: "unat (raw_value (ackGot s)) = unat (raw_value (snd_isn s)) + A0"
    unfolding assms(5) using assms(2,4) by (intro unat_raw_wrap) linarith
  have rn: "unat (raw_value (wrap (next_seqno s) (snd_isn s))) = unat (raw_value (snd_isn s)) + unat (next_seqno s)"
    using unat_raw_wrap [OF assms(2)] by simp
  have d: "outSegments (drop_acked ?a s) = unacked A (unat (next_seqno s) - in_flight s) (outSegments s)"
    using acct(1,3) empty assms(2,3) by (intro drop_acked_unacked) linarith+
  have c: "\<not> raw_value (wrap (next_seqno s) (snd_isn s)) < raw_value ?a"
    using assms(3) by (simp add: word_less_nat_alt rn rA)
  have "ackGot s' = (if A0 < A then ?a else ackGot s)"
    using ack_received_shape [OF c, of w] by (simp add: s'_def word_less_nat_alt rA r0)
  then have "ackGot s' = wrap (of_nat (max A A0)) (snd_isn s)" using assms(5) by (simp add: max_def)
  then show ?thesis using ack_received_shape [OF c, of w] d fl by (auto simp: s'_def)
qed

text \<open>Two bytes are out in a segment each; the acknowledgment of the first leaves the second.\<close>

theorem ack_received_refines_witness:
  "length (outSegments (run snd_step [SFill, SAck (WrappingInt32 6) 9, SWrite [1], SFill, SWrite [2], SFill]
       (TCPSender_new 10 1000 (Some (WrappingInt32 5)) 0))) = 2
   \<and> (\<exists>seg new. str (payload seg) = [2] \<and> outSegments (ack_received (WrappingInt32 7) 9 (run snd_step
       [SFill, SAck (WrappingInt32 6) 9, SWrite [1], SFill, SWrite [2], SFill] (TCPSender_new 10 1000 (Some (WrappingInt32 5)) 0))) = seg # new)"
proof -
  let ?n = "TCPSender_new 10 1000 (Some (WrappingInt32 5)) 0"
  let ?s = "run snd_step [SFill, SAck (WrappingInt32 6) 9, SWrite [1], SFill, SWrite [2], SFill] ?n"
  have "run_ok (snd_ok (\<lambda>i. 1 + of_nat i) 2) snd_step [SFill, SAck (WrappingInt32 6) 9, SWrite [1], SFill, SWrite [2], SFill] ?n"
    by (simp add: snd_eval fits_def bytes_written_def upt_rec)
  from snd_sys.run_inv [OF snd_inv_new this] have i: "snd_inv (\<lambda>i. 1 + of_nat i) 2 ?s" by simp
  have f: "next_seqno ?s = 3" "bytes_in_flight ?s = 2" "snd_isn ?s = WrappingInt32 5" "ackGot ?s = WrappingInt32 6"
    by (simp_all add: snd_eval)
  have w: "wrap (of_nat 2) (WrappingInt32 5) = WrappingInt32 7" "wrap (of_nat 1) (WrappingInt32 5) = WrappingInt32 6"
    by (simp_all add: wrap_def)
  have "length (outSegments ?s) = 2" "map seg_len (outSegments ?s) = [1, 1]" "map (str \<circ> payload) (outSegments ?s) = [[1], [2]]"
    by (simp_all add: snd_eval seg_len_def)
  then obtain x y where o: "outSegments ?s = [x, y]" "seg_len x = 1" "seg_len y = 1" "str (payload y) = [2]"
    by (auto simp: length_Suc_conv numeral_2_eq_2)
  have u: "unacked 2 1 (outSegments ?s) = [y]" using o by simp
  have "\<exists>new. outSegments (ack_received (WrappingInt32 7) 9 ?s) = [y] @ new"
    using ack_received_refines [OF i, of 2 1 9] unfolding f w u [symmetric] by simp
  then show ?thesis using o(1,4) by auto
qed

text \<open>
  C29. Outstanding data is retransmitted: in every reachable state with outstanding segments the
  timer runs, and a tick that brings it to the retransmission timeout puts the oldest outstanding
  segment on the outbound queue again and restarts the timer, while an earlier tick sends nothing.
\<close>

theorem outstanding_retransmitted:
  assumes "L < 2 ^ 64 - 2 ^ 32" and "run_ok (snd_ok S L) snd_step ops (TCPSender_new cap timeout fixed random)"
    and "outSegments (run snd_step ops (TCPSender_new cap timeout fixed random)) = seg # rest"
  shows "(let s = run snd_step ops (TCPSender_new cap timeout fixed random)
    in segments_out (snd_tick ms s) = segments_out s
          @ (if rto (timer s) \<le> tm_time (timer s) + ucast ms then [seg] else [])
       \<and> outSegments (snd_tick ms s) = outSegments s \<and> isRunning (timer (snd_tick ms s)))"
proof -
  let ?s = "run snd_step ops (TCPSender_new cap timeout fixed random)"
  have "snd_inv S L ?s" using snd_inv_new [OF assms(1)] assms(2) by (rule snd_sys.run_inv)
  then have "isRunning (timer ?s)" using assms(3) by (simp add: snd_inv_def snd_live_def)
  from snd_tick_spec [OF this assms(3)] show ?thesis by (simp add: Let_def)
qed

theorem outstanding_retransmitted_witness:
  "\<exists>seg. segments_out (snd_tick 1000 (run snd_step [SFill] (TCPSender_new 10 1000 (Some (WrappingInt32 5)) 0))) = [seg, seg]"
proof -
  let ?s = "TCPSender_new 10 1000 (Some (WrappingInt32 5)) 0"
  have f: "outSegments (run snd_step [SFill] ?s) = [syn_segment ?s]" "segments_out (run snd_step [SFill] ?s) = [syn_segment ?s]"
    "rto (timer (run snd_step [SFill] ?s)) = 1000" "tm_time (timer (run snd_step [SFill] ?s)) = 0"
    by (simp_all add: TCPSender_new_def fill_window_def syn_segment_def sendSegment_def RETimer_new_def Let_def)
  have "run_ok (snd_ok (\<lambda>i. 0) 0) snd_step [SFill] ?s" by simp
  from outstanding_retransmitted [OF _ this f(1), of 1000] show ?thesis unfolding Let_def f by simp
qed

text \<open>
  Exponential backoff: after \<open>n\<close> timeouts in a row without an acknowledgment the oldest segment
  has been sent \<open>n\<close> more times, the retransmission timeout has been doubled \<open>n\<close> times and the
  counter of consecutive retransmissions has grown by \<open>n\<close> (both in their machine widths).
\<close>

theorem retransmission_backoff:
  assumes "outSegments s = seg # rest" and "isRunning (timer s)" and "tm_time (timer s) = 0" and "true_window_size s \<noteq> 0"
  shows "segments_out ((timeout_tick ^^ n) s) = segments_out s @ replicate n seg
    \<and> rto (timer ((timeout_tick ^^ n) s)) = 2 ^ n * rto (timer s)
    \<and> consecutive_retransmission ((timeout_tick ^^ n) s) = consecutive_retransmission s + of_nat n"
  using backoff [OF assms, of n] by blast

theorem retransmission_backoff_witness:
  "rto (timer ((timeout_tick ^^ 3) ((fill_window (TCPSender_new 10 1000 (Some (WrappingInt32 5)) 0))\<lparr>true_window_size := 1\<rparr>))) = 8000"
proof -
  let ?n = "TCPSender_new 10 1000 (Some (WrappingInt32 5)) 0"
  let ?s = "(fill_window ?n)\<lparr>true_window_size := 1\<rparr>"
  have f: "outSegments ?s = [syn_segment ?n]" "isRunning (timer ?s)" "tm_time (timer ?s) = 0" "true_window_size ?s \<noteq> 0"
    "rto (timer ?s) = 1000"
    by (simp_all add: TCPSender_new_def fill_window_def syn_segment_def sendSegment_def RETimer_new_def Let_def)
  from retransmission_backoff [OF f(1-4), of 3] show ?thesis by (simp only: f(5)) simp
qed

section \<open>Where the code departs from its documentation\<close>

text \<open>The timer runs from construction, so the first segment may be retransmitted too early: here after 100 ms.\<close>

lemma premature_retransmission:
  "length (segments_out (run snd_step [STick 900, SFill, STick 100] (TCPSender_new 10 1000 (Some (WrappingInt32 5)) 0))) = 2"
  by (simp add: snd_eval)

text \<open>A zero window is forgotten when there is nothing to send: the window becomes one.\<close>

lemma zero_window_forgotten:
  "true_window_size (run snd_step [SFill, SAck (WrappingInt32 6) 0] (TCPSender_new 10 1000 (Some (WrappingInt32 5)) 0)) = 1"
  by (simp add: snd_eval)

text \<open>At the wrap of the 32-bit space the acknowledgment of the SYN is not recognised.\<close>

lemma syn_ack_lost_at_wrap:
  "bytes_in_flight (run snd_step [SFill, SAck (WrappingInt32 0) 100] (TCPSender_new 10 1000 (Some (WrappingInt32 0xFFFFFFFF)) 0)) = 1"
  by (simp add: snd_eval)

text \<open>
  When the window shrinks below what is in flight, the space left wraps around to almost \<open>2 ^ 32\<close>:
  here two bytes beyond the acknowledged number are out and the window is one.
\<close>

lemma shrunk_window_overrun:
  "remain ((TCPSender_new 10 1000 (Some (WrappingInt32 5)) 0)
     \<lparr>next_seqno := 3, ackGot := WrappingInt32 6, true_window_size := 1\<rparr>) = 0xFFFFFFFF"
  by (simp add: remain_def wrap_def)
    (simp add: word_unat_eq_iff unsigned_ucast_eq unsigned_minus_1_eq_mask mask_eq_exp_minus_1)

text \<open>Empty segments are kept as outstanding and retransmitted, with sequence number zero.\<close>

lemma empty_segment_retransmitted:
  "segments_out (run snd_step [SEmpty, STick 1000] (TCPSender_new 10 1000 (Some (WrappingInt32 5)) 0)) = [TCPSegment_new, TCPSegment_new]"
  by (simp add: snd_eval)

end
