(* ===== verification/Connection.thy ===== *)
theory Connection
  imports Receiver Sender_Window
begin

text \<open>
  \<^verbatim>\<open>libsponge/tcp_connection.{hh,cc}\<close>: a connection owns a receiver and a sender, hands incoming
  segments to both, and stamps outgoing segments with the receiver's acknowledgment and window.
  The random number for the sender's initial sequence number is an argument of the constructor.
\<close>

section \<open>Model\<close>

record TCPConnection =
  cfg :: TCPConfig
  receiver :: TCPReceiver
  sender :: TCPSender
  cn_segments_out :: "TCPSegment list"
  linger_after_streams_finish :: bool
  time_since_last_segment_received :: u64
  active :: bool
  rst_set :: bool
  fin_ack_sent :: bool
  closedByApp :: bool
  syn_set :: bool
  rec_fin_seqno :: "WrappingInt32 option"

definition TCPConnection_new :: "TCPConfig \<Rightarrow> u32 \<Rightarrow> TCPConnection" where
  "TCPConnection_new c random =
     \<lparr>cfg = c, receiver = TCPReceiver_new (recv_capacity c),
      sender = TCPSender_new (send_capacity c) (rt_timeout c) (fixed_isn c) random,
      cn_segments_out = [], linger_after_streams_finish = True, time_since_last_segment_received = 0,
      active = True, rst_set = False, fin_ack_sent = False, closedByApp = False, syn_set = False, rec_fin_seqno = None\<rparr>"

definition remaining_outbound_capacity :: "TCPConnection \<Rightarrow> u64" where
  "remaining_outbound_capacity c = remaining_capacity (snd_stream (sender c))"

definition cn_bytes_in_flight :: "TCPConnection \<Rightarrow> u64" where
  "cn_bytes_in_flight c = bytes_in_flight (sender c)"

definition cn_unassembled_bytes :: "TCPConnection \<Rightarrow> u64" where
  "cn_unassembled_bytes c = rcv_unassembled_bytes (receiver c)"

definition inbound_stream :: "TCPConnection \<Rightarrow> ByteStream" where
  "inbound_stream c = rcv_stream_out (receiver c)"

text \<open>Updates through the references \<open>_receiver.stream_out()\<close> and \<open>_sender.stream_in()\<close>.\<close>

definition rcv_set_error :: "TCPReceiver \<Rightarrow> TCPReceiver" where
  "rcv_set_error r = r\<lparr>rcv_reassembler := (rcv_reassembler r)\<lparr>sr_output := set_error (sr_output (rcv_reassembler r))\<rparr>\<rparr>"

definition snd_set_error :: "TCPSender \<Rightarrow> TCPSender" where
  "snd_set_error s = s\<lparr>snd_stream := set_error (snd_stream s)\<rparr>"

definition clean_shutdown :: "TCPConnection \<Rightarrow> TCPConnection" where
  "clean_shutdown c =
     (let c = (if input_ended (rcv_stream_out (receiver c)) \<and> \<not> ByteStream_eof (snd_stream (sender c))
               then c\<lparr>linger_after_streams_finish := False\<rparr> else c)
      in if rcv_unassembled_bytes (receiver c) = 0 \<and> input_ended (rcv_stream_out (receiver c))
         then if input_ended (snd_stream (sender c)) \<and> segments_out (sender c) = []
              then if bytes_in_flight (sender c) = 0
                   then if 10 * ucast (rt_timeout (cfg c)) \<le> time_since_last_segment_received c
                           \<or> \<not> linger_after_streams_finish c
                        then c\<lparr>active := False\<rparr> else c
                   else c
              else c
         else c)"

text \<open>The body of the loop of \<open>sendseg\<close>, after the front segment has been popped.\<close>

definition emit_segment :: "TCPSegment \<Rightarrow> TCPConnection \<Rightarrow> TCPConnection" where
  "emit_segment seg c =
     (let c = (if syn (header seg) then c\<lparr>syn_set := True\<rparr> else c);
          (seg, c) = (case rcv_ackno (receiver c) of
              None \<Rightarrow> (seg, c)
            | Some a \<Rightarrow>
                (seg\<lparr>header := (header seg)\<lparr>ackno := a, ack := True, win := ucast (rcv_window_size (receiver c))\<rparr>\<rparr>,
                 case rec_fin_seqno c of
                   None \<Rightarrow> c
                 | Some f \<Rightarrow> if raw_value f < raw_value a then c\<lparr>fin_ack_sent := True\<rparr> else c));
          (seg, c) = (if rst_set c
              then (seg\<lparr>header := (header seg)\<lparr>rst := True\<rparr>\<rparr>,
                    c\<lparr>receiver := rcv_set_error (receiver c), sender := snd_set_error (sender c), active := False\<rparr>)
              else (seg, c))
      in c\<lparr>cn_segments_out := cn_segments_out c @ [seg]\<rparr>)"

fun emit_all :: "TCPSegment list \<Rightarrow> TCPConnection \<Rightarrow> TCPConnection" where
  "emit_all [] c = c"
| "emit_all (seg # rest) c = emit_all rest (emit_segment seg (c\<lparr>sender := (sender c)\<lparr>segments_out := rest\<rparr>\<rparr>))"

definition sendseg :: "TCPConnection \<Rightarrow> TCPConnection" where
  "sendseg c =
     (let c = (if segments_out (sender c) = [] then c\<lparr>sender := (sender c)\<lparr>segments_out := [TCPSegment_new]\<rparr>\<rparr> else c)
      in clean_shutdown (emit_all (segments_out (sender c)) c))"

definition cn_segment_received :: "TCPSegment \<Rightarrow> TCPConnection \<Rightarrow> TCPConnection" where
  "cn_segment_received seg c =
     (if \<not> active c then c
      else if \<not> syn_set c \<and> \<not> syn (header seg) then c
      else
        let c = (if \<not> syn_set c \<and> syn (header seg)
                 then c\<lparr>syn_set := True, sender := fill_window (sender c)\<rparr> else c);
            c = c\<lparr>time_since_last_segment_received := 0\<rparr>
        in if rst (header seg)
           then if \<not> syn_set c \<and> \<not> ack (header seg) then c
                else c\<lparr>receiver := rcv_set_error (receiver c), sender := snd_set_error (sender c),
                       rst_set := True, active := False\<rparr>
           else
             let c = c\<lparr>receiver := rcv_segment_received (receiver c) seg\<rparr>;
                 c = (if ack (header seg)
                      then clean_shutdown (c\<lparr>sender := ack_received (ackno (header seg)) (win (header seg)) (sender c)\<rparr>)
                      else c)
             in if fin_ack_sent c \<and> \<not> fin (header seg) then c
                else
                  let c = (if fin (header seg) then c\<lparr>rec_fin_seqno := Some (seqno (header seg))\<rparr> else c);
                      c = (if 0 < length_in_sequence_space seg then sendseg c else c)
                  in clean_shutdown c)"

definition cn_write :: "byte list \<Rightarrow> TCPConnection \<Rightarrow> TCPConnection \<times> u64" where
  "cn_write data c =
     (let (stream, written) = ByteStream_write (snd_stream (sender c)) data;
          c = c\<lparr>sender := fill_window ((sender c)\<lparr>snd_stream := stream\<rparr>)\<rparr>
      in (sendseg c, written))"

definition cn_tick :: "u64 \<Rightarrow> TCPConnection \<Rightarrow> TCPConnection" where
  "cn_tick ms c =
     (if \<not> active c then c
      else
        let c = c\<lparr>time_since_last_segment_received := time_since_last_segment_received c + ms\<rparr>;
            c = c\<lparr>sender := snd_tick ms (sender c)\<rparr>;
            c = (if MAX_RETX_ATTEMPTS < consecutive_retransmissions (sender c)
                 then sendseg (c\<lparr>rst_set := True\<rparr>) else c);
            c = clean_shutdown c
        in if \<not> active c then c
           else if segments_out (sender c) \<noteq> [] then sendseg c else c)"

definition end_input_stream :: "TCPConnection \<Rightarrow> TCPConnection" where
  "end_input_stream c =
     (let c = c\<lparr>sender := (sender c)\<lparr>snd_stream := end_input (snd_stream (sender c))\<rparr>\<rparr>;
          c = c\<lparr>sender := fill_window (sender c)\<rparr>;
          c = c\<lparr>closedByApp := True\<rparr>
      in sendseg c)"

definition connect :: "TCPConnection \<Rightarrow> TCPConnection" where
  "connect c = sendseg (c\<lparr>sender := fill_window (sender c)\<rparr>)"

text \<open>The destructor: what it leaves in the outbound queue.\<close>

definition TCPConnection_destroy :: "TCPConnection \<Rightarrow> TCPConnection" where
  "TCPConnection_destroy c = (if active c then sendseg (c\<lparr>rst_set := True\<rparr>) else c)"

section \<open>What the parts share\<close>

lemma shutdown_frame [simp]:
  "receiver (clean_shutdown c) = receiver c" "sender (clean_shutdown c) = sender c"
  "cn_segments_out (clean_shutdown c) = cn_segments_out c" "cfg (clean_shutdown c) = cfg c"
  "rst_set (clean_shutdown c) = rst_set c" "fin_ack_sent (clean_shutdown c) = fin_ack_sent c"
  "syn_set (clean_shutdown c) = syn_set c" "rec_fin_seqno (clean_shutdown c) = rec_fin_seqno c"
  "time_since_last_segment_received (clean_shutdown c) = time_since_last_segment_received c"
  by (simp_all add: clean_shutdown_def Let_def)

text \<open>The header fields a connection stamps on a segment of its sender.\<close>

definition stamped :: "TCPSegment \<Rightarrow> TCPSegment \<Rightarrow> bool" where
  "stamped seg seg' \<longleftrightarrow> payload seg' = payload seg
     \<and> (\<exists>a b w r. header seg' = (header seg)\<lparr>ackno := a, ack := b, win := w, rst := r\<rparr>)"

lemma stampedI: "header seg' = (header seg)\<lparr>ackno := ackno (header seg'), ack := ack (header seg'), win := win (header seg'),
    rst := rst (header seg')\<rparr> \<Longrightarrow> payload seg' = payload seg \<Longrightarrow> stamped seg seg'"
  unfolding stamped_def by blast

lemma stamped_fields:
  assumes "stamped seg seg'"
  shows "seg_at S L isn k seg' = seg_at S L isn k seg" "bare_ack seg' = bare_ack seg"
    "doff (header seg') = doff (header seg)" "payload seg' = payload seg"
  using assms by (auto simp: stamped_def seg_at_def bare_ack_def)

definition out_ok :: "(nat \<Rightarrow> byte) \<Rightarrow> nat \<Rightarrow> WrappingInt32 \<Rightarrow> TCPSegment \<Rightarrow> bool" where
  "out_ok S L isn seg \<longleftrightarrow> (\<exists>seg0. sent_ok S L isn seg0 \<and> stamped seg0 seg)"

lemma out_ok_peer:
  assumes "out_ok S L isn seg"
  shows "buf_inv (payload seg)" "length (str (payload seg)) \<le> 1452" "doff (header seg) = 5"
    "bare_ack seg \<or> (\<exists>k. seg_at S L isn k seg)"
proof -
  from assms obtain seg0 where s: "sent_ok S L isn seg0" and t: "stamped seg0 seg" by (auto simp: out_ok_def)
  show "buf_inv (payload seg)" "length (str (payload seg)) \<le> 1452" "doff (header seg) = 5"
    using s stamped_fields [OF t] by (simp_all add: sent_ok_def MAX_PAYLOAD_SIZE_def)
  show "bare_ack seg \<or> (\<exists>k. seg_at S L isn k seg)"
    using sent_ok_peer [OF s] stamped_fields(1,2) [OF t] by simp
qed

text \<open>
  The invariant of a connection whose peer sends the stream \<open>Si\<close> of length \<open>Li\<close> from \<open>isn\<close>, and whose
  application writes the stream \<open>So\<close> of length \<open>Lo\<close>.
\<close>

definition cn_inv :: "(nat \<Rightarrow> byte) \<Rightarrow> nat \<Rightarrow> WrappingInt32 \<Rightarrow> (nat \<Rightarrow> byte) \<Rightarrow> nat \<Rightarrow> TCPConnection \<Rightarrow> bool" where
  "cn_inv Si Li isn So Lo c \<longleftrightarrow> rcv_inv Si Li isn (receiver c) \<and> snd_inv So Lo (sender c)
     \<and> (\<forall>seg \<in> set (cn_segments_out c). out_ok So Lo (snd_isn (sender c)) seg)"

lemma cn_inv_new:
  "Li < 2 ^ 64 - 2 ^ 32 \<Longrightarrow> Lo < 2 ^ 64 - 2 ^ 32 \<Longrightarrow> cn_inv Si Li isn So Lo (TCPConnection_new c random)"
  by (simp add: cn_inv_def TCPConnection_new_def rcv_new_inv snd_inv_new)

lemma cn_inv_shutdown [simp]: "cn_inv Si Li isn So Lo (clean_shutdown c) = cn_inv Si Li isn So Lo c"
  by (simp add: cn_inv_def)

text \<open>Setting the error flags changes nothing the invariants speak about.\<close>

lemma rcv_inv_set_error [simp]: "rcv_inv S L isn (rcv_set_error r) = rcv_inv S L isn r"
  by (simp add: rcv_inv_def rcv_set_error_def sr_inv_def)

lemma snd_inv_set_error [simp]: "snd_inv S L (snd_set_error s) = snd_inv S L s"
  by (simp add: snd_inv_def snd_set_error_def snd_data_def)

lemma snd_set_error_fields [simp]: "snd_isn (snd_set_error s) = snd_isn s" "segments_out (snd_set_error s) = segments_out s"
    "bytes_in_flight (snd_set_error s) = bytes_in_flight s" "outSegments (snd_set_error s) = outSegments s"
  by (simp_all add: snd_set_error_def)

lemma emit_segment_fields:
  "\<exists>seg'. cn_segments_out (emit_segment seg c) = cn_segments_out c @ [seg'] \<and> stamped seg seg'"
  "sender (emit_segment seg c) = (if rst_set c then snd_set_error (sender c) else sender c)"
  "receiver (emit_segment seg c) = (if rst_set c then rcv_set_error (receiver c) else receiver c)"
  "rst_set (emit_segment seg c) = rst_set c" "cfg (emit_segment seg c) = cfg c"
  by (auto simp: emit_segment_def Let_def intro!: stampedI split: option.splits)

lemma cn_inv_emit:
  assumes "cn_inv Si Li isn So Lo c" "sent_ok So Lo (snd_isn (sender c)) seg"
  shows "cn_inv Si Li isn So Lo (emit_segment seg c)"
proof -
  obtain seg' where o: "cn_segments_out (emit_segment seg c) = cn_segments_out c @ [seg']" "stamped seg seg'"
    using emit_segment_fields(1) by blast
  then have "out_ok So Lo (snd_isn (sender c)) seg'" using assms(2) by (auto simp: out_ok_def)
  then show ?thesis using assms(1) o(1) by (auto simp: cn_inv_def emit_segment_fields(2,3))
qed

lemma snd_inv_queue:
  assumes "snd_inv S L s" "\<forall>seg \<in> set q. sent_ok S L (snd_isn s) seg"
  shows "snd_inv S L (s\<lparr>segments_out := q\<rparr>)"
  using assms by (auto simp: snd_inv_def snd_sent_def)

lemma cn_inv_emit_all:
  "cn_inv Si Li isn So Lo c \<Longrightarrow> \<forall>seg \<in> set segs. sent_ok So Lo (snd_isn (sender c)) seg \<Longrightarrow>
     cn_inv Si Li isn So Lo (emit_all segs c)"
proof (induction segs arbitrary: c)
  case (Cons seg rest)
  let ?c = "c\<lparr>sender := (sender c)\<lparr>segments_out := rest\<rparr>\<rparr>"
  have "cn_inv Si Li isn So Lo ?c" using Cons.prems by (simp add: cn_inv_def snd_inv_queue)
  then have "cn_inv Si Li isn So Lo (emit_segment seg ?c)" using Cons.prems(2) by (intro cn_inv_emit) simp_all
  then show ?case using Cons.IH [of "emit_segment seg ?c"] Cons.prems(2) by (simp add: emit_segment_fields(2))
qed simp

lemma sent_ok_empty: "sent_ok S L isn TCPSegment_new"
  by (simp add: sent_ok_def) (simp add: TCPSegment_new_def TCPHeader_new_def TCPHeader_LENGTH_def)

lemma cn_inv_sendseg:
  assumes "cn_inv Si Li isn So Lo c"
  shows "cn_inv Si Li isn So Lo (sendseg c)"
proof -
  define c1 where "c1 = (if segments_out (sender c) = [] then c\<lparr>sender := (sender c)\<lparr>segments_out := [TCPSegment_new]\<rparr>\<rparr> else c)"
  have "cn_inv Si Li isn So Lo c1" using assms by (simp add: c1_def cn_inv_def snd_inv_queue sent_ok_empty)
  moreover from this have "\<forall>seg \<in> set (segments_out (sender c1)). sent_ok So Lo (snd_isn (sender c1)) seg"
    by (simp add: cn_inv_def snd_inv_def snd_sent_def)
  ultimately show ?thesis by (simp add: sendseg_def Let_def cn_inv_emit_all flip: c1_def)
qed

text \<open>The operations of the sender inside a connection.\<close>

lemma snd_isn_ops [simp]: "snd_isn (fill_window s) = snd_isn s" "snd_isn (ack_received a w s) = snd_isn s"
    "snd_isn (snd_tick ms s) = snd_isn s"
  by (rule isn_sys.moves [OF fill_window_moves refl] isn_sys.moves [OF ack_received_moves refl]
      isn_sys.moves [OF snd_tick_moves refl])+

lemma snd_inv_ops [simp]:
  "snd_inv S L s \<Longrightarrow> snd_inv S L (fill_window s)" "snd_inv S L s \<Longrightarrow> snd_inv S L (ack_received a w s)"
  "snd_inv S L s \<Longrightarrow> snd_inv S L (snd_tick ms s)"
  by (rule snd_sys.moves [OF fill_window_moves] snd_sys.moves [OF ack_received_moves] snd_sys.moves [OF snd_tick_moves];
      assumption)+

lemma cn_inv_frame [simp]:
  "cn_inv Si Li isn So Lo (c\<lparr>active := b\<rparr>) = cn_inv Si Li isn So Lo c"
  "cn_inv Si Li isn So Lo (c\<lparr>rst_set := b\<rparr>) = cn_inv Si Li isn So Lo c"
  "cn_inv Si Li isn So Lo (c\<lparr>syn_set := b\<rparr>) = cn_inv Si Li isn So Lo c"
  "cn_inv Si Li isn So Lo (c\<lparr>closedByApp := b\<rparr>) = cn_inv Si Li isn So Lo c"
  "cn_inv Si Li isn So Lo (c\<lparr>rec_fin_seqno := f\<rparr>) = cn_inv Si Li isn So Lo c"
  "cn_inv Si Li isn So Lo (c\<lparr>time_since_last_segment_received := t\<rparr>) = cn_inv Si Li isn So Lo c"
  by (simp_all add: cn_inv_def)

lemma cn_inv_parts:
  "cn_inv Si Li isn So Lo c \<Longrightarrow> rcv_inv Si Li isn (receiver c)" "cn_inv Si Li isn So Lo c \<Longrightarrow> snd_inv So Lo (sender c)"
  by (simp_all add: cn_inv_def)

lemma cn_inv_receiver: "cn_inv Si Li isn So Lo c \<Longrightarrow> rcv_inv Si Li isn r \<Longrightarrow> cn_inv Si Li isn So Lo (c\<lparr>receiver := r\<rparr>)"
  by (simp add: cn_inv_def)

lemma cn_inv_sender:
  "cn_inv Si Li isn So Lo c \<Longrightarrow> snd_inv So Lo s \<Longrightarrow> snd_isn s = snd_isn (sender c) \<Longrightarrow> cn_inv Si Li isn So Lo (c\<lparr>sender := s\<rparr>)"
  by (simp add: cn_inv_def)

lemmas cn_inv_upd = cn_inv_receiver cn_inv_sender cn_inv_sendseg cn_inv_parts

lemma cn_inv_received:
  assumes i: "cn_inv Si Li isn So Lo c" and o: "rcv_ok Si Li isn (receiver c) (Deliver k seg)"
  shows "cn_inv Si Li isn So Lo (cn_segment_received seg c)"
proof -
  have "rcv_inv Si Li isn (rcv_segment_received (receiver c) seg)"
    using rcv_step_inv [OF cn_inv_parts(1) [OF i] o] by simp
  then show ?thesis using i by (simp add: cn_segment_received_def Let_def cn_inv_upd)
qed

lemma cn_inv_tick: "cn_inv Si Li isn So Lo c \<Longrightarrow> cn_inv Si Li isn So Lo (cn_tick ms c)"
  by (simp add: cn_tick_def Let_def cn_inv_upd)

lemma cn_inv_connect: "cn_inv Si Li isn So Lo c \<Longrightarrow> cn_inv Si Li isn So Lo (connect c)"
  by (simp add: connect_def cn_inv_upd)

lemma cn_inv_destroy: "cn_inv Si Li isn So Lo c \<Longrightarrow> cn_inv Si Li isn So Lo (TCPConnection_destroy c)"
  by (simp add: TCPConnection_destroy_def cn_inv_upd)

lemma cn_inv_write:
  assumes i: "cn_inv Si Li isn So Lo c" and o: "snd_ok So Lo (sender c) (SWrite d)"
  shows "cn_inv Si Li isn So Lo (fst (cn_write d c))"
  using i inv_app_write [OF cn_inv_parts(2) [OF i] o] by (simp add: cn_write_def cn_inv_upd case_prod_beta Let_def)

lemma cn_inv_end:
  assumes i: "cn_inv Si Li isn So Lo c" and o: "snd_ok So Lo (sender c) SEnd"
  shows "cn_inv Si Li isn So Lo (end_input_stream c)"
  using i inv_app_end [OF cn_inv_parts(2) [OF i] o] by (simp add: end_input_stream_def Let_def cn_inv_upd)

section \<open>Runs\<close>

text \<open>
  What the owner of a connection does with it. \<open>CRead\<close> reads from the inbound stream, \<open>CSend\<close> takes
  the front of \<open>segments_out\<close>.
\<close>

datatype cn_op = CConnect | CWrite "byte list" | CEnd | CRead u64 | CTick u64 | CReceive TCPSegment | CSend | CDestroy

fun cn_step :: "cn_op \<Rightarrow> TCPConnection \<Rightarrow> TCPConnection" where
  "cn_step CConnect c = connect c"
| "cn_step (CWrite d) c = fst (cn_write d c)"
| "cn_step CEnd c = end_input_stream c"
| "cn_step (CRead n) c = c\<lparr>receiver := rcv_step (RRead n) (receiver c)\<rparr>"
| "cn_step (CTick ms) c = cn_tick ms c"
| "cn_step (CReceive seg) c = cn_segment_received seg c"
| "cn_step CSend c = c\<lparr>cn_segments_out := tl (cn_segments_out c)\<rparr>"
| "cn_step CDestroy c = TCPConnection_destroy c"

fun cn_delivers :: "cn_op \<Rightarrow> TCPConnection \<Rightarrow> byte list" where
  "cn_delivers (CRead n) c = snd (ByteStream_read (inbound_stream c) n)"
| "cn_delivers _ c = []"

fun cn_ok :: "(nat \<Rightarrow> byte) \<Rightarrow> nat \<Rightarrow> WrappingInt32 \<Rightarrow> (nat \<Rightarrow> byte) \<Rightarrow> nat \<Rightarrow> TCPConnection \<Rightarrow> cn_op \<Rightarrow> bool" where
  "cn_ok Si Li isn So Lo c (CWrite d) \<longleftrightarrow> snd_ok So Lo (sender c) (SWrite d)"
| "cn_ok Si Li isn So Lo c CEnd \<longleftrightarrow> snd_ok So Lo (sender c) SEnd"
| "cn_ok Si Li isn So Lo c (CReceive seg) \<longleftrightarrow> (\<exists>k. rcv_ok Si Li isn (receiver c) (Deliver k seg))"
| "cn_ok Si Li isn So Lo c e \<longleftrightarrow> True"

lemma cn_step_inv:
  assumes i: "cn_inv Si Li isn So Lo c" and o: "cn_ok Si Li isn So Lo c e"
  shows "cn_inv Si Li isn So Lo (cn_step e c)"
proof (cases e)
  case (CRead n)
  then show ?thesis
    using cn_inv_receiver [OF i rcv_step_inv [OF cn_inv_parts(1) [OF i], of "RRead n"]] by (simp del: rcv_step.simps)
next
  case CSend
  then show ?thesis using i by (cases "cn_segments_out c") (auto simp: cn_inv_def)
qed (use i o in \<open>auto simp: cn_inv_connect cn_inv_tick cn_inv_destroy simp del: rcv_ok.simps snd_ok.simps
      intro: cn_inv_write cn_inv_end cn_inv_received\<close>)

interpretation cn_sys: invariant_system cn_step "cn_ok Si Li isn So Lo" "cn_inv Si Li isn So Lo" for Si Li isn So Lo
  by unfold_locales (rule cn_step_inv)

text \<open>What the application has read only changes when it reads.\<close>

lemma rcv_set_error_obs [simp]:
  "rcv_ackno (rcv_set_error r) = rcv_ackno r" "rcv_window_size (rcv_set_error r) = rcv_window_size r"
  "rcv_unassembled_bytes (rcv_set_error r) = rcv_unassembled_bytes r" "rcv_set_error (rcv_set_error r) = rcv_set_error r"
  "rcv_stream_out (rcv_set_error r) = set_error (rcv_stream_out r)"
  by (simp_all add: rcv_set_error_def rcv_ackno_def rcv_window_size_def rcv_stream_out_def rcv_unassembled_bytes_def
      set_error_def input_ended_def bytes_written_def bytes_read_def unassembled_bytes_def)

lemma set_error_obs [simp]:
  "bytes_read (set_error st) = bytes_read st" "bytes_written (set_error st) = bytes_written st"
  "input_ended (set_error st) = input_ended st" "ByteStream_eof (set_error st) = ByteStream_eof st"
  "bs_buf (set_error st) = bs_buf st" "stream_error (set_error st)"
  by (simp_all add: set_error_def bytes_read_def bytes_written_def input_ended_def ByteStream_eof_def buffer_empty_def
      buffer_size_def stream_error_def)

lemma emit_all_fields:
  "rst_set (emit_all segs c) = rst_set c" "cfg (emit_all segs c) = cfg c"
  "receiver (emit_all segs c) = (if rst_set c \<and> segs \<noteq> [] then rcv_set_error (receiver c) else receiver c)"
  by (induction segs arbitrary: c) (auto simp: emit_segment_fields)

lemma sendseg_receiver: "receiver (sendseg c) = (if rst_set c then rcv_set_error (receiver c) else receiver c)"
  by (simp add: sendseg_def Let_def emit_all_fields)

lemma cn_read_count [simp]:
  "bytes_read (inbound_stream (sendseg c)) = bytes_read (inbound_stream c)"
  "bytes_read (inbound_stream (clean_shutdown c)) = bytes_read (inbound_stream c)"
  by (simp_all add: inbound_stream_def sendseg_receiver)

lemma cn_step_delivers:
  assumes i: "cn_inv Si Li isn So Lo c" and o: "cn_ok Si Li isn So Lo c e"
  shows "map Si [0..<unat (bytes_read (inbound_stream c))] @ cn_delivers e c
    = map Si [0..<unat (bytes_read (inbound_stream (cn_step e c)))]"
proof (cases e)
  case (CRead n)
  show ?thesis
    using rcv_step_delivers [OF cn_inv_parts(1) [OF i], of "RRead n"] CRead
    by (simp add: inbound_stream_def)
next
  case (CReceive seg)
  then obtain k where "rcv_ok Si Li isn (receiver c) (Deliver k seg)" using o by (auto simp del: rcv_ok.simps)
  from arg_cong [OF rcv_step_delivers [OF cn_inv_parts(1) [OF i] this], of length]
  have "bytes_read (rcv_stream_out (rcv_segment_received (receiver c) seg)) = bytes_read (rcv_stream_out (receiver c))"
    by (simp add: word_unat_eq_iff)
  then have "bytes_read (inbound_stream (cn_segment_received seg c)) = bytes_read (inbound_stream c)"
    by (simp add: cn_segment_received_def Let_def) (simp add: inbound_stream_def)
  then show ?thesis using CReceive by simp
next
  case (CTick ms)
  have "bytes_read (inbound_stream (cn_tick ms c)) = bytes_read (inbound_stream c)"
    by (simp add: cn_tick_def Let_def) (simp add: inbound_stream_def)
  then show ?thesis using CTick by simp
qed (simp_all add: connect_def cn_write_def end_input_stream_def TCPConnection_destroy_def case_prod_beta Let_def,
    simp_all add: inbound_stream_def)

interpretation cn_stream: delivery_system cn_step "cn_ok Si Li isn So Lo" "cn_inv Si Li isn So Lo" cn_delivers
    "\<lambda>c. unat (bytes_read (inbound_stream c))" Si for Si Li isn So Lo
  by unfold_locales (rule cn_step_delivers)

section \<open>Emission and shutdown\<close>

text \<open>The segment as it leaves: the acknowledgment and window of the receiver, and the reset flag.\<close>

definition stamp :: "TCPReceiver \<Rightarrow> bool \<Rightarrow> TCPSegment \<Rightarrow> TCPSegment" where
  "stamp r reset seg =
     (let h = (case rcv_ackno r of None \<Rightarrow> header seg
               | Some a \<Rightarrow> (header seg)\<lparr>ackno := a, ack := True, win := ucast (rcv_window_size r)\<rparr>)
      in seg\<lparr>header := if reset then h\<lparr>rst := True\<rparr> else h\<rparr>)"

lemma stamp_set_error [simp]: "stamp (rcv_set_error r) reset seg = stamp r reset seg"
  by (cases "rcv_ackno r") (simp_all add: stamp_def)

lemma emit_segment_out:
  "cn_segments_out (emit_segment seg c) = cn_segments_out c @ [stamp (receiver c) (rst_set c) seg]"
  by (cases "rcv_ackno (receiver c)"; cases "rec_fin_seqno c") (simp_all add: emit_segment_def stamp_def Let_def)

lemma emit_all_out:
  "cn_segments_out (emit_all segs c) = cn_segments_out c @ map (stamp (receiver c) (rst_set c)) segs"
  by (induction segs arbitrary: c) (simp_all add: emit_segment_out emit_segment_fields(3,4))

definition to_send :: "TCPSender \<Rightarrow> TCPSegment list" where
  "to_send s = (if segments_out s = [] then [TCPSegment_new] else segments_out s)"

lemma sendseg_out:
  "cn_segments_out (sendseg c) = cn_segments_out c @ map (stamp (receiver c) (rst_set c)) (to_send (sender c))"
  by (simp add: sendseg_def Let_def emit_all_out to_send_def)

lemma emit_segment_more [simp]:
  "segments_out (sender (emit_segment seg c)) = segments_out (sender c)"
  "outSegments (sender (emit_segment seg c)) = outSegments (sender c)"
  "bytes_in_flight (sender (emit_segment seg c)) = bytes_in_flight (sender c)"
  "input_ended (snd_stream (sender (emit_segment seg c))) = input_ended (snd_stream (sender c))"
  "ByteStream_eof (snd_stream (sender (emit_segment seg c))) = ByteStream_eof (snd_stream (sender c))"
  "time_since_last_segment_received (emit_segment seg c) = time_since_last_segment_received c"
  "linger_after_streams_finish (emit_segment seg c) = linger_after_streams_finish c"
  "active (emit_segment seg c) \<longleftrightarrow> active c \<and> \<not> rst_set c"
  by (auto simp: emit_segment_def snd_set_error_def Let_def split: option.splits)

lemma emit_all_more:
  "segments_out (sender (emit_all segs c)) = (if segs = [] then segments_out (sender c) else [])"
  "bytes_in_flight (sender (emit_all segs c)) = bytes_in_flight (sender c)"
  "input_ended (snd_stream (sender (emit_all segs c))) = input_ended (snd_stream (sender c))"
  "time_since_last_segment_received (emit_all segs c) = time_since_last_segment_received c"
  "linger_after_streams_finish (emit_all segs c) = linger_after_streams_finish c"
  "active (emit_all segs c) \<longleftrightarrow> active c \<and> (rst_set c \<longrightarrow> segs = [])"
  "stream_error (snd_stream (sender (emit_all segs c))) \<longleftrightarrow> stream_error (snd_stream (sender c)) \<or> rst_set c \<and> segs \<noteq> []"
  by (induction segs arbitrary: c) (auto simp: emit_segment_fields snd_set_error_def)

text \<open>
  When a connection may end without a reset: the whole inbound stream has been assembled, the
  outbound stream has been ended by the application and everything sent was acknowledged, and the
  connection has lingered for ten timeouts or need not linger.
\<close>

definition finished :: "TCPConnection \<Rightarrow> bool" where
  "finished c \<longleftrightarrow> input_ended (inbound_stream c) \<and> cn_unassembled_bytes c = 0
     \<and> input_ended (snd_stream (sender c)) \<and> segments_out (sender c) = [] \<and> cn_bytes_in_flight c = 0
     \<and> (10 * ucast (rt_timeout (cfg c)) \<le> time_since_last_segment_received c \<or> \<not> linger_after_streams_finish c)"

lemma shutdown_active: "\<not> active (clean_shutdown c) \<Longrightarrow> active c \<Longrightarrow> finished (clean_shutdown c)"
  by (auto simp: clean_shutdown_def finished_def Let_def inbound_stream_def cn_unassembled_bytes_def
      cn_bytes_in_flight_def split: if_splits)

lemma shutdown_keeps: "finished c \<Longrightarrow> finished (clean_shutdown c)"
  by (auto simp: clean_shutdown_def finished_def Let_def inbound_stream_def cn_unassembled_bytes_def
      cn_bytes_in_flight_def)

lemma shutdown_inactive: "\<not> active c \<Longrightarrow> \<not> active (clean_shutdown c)"
  by (auto simp: clean_shutdown_def Let_def)

lemma finished_emit:
  "segs \<noteq> [] \<Longrightarrow> finished (emit_all segs c) \<longleftrightarrow> finished (c\<lparr>sender := (sender c)\<lparr>segments_out := []\<rparr>\<rparr>)"
  unfolding finished_def inbound_stream_def cn_unassembled_bytes_def cn_bytes_in_flight_def
  by (simp add: emit_all_more emit_all_fields)

lemma sendseg_keeps:
  assumes "finished c"
  shows "finished (sendseg c)"
proof -
  have q: "segments_out (sender c) = []" using assms by (simp add: finished_def)
  then have "sender c = (sender c)\<lparr>segments_out := []\<rparr>" by simp
  then have "c\<lparr>sender := (sender c)\<lparr>segments_out := []\<rparr>\<rparr> = c" by simp
  with assms have "finished (emit_all [TCPSegment_new] (c\<lparr>sender := (sender c)\<lparr>segments_out := [TCPSegment_new]\<rparr>\<rparr>))"
    by (subst finished_emit) simp_all
  from shutdown_keeps [OF this] show ?thesis by (simp only: sendseg_def q Let_def) simp
qed

end
