(* ===== verification/Connection_Lifecycle.thy ===== *)
theory Connection_Lifecycle
  imports Connection
begin

text \<open>
  How a connection (\<^verbatim>\<open>libsponge/tcp_connection.cc\<close>) answers segments and how it ends: acknowledgments,
  resets, giving up after too many retransmissions, and the clean shutdown.
\<close>

section \<open>How a connection stops being active\<close>

text \<open>A connection that is no longer active was reset or is finished.\<close>

definition well_ended :: "TCPConnection \<Rightarrow> bool" where
  "well_ended c \<longleftrightarrow> active c \<or> rst_set c \<or> finished c"

lemma ended_active [simp]: "active c \<Longrightarrow> well_ended c"
  by (simp add: well_ended_def)

lemma ended_shutdown [simp]: "well_ended c \<Longrightarrow> well_ended (clean_shutdown c)"
  using shutdown_active [of c] shutdown_keeps [of c] by (auto simp: well_ended_def)

lemma sendseg_rst [simp]: "rst_set (sendseg c) = rst_set c"
  by (simp add: sendseg_def Let_def emit_all_fields)

lemma ended_sendseg [simp]:
  assumes "well_ended c"
  shows "well_ended (sendseg c)"
proof -
  consider "rst_set c" | "finished c" | "active c" "\<not> rst_set c" using assms by (auto simp: well_ended_def)
  then show ?thesis
  proof cases
    case 3
    then have "well_ended (emit_all segs c)" "well_ended (emit_all segs (c\<lparr>sender := s\<rparr>))" for segs s
      by (simp_all add: well_ended_def emit_all_more)
    then show ?thesis by (simp add: sendseg_def Let_def del: emit_all.simps)
  qed (simp_all add: well_ended_def sendseg_keeps)
qed

lemma ended_fin_seqno [simp]: "well_ended (c\<lparr>rec_fin_seqno := f\<rparr>) = well_ended c"
  by (simp add: well_ended_def finished_def inbound_stream_def cn_unassembled_bytes_def cn_bytes_in_flight_def)

lemma ended_rst [simp]: "rst_set c \<Longrightarrow> well_ended c"
  by (simp add: well_ended_def)

lemma ended_step: "active c \<Longrightarrow> well_ended (cn_step e c)"
proof (cases e)
  case (CReceive seg)
  assume "active c"
  then show ?thesis using CReceive by (simp add: cn_segment_received_def Let_def)
next
  case (CTick ms)
  assume "active c"
  then show ?thesis using CTick by (simp add: cn_tick_def Let_def)
qed (simp_all add: connect_def cn_write_def end_input_stream_def TCPConnection_destroy_def case_prod_beta Let_def)

text \<open>No operation makes an inactive connection active again.\<close>

lemma sendseg_inactive [simp]: "\<not> active c \<Longrightarrow> \<not> active (sendseg c)"
  by (simp add: sendseg_def Let_def shutdown_inactive emit_all_more)

lemma inactive_noop:
  assumes "\<not> active c"
  shows "cn_segment_received seg c = c" "cn_tick ms c = c" "TCPConnection_destroy c = c"
  using assms by (simp_all add: cn_segment_received_def cn_tick_def TCPConnection_destroy_def)

lemma inactive_step: "\<not> active c \<Longrightarrow> \<not> active (cn_step e c)"
  by (cases e) (simp_all add: inactive_noop connect_def cn_write_def end_input_stream_def case_prod_beta Let_def)

interpretation inactive_sys: invariant_system cn_step "\<lambda>c e. True" "\<lambda>c. \<not> active c"
  by unfold_locales (rule inactive_step)

lemma sendseg_reset:
  assumes "rst_set c"
  shows "\<not> active (sendseg c)" "stream_error (inbound_stream (sendseg c))" "stream_error (snd_stream (sender (sendseg c)))"
  using assms by (simp_all add: sendseg_def Let_def shutdown_inactive emit_all_more emit_all_fields inbound_stream_def)

lemma to_send_nonempty [simp]: "to_send s \<noteq> []"
  by (simp add: to_send_def)


section \<open>Properties\<close>


lemmas cn_eval = connect_def sendseg_def emit_segment_def clean_shutdown_def TCPConnection_new_def TCPConfig_new_def
  TCPSender_new_def RETimer_new_def fill_window_def sendSegment_def syn_segment_def TCPReceiver_new_def StreamReassembler_new_def
  rcv_stream_out_def rcv_ackno_def ByteStream_new_def input_ended_def Let_def

definition wit_cn :: TCPConnection where
  "wit_cn = connect (TCPConnection_new (TCPConfig_new\<lparr>fixed_isn := Some (WrappingInt32 5)\<rparr>) 0)"

lemma wit_cn_state: "active wit_cn" "syn_set wit_cn" "\<not> fin_ack_sent wit_cn" "rt_timeout (cfg wit_cn) = 1000"
    "cn_segments_out wit_cn = [syn_segment (sender (TCPConnection_new (TCPConfig_new\<lparr>fixed_isn := Some (WrappingInt32 5)\<rparr>) 0))]"
    "outSegments (sender wit_cn) = cn_segments_out wit_cn"
  by (simp_all add: wit_cn_def cn_eval TIMEOUT_DFLT_def)



text \<open>
  A reset ends the connection at once: an active connection past the handshake's start that receives a
  segment with RST sets the error on both its streams, becomes inactive, and emits nothing.
\<close>

theorem reset_received:
  assumes "active c" and "syn_set c" and "rst (header seg)"
  defines "c' \<equiv> cn_segment_received seg c"
  shows "\<not> active c' \<and> stream_error (inbound_stream c') \<and> stream_error (snd_stream (sender c'))
    \<and> cn_segments_out c' = cn_segments_out c"
  using assms by (simp add: cn_segment_received_def Let_def inbound_stream_def snd_set_error_def)

theorem reset_received_witness:
  "\<not> active (cn_segment_received (TCPSegment_new\<lparr>header := TCPHeader_new\<lparr>rst := True\<rparr>\<rparr>) wit_cn)"
  using reset_received [of wit_cn "TCPSegment_new\<lparr>header := TCPHeader_new\<lparr>rst := True\<rparr>\<rparr>"] wit_cn_state by simp

text \<open>
  C31. The end of a connection is final: whatever is done with an inactive connection it stays inactive, and
  segments, ticks and its destruction have no effect on it.
\<close>

theorem inactive_is_final:
  assumes "\<not> active c"
  shows "\<not> active (run cn_step ops c)
    \<and> cn_segment_received seg (run cn_step ops c) = run cn_step ops c
    \<and> cn_tick ms (run cn_step ops c) = run cn_step ops c
    \<and> TCPConnection_destroy (run cn_step ops c) = run cn_step ops c"
  using inactive_sys.run_inv [OF assms run_ok_True, of ops] by (simp_all add: inactive_noop)

theorem inactive_is_final_witness:
  "\<not> active (run cn_step [CConnect, CWrite [1], CTick 5] (TCPConnection_destroy wit_cn))"
proof -
  have "\<not> active (TCPConnection_destroy wit_cn)"
    using wit_cn_state by (simp add: TCPConnection_destroy_def sendseg_reset)
  from inactive_is_final [OF this] show ?thesis by blast
qed

text \<open>
  C32. A connection gives up after too many retransmissions: a tick that brings the number of consecutive
  retransmissions above \<open>MAX_RETX_ATTEMPTS\<close> makes it inactive with an error on both streams, and
  sends at least one segment, all of them with RST.
\<close>

theorem gives_up_with_reset:
  assumes "active c" and "MAX_RETX_ATTEMPTS < consecutive_retransmissions (snd_tick ms (sender c))"
  defines "c' \<equiv> cn_tick ms c"
  shows "\<not> active c' \<and> stream_error (inbound_stream c') \<and> stream_error (snd_stream (sender c'))
    \<and> (\<exists>new. new \<noteq> [] \<and> cn_segments_out c' = cn_segments_out c @ new \<and> list_all (\<lambda>seg. rst (header seg)) new)"
proof -
  define c1 where "c1 = c\<lparr>time_since_last_segment_received := time_since_last_segment_received c + ms,
    sender := snd_tick ms (sender c), rst_set := True\<rparr>"
  have r: "rst_set c1" by (simp add: c1_def)
  have "c' = clean_shutdown (sendseg c1)"
    using assms(1,2) shutdown_inactive [OF sendseg_reset(1) [OF r]] by (simp add: c'_def cn_tick_def Let_def c1_def)
  moreover have "list_all (\<lambda>seg. rst (header seg)) (map (stamp (receiver c1) True) segs)" for segs
    by (simp add: stamp_def list_all_iff)
  moreover have "cn_segments_out c1 = cn_segments_out c" by (simp add: c1_def)
  ultimately show ?thesis
    using sendseg_reset [OF r] shutdown_inactive sendseg_out [of c1] r by (auto simp: inbound_stream_def)
qed

definition wit_tired :: TCPConnection where
  "wit_tired = wit_cn\<lparr>sender := (sender wit_cn)\<lparr>consecutive_retransmission := 8, true_window_size := 1\<rparr>\<rparr>"

theorem gives_up_with_reset_witness: "\<not> active (cn_tick 1000 wit_tired)"
proof -
  have "consecutive_retransmissions (snd_tick 1000 (sender wit_tired)) = 9"
    by (simp add: wit_tired_def wit_cn_def cn_eval snd_tick_def passTime_def timer_start_def resetTime_def doubleRTO_def
        consecutive_retransmissions_def TIMEOUT_DFLT_def)
  then show ?thesis
    using gives_up_with_reset [of wit_tired 1000] wit_cn_state by (simp add: MAX_RETX_ATTEMPTS_def wit_tired_def)
qed

text \<open>
  C5. A clean shutdown loses nothing: when an operation ends an active connection without a reset, the
  whole inbound stream has been assembled, the application has ended the outbound stream, nothing is queued or in flight,
  and the connection has lingered for ten initial timeouts or the peer's stream ended first.
\<close>

theorem clean_shutdown_safe:
  assumes "active c" and "\<not> active (cn_step e c)" and "\<not> rst_set (cn_step e c)"
  defines "c' \<equiv> cn_step e c"
  shows "input_ended (inbound_stream c') \<and> cn_unassembled_bytes c' = 0
    \<and> input_ended (snd_stream (sender c')) \<and> segments_out (sender c') = [] \<and> cn_bytes_in_flight c' = 0
    \<and> (10 * ucast (rt_timeout (cfg c')) \<le> time_since_last_segment_received c' \<or> \<not> linger_after_streams_finish c')"
  using ended_step [OF assms(1), of e] assms(2,3) unfolding c'_def by (simp add: well_ended_def finished_def)

text \<open>Both streams ended without data, the peer's first.\<close>

definition wit_ending :: TCPConnection where
  "wit_ending =
     (let c = TCPConnection_new TCPConfig_new 0
      in c\<lparr>linger_after_streams_finish := False, sender := (sender c)\<lparr>snd_stream := end_input (snd_stream (sender c))\<rparr>,
           receiver := (receiver c)\<lparr>rcv_reassembler := (rcv_reassembler (receiver c))
             \<lparr>sr_output := end_input (sr_output (rcv_reassembler (receiver c)))\<rparr>\<rparr>\<rparr>)"

theorem clean_shutdown_safe_witness: "cn_bytes_in_flight (cn_step (CTick 1) wit_ending) = 0"
proof -
  have s: "segments_out (snd_tick 1 (sender wit_ending)) = []" "bytes_in_flight (snd_tick 1 (sender wit_ending)) = 0"
    "input_ended (snd_stream (snd_tick 1 (sender wit_ending)))" "consecutive_retransmissions (snd_tick 1 (sender wit_ending)) = 0"
    by (simp_all add: wit_ending_def TCPConnection_new_def TCPSender_new_def snd_tick_def end_input_def input_ended_def
        consecutive_retransmissions_def Let_def)
  have r: "input_ended (rcv_stream_out (receiver wit_ending))" "rcv_unassembled_bytes (receiver wit_ending) = 0"
    "active wit_ending" "\<not> rst_set wit_ending" "\<not> linger_after_streams_finish wit_ending"
    by (simp_all add: wit_ending_def TCPConnection_new_def TCPReceiver_new_def StreamReassembler_new_def rcv_stream_out_def
        end_input_def input_ended_def rcv_unassembled_bytes_def unassembled_bytes_def Let_def)
  have "\<not> active (cn_step (CTick 1) wit_ending)" "\<not> rst_set (cn_step (CTick 1) wit_ending)"
    using s r by (simp_all add: cn_tick_def MAX_RETX_ATTEMPTS_def clean_shutdown_def Let_def)
  from clean_shutdown_safe [OF r(3) this] show ?thesis by blast
qed

section \<open>Where the code departs from its documentation\<close>

text \<open>The window is truncated to sixteen bits: with 64 KiB free a zero window is advertised.\<close>

lemma window_truncated:
  assumes "rcv_ackno (receiver c) = Some a" and "rcv_window_size (receiver c) = 0x10000"
  shows "win (header (last (cn_segments_out (sendseg c)))) = 0"
proof -
  have "(ucast (0x10000 :: u64) :: u16) = 0" by simp
  then show ?thesis using assms by (simp add: sendseg_out last_map stamp_def Let_def)
qed

text \<open>With nothing to send, the segment that carries the acknowledgment has sequence number zero.\<close>

lemma bare_segment_at_zero:
  assumes "segments_out (sender c) = []"
  shows "seqno (header (last (cn_segments_out (sendseg c)))) = WrappingInt32 0"
  using assms
  by (cases "rcv_ackno (receiver c)") (simp_all add: sendseg_out to_send_def stamp_def TCPSegment_new_def TCPHeader_new_def Let_def)

text \<open>
  Once the peer's FIN has been acknowledged, a segment with data and without FIN gets no answer. If that acknowledgment was lost, the peer, which
  retransmits its oldest segment, repeats the data until it gives up.
\<close>

lemma late_data_unanswered:
  assumes "fin_ack_sent c" and "\<not> fin (header seg)"
  shows "cn_segments_out (cn_segment_received seg c) = cn_segments_out c"
  using assms by (auto simp: cn_segment_received_def Let_def)

end
