(* ===== verification/TCP_States.thy ===== *)
theory TCP_States
  imports Connection_Lifecycle
begin

text \<open>
  \<^verbatim>\<open>libsponge/tcp_helpers/tcp_state.{hh,cc}\<close>: the summary of a connection that is compared with the
  states of the TCP standard.
\<close>

section \<open>Model\<close>

definition RCV_ERROR :: string where "RCV_ERROR = ''error (connection was reset)''"
definition RCV_LISTEN :: string where "RCV_LISTEN = ''waiting for SYN: ackno is empty''"
definition RCV_SYN_RECV :: string where "RCV_SYN_RECV = ''SYN received (ackno exists), and input to stream hasn't ended''"
definition RCV_FIN_RECV :: string where "RCV_FIN_RECV = ''input to stream has ended''"
definition SND_ERROR :: string where "SND_ERROR = ''error (connection was reset)''"
definition SND_CLOSED :: string where "SND_CLOSED = ''waiting for stream to begin (no SYN sent)''"
definition SND_SYN_SENT :: string where "SND_SYN_SENT = ''stream started but nothing acknowledged''"
definition SND_SYN_ACKED :: string where "SND_SYN_ACKED = ''stream ongoing''"
definition SND_FIN_SENT :: string where "SND_FIN_SENT = ''stream finished (FIN sent) but not fully acknowledged''"
definition SND_FIN_ACKED :: string where "SND_FIN_ACKED = ''stream finished and fully acknowledged''"

datatype State = LISTEN | SYN_RCVD | SYN_SENT | ESTABLISHED | CLOSE_WAIT | LAST_ACK | FIN_WAIT_1 | FIN_WAIT_2
  | CLOSING | TIME_WAIT | CLOSED | RESET

record TCPState =
  st_sender :: string
  st_receiver :: string
  st_active :: bool
  st_linger :: bool

definition TCPState_eq :: "TCPState \<Rightarrow> TCPState \<Rightarrow> bool" where
  "TCPState_eq a b \<longleftrightarrow> st_active a = st_active b \<and> st_linger a = st_linger b
     \<and> st_sender a = st_sender b \<and> st_receiver a = st_receiver b"

definition TCPState_neq :: "TCPState \<Rightarrow> TCPState \<Rightarrow> bool" where
  "TCPState_neq a b \<longleftrightarrow> \<not> TCPState_eq a b"

definition to_string_bool :: "bool \<Rightarrow> string" where
  "to_string_bool b = (if b then ''1'' else ''0'')"

definition TCPState_name :: "TCPState \<Rightarrow> string" where
  "TCPState_name s = ''sender=`'' @ st_sender s @ ''`, receiver=`'' @ st_receiver s @ ''`, active='' @ to_string_bool (st_active s)
     @ '', linger_after_streams_finish='' @ to_string_bool (st_linger s)"

text \<open>The constructor for an official state; the two flags are true unless the state clears them.\<close>

fun TCPState_of :: "State \<Rightarrow> TCPState" where
  "TCPState_of LISTEN = \<lparr>st_sender = SND_CLOSED, st_receiver = RCV_LISTEN, st_active = True, st_linger = True\<rparr>"
| "TCPState_of SYN_RCVD = \<lparr>st_sender = SND_SYN_SENT, st_receiver = RCV_SYN_RECV, st_active = True, st_linger = True\<rparr>"
| "TCPState_of SYN_SENT = \<lparr>st_sender = SND_SYN_SENT, st_receiver = RCV_LISTEN, st_active = True, st_linger = True\<rparr>"
| "TCPState_of ESTABLISHED = \<lparr>st_sender = SND_SYN_ACKED, st_receiver = RCV_SYN_RECV, st_active = True, st_linger = True\<rparr>"
| "TCPState_of CLOSE_WAIT = \<lparr>st_sender = SND_SYN_ACKED, st_receiver = RCV_FIN_RECV, st_active = True, st_linger = False\<rparr>"
| "TCPState_of LAST_ACK = \<lparr>st_sender = SND_FIN_SENT, st_receiver = RCV_FIN_RECV, st_active = True, st_linger = False\<rparr>"
| "TCPState_of CLOSING = \<lparr>st_sender = SND_FIN_SENT, st_receiver = RCV_FIN_RECV, st_active = True, st_linger = True\<rparr>"
| "TCPState_of FIN_WAIT_1 = \<lparr>st_sender = SND_FIN_SENT, st_receiver = RCV_SYN_RECV, st_active = True, st_linger = True\<rparr>"
| "TCPState_of FIN_WAIT_2 = \<lparr>st_sender = SND_FIN_ACKED, st_receiver = RCV_SYN_RECV, st_active = True, st_linger = True\<rparr>"
| "TCPState_of TIME_WAIT = \<lparr>st_sender = SND_FIN_ACKED, st_receiver = RCV_FIN_RECV, st_active = True, st_linger = True\<rparr>"
| "TCPState_of RESET = \<lparr>st_sender = SND_ERROR, st_receiver = RCV_ERROR, st_active = False, st_linger = False\<rparr>"
| "TCPState_of CLOSED = \<lparr>st_sender = SND_FIN_ACKED, st_receiver = RCV_FIN_RECV, st_active = False, st_linger = False\<rparr>"

definition state_summary_receiver :: "TCPReceiver \<Rightarrow> string" where
  "state_summary_receiver r =
     (if stream_error (rcv_stream_out r) then RCV_ERROR
      else if rcv_ackno r = None then RCV_LISTEN
      else if input_ended (rcv_stream_out r) then RCV_FIN_RECV
      else RCV_SYN_RECV)"

definition state_summary_sender :: "TCPSender \<Rightarrow> string" where
  "state_summary_sender s =
     (if stream_error (snd_stream s) then SND_ERROR
      else if next_seqno s = 0 then SND_CLOSED
      else if next_seqno s = bytes_in_flight s then SND_SYN_SENT
      else if \<not> ByteStream_eof (snd_stream s) then SND_SYN_ACKED
      else if next_seqno s < bytes_written (snd_stream s) + 2 then SND_SYN_ACKED
      else if bytes_in_flight s \<noteq> 0 then SND_FIN_SENT
      else SND_FIN_ACKED)"

definition TCPState_make :: "TCPSender \<Rightarrow> TCPReceiver \<Rightarrow> bool \<Rightarrow> bool \<Rightarrow> TCPState" where
  "TCPState_make s r act linger = \<lparr>st_sender = state_summary_sender s, st_receiver = state_summary_receiver r,
     st_active = act, st_linger = (if act then linger else False)\<rparr>"

definition cn_state :: "TCPConnection \<Rightarrow> TCPState" where
  "cn_state c = TCPState_make (sender c) (receiver c) (active c) (linger_after_streams_finish c)"

section \<open>The summaries\<close>

lemmas summary_strings = RCV_ERROR_def RCV_LISTEN_def RCV_SYN_RECV_def RCV_FIN_RECV_def SND_ERROR_def SND_CLOSED_def
  SND_SYN_SENT_def SND_SYN_ACKED_def SND_FIN_SENT_def SND_FIN_ACKED_def

lemma summaries_distinct:
  "distinct [RCV_ERROR, RCV_LISTEN, RCV_SYN_RECV, RCV_FIN_RECV]"
  "distinct [SND_ERROR, SND_CLOSED, SND_SYN_SENT, SND_SYN_ACKED, SND_FIN_SENT, SND_FIN_ACKED]"
  by (simp_all add: summary_strings)

lemma TCPState_eq_iff: "TCPState_eq a b \<longleftrightarrow> a = b"
  by (cases a; cases b) (auto simp: TCPState_eq_def)

lemma buffer_empty_iff: "bs_inv st \<Longrightarrow> buffer_empty st \<longleftrightarrow> bs_buf st = []"
  unfolding buffer_empty_def unat_eq_0 [symmetric] by simp

lemma sent_and_written:
  assumes "snd_inv S L s"
  shows "next_seqno s = 0 \<longleftrightarrow> \<not> syn_flag s"
    and "fin_flag s \<longleftrightarrow> ByteStream_eof (snd_stream s) \<and> bytes_written (snd_stream s) + 2 \<le> next_seqno s"
    and "bytes_in_flight s = of_nat (in_flight s)" and "unat (bytes_in_flight s) = in_flight s"
proof -
  let ?st = "snd_stream s"
  have d: "snd_data S L s" "snd_acct s" using assms by (simp_all add: snd_inv_def)
  then have h: "bs_holds S ?st" and L: "L < 2 ^ 64 - 2 ^ 32" "unat (bs_write_count ?st) \<le> L"
    by (simp_all only: snd_data_def)
  have n: "unat (next_seqno s) = (if syn_flag s then 1 else 0) + unat (bs_read_count ?st) + (if fin_flag s then 1 else 0)"
    "\<not> syn_flag s \<Longrightarrow> bs_read_count ?st = 0" "fin_flag s \<Longrightarrow> syn_flag s \<and> bs_is_eof ?st \<and> bs_buf ?st = []"
    using d(1) by (auto simp: snd_data_def)
  show "next_seqno s = 0 \<longleftrightarrow> \<not> syn_flag s"
    using n unfolding unat_eq_0 [symmetric] by auto
  have w: "unat (bs_write_count ?st) = unat (bs_read_count ?st) + length (bs_buf ?st)" using h by (simp add: bs_holds_def)
  have u: "unat (bytes_written ?st + 2) = unat (bs_write_count ?st) + 2"
    using L by (simp add: bytes_written_def unat_word_ariths)
  have e: "ByteStream_eof ?st \<longleftrightarrow> bs_is_eof ?st \<and> bs_buf ?st = []"
    using buffer_empty_iff [OF bs_holds_inv [OF h]] by (simp add: ByteStream_eof_def input_ended_def)
  show "fin_flag s \<longleftrightarrow> ByteStream_eof ?st \<and> bytes_written ?st + 2 \<le> next_seqno s"
    unfolding e word_le_nat_alt u using n w by (auto split: if_splits)
  show a: "bytes_in_flight s = of_nat (in_flight s)" using d(2) by (simp add: snd_acct_def)
  show "unat (bytes_in_flight s) = in_flight s"
    using d(2) unat_u64_less [of "next_seqno s"] unfolding a by (intro unat_of_nat_u64) (simp add: snd_acct_def)
qed

section \<open>Properties\<close>

text \<open>
  C33. The summary of the sender says what the sender has done: in every reachable state the string computed from the
  counters is decided by whether the stream failed, whether the SYN and the FIN have been sent, and how much of what
  has been sent is still outstanding.
\<close>

theorem sender_summary_exact:
  assumes "L < 2 ^ 64 - 2 ^ 32" and "run_ok (snd_ok S L) snd_step ops (TCPSender_new cap timeout fixed random)"
  defines "s \<equiv> run snd_step ops (TCPSender_new cap timeout fixed random)"
  shows "state_summary_sender s =
     (if stream_error (snd_stream s) then SND_ERROR
      else if \<not> syn_flag s then SND_CLOSED
      else if in_flight s = unat (next_seqno s) then SND_SYN_SENT
      else if \<not> fin_flag s then SND_SYN_ACKED
      else if 0 < in_flight s then SND_FIN_SENT
      else SND_FIN_ACKED)"
proof -
  have "snd_inv S L s"
    unfolding s_def using snd_inv_new [OF assms(1)] assms(2) by (rule snd_sys.run_inv)
  note f = sent_and_written [OF this]
  have "next_seqno s = bytes_in_flight s \<longleftrightarrow> in_flight s = unat (next_seqno s)"
    using f(4) by (auto simp: word_unat_eq_iff)
  moreover have "bytes_in_flight s \<noteq> 0 \<longleftrightarrow> 0 < in_flight s" using f(4) by (auto simp flip: unat_eq_0)
  ultimately show ?thesis using f(1,2) by (auto simp: state_summary_sender_def)
qed

theorem sender_summary_exact_witness:
  "state_summary_sender (run snd_step [SFill] (TCPSender_new 10 1000 (Some (WrappingInt32 5)) 0)) = SND_SYN_SENT"
proof -
  have "in_flight (run snd_step [SFill] (TCPSender_new 10 1000 (Some (WrappingInt32 5)) 0)) = 1"
    "next_seqno (run snd_step [SFill] (TCPSender_new 10 1000 (Some (WrappingInt32 5)) 0)) = 1"
    "syn_flag (run snd_step [SFill] (TCPSender_new 10 1000 (Some (WrappingInt32 5)) 0))"
    "\<not> stream_error (snd_stream (run snd_step [SFill] (TCPSender_new 10 1000 (Some (WrappingInt32 5)) 0)))"
    by (simp_all add: snd_eval in_flight_def seg_len_def stream_error_def)
  then show ?thesis
    using sender_summary_exact [of 0 "\<lambda>i. 0" "[SFill]" 10 1000 "Some (WrappingInt32 5)" 0] by simp
qed

text \<open>
  The official states are told apart: the comparison of two summaries is equality, and two official
  states have the same summary only if they are the same.
\<close>

theorem official_states_distinct: "TCPState_eq (TCPState_of s) (TCPState_of t) \<longleftrightarrow> s = t"
  unfolding TCPState_eq_iff using summaries_distinct by (cases s; cases t) auto

end
