(* ===== verification/Handshake.thy ===== *)
theory Handshake
  imports TCP_States
begin

text \<open>
  Opening a connection: two fresh connections that exchange the segments they emit go through the
  states of the three-way handshake and are both established.
\<close>

section \<open>The receiver during the handshake\<close>

lemma push_nothing: "push_substring (StreamReassembler_new cap) [] index False = StreamReassembler_new cap"
  by (subst push_substring.simps) (simp add: StreamReassembler_new_def drain.simps Let_def)

definition rcv_opened :: "u64 \<Rightarrow> WrappingInt32 \<Rightarrow> TCPReceiver" where
  "rcv_opened cap isn = (TCPReceiver_new cap)\<lparr>rcv_isn := isn, rcv_isn_set := True\<rparr>"

definition empty_payload :: "TCPSegment \<Rightarrow> bool" where
  "empty_payload seg \<longleftrightarrow> str (payload seg) = [] \<and> \<not> fin (header seg)"

lemma rcv_syn:
  assumes "empty_payload seg" "syn (header seg)"
  shows "rcv_segment_received (TCPReceiver_new cap) seg = rcv_opened cap (seqno (header seg))"
  using assms by (simp add: rcv_segment_received_def rcv_opened_def empty_payload_def Buffer_copy_def TCPReceiver_new_def
      push_nothing Let_def)

lemma rcv_bare:
  assumes "empty_payload seg" "\<not> syn (header seg)"
  shows "rcv_segment_received (rcv_opened cap isn) seg = rcv_opened cap isn"
  using assms by (simp add: rcv_segment_received_def rcv_opened_def empty_payload_def Buffer_copy_def TCPReceiver_new_def
      push_nothing Let_def)

lemma rcv_opened_fields [simp]:
  "rcv_ackno (rcv_opened cap isn) = Some (wrap 1 isn)" "\<not> input_ended (rcv_stream_out (rcv_opened cap isn))"
  "\<not> stream_error (rcv_stream_out (rcv_opened cap isn))" "rcv_unassembled_bytes (rcv_opened cap isn) = 0"
  by (simp_all add: rcv_opened_def rcv_ackno_def TCPReceiver_new_def StreamReassembler_new_def rcv_stream_out_def
      input_ended_def bytes_written_def stream_error_def rcv_unassembled_bytes_def unassembled_bytes_def)

lemma rcv_new_fields [simp]:
  "rcv_ackno (TCPReceiver_new cap) = None" "\<not> input_ended (rcv_stream_out (TCPReceiver_new cap))"
  "\<not> stream_error (rcv_stream_out (TCPReceiver_new cap))"
  by (simp_all add: rcv_ackno_def TCPReceiver_new_def StreamReassembler_new_def rcv_stream_out_def input_ended_def stream_error_def)

section \<open>The sender during the handshake\<close>

text \<open>The sender after its SYN: outstanding, or acknowledged.\<close>

definition snd_opened :: "WrappingInt32 \<Rightarrow> TCPSegment list \<Rightarrow> TCPSender \<Rightarrow> bool" where
  "snd_opened isn segs s \<longleftrightarrow> snd_isn s = isn \<and> outSegments s = segs \<and> next_seqno s = 1 \<and> syn_flag s \<and> \<not> fin_flag s
     \<and> bytes_in_flight s = (\<Sum>seg \<leftarrow> segs. length_in_sequence_space seg) \<and> bs_buf (snd_stream s) = []
     \<and> \<not> bs_is_eof (snd_stream s) \<and> \<not> bs_error (snd_stream s)"

definition syn_of :: "WrappingInt32 \<Rightarrow> TCPSegment" where
  "syn_of isn = TCPSegment_new\<lparr>header := TCPHeader_new\<lparr>seqno := isn, syn := True\<rparr>\<rparr>"

lemma syn_of_fields [simp]:
  "empty_payload (syn_of isn)" "syn (header (syn_of isn))" "seqno (header (syn_of isn)) = isn"
  "length_in_sequence_space (syn_of isn) = 1" "\<not> rst (header (syn_of isn))" "\<not> ack (header (syn_of isn))" "\<not> fin (header (syn_of isn))"
  by (simp_all add: syn_of_def empty_payload_def TCPSegment_new_def TCPHeader_new_def length_in_sequence_space_def)

lemma open_sends_syn:
  fixes cap timeout fixed random
  defines "s \<equiv> TCPSender_new cap timeout fixed random"
  shows "snd_opened (snd_isn s) [syn_of (snd_isn s)] (fill_window s)" "segments_out (fill_window s) = [syn_of (snd_isn s)]"
    "ackGot (fill_window s) = snd_isn s"
  unfolding s_def
  by (simp_all add: snd_opened_def fill_window_def sendSegment_def TCPSender_new_def syn_of_def wrap_0 Let_def
      length_in_sequence_space_def TCPSegment_new_def TCPHeader_new_def split: WrappingInt32.splits)

lemma read_nothing: "bs_buf st = [] \<Longrightarrow> ByteStream_read st n = (st, [])"
  by (cases st) (auto simp: ByteStream_read_def peek_output_def pop_output_def substr_def word_gt_0 Let_def)

lemma idle_loop:
  assumes "snd_opened isn segs s"
  shows "fst (fill_loop s) = s"
proof -
  have "\<not> ByteStream_eof (snd_stream s)" using assms by (simp add: snd_opened_def ByteStream_eof_def input_ended_def)
  then show ?thesis
    using assms read_nothing [of "snd_stream s"]
    by (subst fill_loop.simps) (simp add: snd_opened_def next_segment_def length_in_sequence_space_def TCPSegment_new_def
        TCPHeader_new_def Let_def)
qed

lemma idle_fill_window:
  assumes "snd_opened isn segs s"
  shows "snd_opened isn segs (fill_window s)" "segments_out (fill_window s) = segments_out s" "ackGot (fill_window s) = ackGot s"
proof -
  have f: "snd_opened isn segs (s\<lparr>true_window_size := w\<rparr>)" for w using assms by (simp add: snd_opened_def)
  have "fill_window s = s \<or> (\<exists>w. fill_window s = s\<lparr>true_window_size := w\<rparr>)"
    using assms idle_loop [OF assms] idle_loop [OF f [of 1]]
    by (auto simp: fill_window_def snd_opened_def Let_def split: prod.splits)
  then show "snd_opened isn segs (fill_window s)" "segments_out (fill_window s) = segments_out s" "ackGot (fill_window s) = ackGot s"
    using f assms by auto
qed

lemma raw_Suc:
  assumes "raw_value isn \<noteq> 0xFFFFFFFF"
  shows "raw_value isn < raw_value (wrap 1 isn)"
    and "ucast (raw_value isn) + (1 :: u64) \<le> ucast (raw_value (wrap 1 isn))"
proof -
  have "unat (raw_value isn) \<noteq> unat (0xFFFFFFFF :: u32)" using assms by (simp only: word_unat_eq_iff not_False_eq_True)
  then have l: "unat (raw_value isn) + 1 < 2 ^ 32" using unsigned_less [where 'a = nat, of "raw_value isn"] by simp
  have w: "raw_value (wrap 1 isn) = raw_value isn + 1" by (simp add: raw_value_wrap add.commute)
  have u: "unat (raw_value isn + 1) = unat (raw_value isn) + 1" using l by (simp add: unat_word_ariths)
  show "raw_value isn < raw_value (wrap 1 isn)" unfolding w word_less_nat_alt u by simp
  show "ucast (raw_value isn) + (1 :: u64) \<le> ucast (raw_value (wrap 1 isn))"
    unfolding w word_le_nat_alt using l u by (simp add: unat_word_ariths unsigned_ucast_eq take_bit_eq_mod)
qed

lemma open_acked:
  assumes o: "snd_opened isn [syn_of isn] s" and a: "ackGot s = isn" and r: "raw_value isn \<noteq> 0xFFFFFFFF"
  shows "snd_opened isn [] (ack_received (wrap 1 isn) w s)" "segments_out (ack_received (wrap 1 isn) w s) = segments_out s"
proof -
  have d: "drop_acked (wrap 1 isn) s = s\<lparr>bytes_in_flight := 0, outSegments := []\<rparr>"
    using o raw_Suc(2) [OF r] by (simp add: drop_acked.simps snd_opened_def)
  define s' where "s' = s\<lparr>bytes_in_flight := 0, outSegments := [], ackGot := wrap 1 isn,
    timer := resetRTO (initial_retransmission_timeout s) (resetTime (timer s)), consecutive_retransmission := 0, true_window_size := w\<rparr>"
  have "ack_received (wrap 1 isn) w s = fill_window s'"
    using o d a raw_Suc(1) [OF r] by (simp add: ack_received_def snd_opened_def s'_def Let_def)
  moreover have "snd_opened isn [] s'" "segments_out s' = segments_out s" using o by (simp_all add: snd_opened_def s'_def)
  ultimately show "snd_opened isn [] (ack_received (wrap 1 isn) w s)"
    "segments_out (ack_received (wrap 1 isn) w s) = segments_out s" using idle_fill_window [of isn "[]" s'] by simp_all
qed

text \<open>The acknowledgment of a SYN with the last sequence number is the number zero and is not recognised.\<close>

lemma open_last:
  assumes o: "snd_opened isn [syn_of isn] s" and a: "ackGot s = isn" and r: "raw_value isn = 0xFFFFFFFF"
  shows "snd_opened isn [syn_of isn] (ack_received (wrap 1 isn) w s)" "segments_out (ack_received (wrap 1 isn) w s) = segments_out s"
    "ackGot (ack_received (wrap 1 isn) w s) = isn"
proof -
  have z: "raw_value (wrap 1 isn) = 0" using r by (simp add: raw_value_wrap)
  have d: "drop_acked (wrap 1 isn) s = s"
    using o r z by (simp add: drop_acked.simps snd_opened_def word_le_nat_alt)
  define s' where "s' = s\<lparr>true_window_size := w\<rparr>"
  have e: "ack_received (wrap 1 isn) w s = fill_window s'"
    using o d a z by (simp add: ack_received_def snd_opened_def s'_def Let_def)
  have s': "snd_opened isn [syn_of isn] s'" "segments_out s' = segments_out s" using o by (simp_all add: snd_opened_def s'_def)
  show "snd_opened isn [syn_of isn] (ack_received (wrap 1 isn) w s)" "segments_out (ack_received (wrap 1 isn) w s) = segments_out s"
    using idle_fill_window [OF s'(1)] s'(2) by (simp_all add: e)
  show "ackGot (ack_received (wrap 1 isn) w s) = isn" using idle_fill_window(3) [OF s'(1)] a by (simp add: e) (simp add: s'_def)
qed

text \<open>Both cases: what is outstanding once the SYN is acknowledged.\<close>

definition unrecognised :: "WrappingInt32 \<Rightarrow> TCPSegment list" where
  "unrecognised isn = (if raw_value isn = 0xFFFFFFFF then [syn_of isn] else [])"

lemma open_answered:
  assumes "snd_opened isn [syn_of isn] s" and "ackGot s = isn"
  shows "snd_opened isn (unrecognised isn) (ack_received (wrap 1 isn) w s)"
    "segments_out (ack_received (wrap 1 isn) w s) = segments_out s"
    "unrecognised isn \<noteq> [] \<longrightarrow> ackGot (ack_received (wrap 1 isn) w s) = isn"
  using open_acked [OF assms] open_last [OF assms] by (auto simp: unrecognised_def)

lemma open_summary:
  "snd_opened isn [syn_of isn] s \<Longrightarrow> state_summary_sender s = SND_SYN_SENT"
  "snd_opened isn [] s \<Longrightarrow> state_summary_sender s = SND_SYN_ACKED"
  by (simp_all add: snd_opened_def state_summary_sender_def stream_error_def ByteStream_eof_def input_ended_def)

section \<open>The handshake\<close>

text \<open>The last segment a connection has emitted.\<close>

definition emitted :: "TCPConnection \<Rightarrow> TCPSegment" where
  "emitted c = last (cn_segments_out c)"

lemma stamp_fields [simp]:
  "syn (header (stamp r b seg)) = syn (header seg)" "fin (header (stamp r b seg)) = fin (header seg)"
  "seqno (header (stamp r b seg)) = seqno (header seg)" "payload (stamp r b seg) = payload seg"
  "rst (header (stamp r b seg)) \<longleftrightarrow> rst (header seg) \<or> b"
  "ack (header (stamp r b seg)) \<longleftrightarrow> ack (header seg) \<or> rcv_ackno r \<noteq> None"
  "rcv_ackno r = Some a \<Longrightarrow> ackno (header (stamp r b seg)) = a"
  by (cases "rcv_ackno r"; simp add: stamp_def Let_def)+

lemma stamp_len [simp]: "length_in_sequence_space (stamp r b seg) = length_in_sequence_space seg"
  by (simp add: length_in_sequence_space_def)

text \<open>A connection that has not been closed or reset by either side.\<close>

definition cn_quiet :: "TCPConnection \<Rightarrow> bool" where
  "cn_quiet c \<longleftrightarrow> active c \<and> \<not> rst_set c \<and> \<not> fin_ack_sent c \<and> linger_after_streams_finish c \<and> rec_fin_seqno c = None
     \<and> \<not> input_ended (rcv_stream_out (receiver c))"

lemma quiet_shutdown: "cn_quiet c \<Longrightarrow> clean_shutdown c = c"
  by (simp add: cn_quiet_def clean_shutdown_def)

lemma quiet_emit:
  assumes "cn_quiet c"
  shows "emit_segment seg c = c\<lparr>syn_set := syn_set c \<or> syn (header seg),
    cn_segments_out := cn_segments_out c @ [stamp (receiver c) False seg]\<rparr>"
  using assms emit_segment_out [of seg c]
  by (cases "syn (header seg)"; cases "rcv_ackno (receiver c)") (auto simp: emit_segment_def cn_quiet_def Let_def)

lemma quiet_sendseg:
  assumes "cn_quiet c" "to_send (sender c) = [seg]"
  shows "sendseg c = c\<lparr>syn_set := syn_set c \<or> syn (header seg), sender := (sender c)\<lparr>segments_out := []\<rparr>,
    cn_segments_out := cn_segments_out c @ [stamp (receiver c) False seg]\<rparr>"
proof -
  let ?c = "c\<lparr>sender := (sender c)\<lparr>segments_out := []\<rparr>\<rparr>"
  have q: "cn_quiet ?c" using assms(1) by (simp add: cn_quiet_def)
  have e: "sendseg c = clean_shutdown (emit_segment seg ?c)"
    using assms(2) by (auto simp: sendseg_def to_send_def Let_def split: if_splits)
  have "cn_quiet (emit_segment seg ?c)" using q by (simp add: quiet_emit [OF q]) (simp add: cn_quiet_def)
  then show ?thesis unfolding e by (simp add: quiet_shutdown) (simp add: quiet_emit [OF q])
qed

text \<open>A connection during the handshake, with nothing left to emit.\<close>

definition cn_opened :: "WrappingInt32 \<Rightarrow> TCPSegment list \<Rightarrow> TCPReceiver \<Rightarrow> TCPConnection \<Rightarrow> bool" where
  "cn_opened isn segs r c \<longleftrightarrow> cn_quiet c \<and> syn_set c \<and> snd_opened isn segs (sender c) \<and> segments_out (sender c) = []
     \<and> receiver c = r \<and> (segs \<noteq> [] \<longrightarrow> ackGot (sender c) = isn)"

lemma new_quiet [simp]: "cn_quiet (TCPConnection_new cf random)"
  by (simp add: TCPConnection_new_def cn_quiet_def)

lemma opened_queue [simp]: "snd_opened isn segs (s\<lparr>segments_out := q\<rparr>) = snd_opened isn segs s"
  by (simp add: snd_opened_def)

lemma cn_new_fields [simp]:
  "sender (TCPConnection_new cf random) = TCPSender_new (send_capacity cf) (rt_timeout cf) (fixed_isn cf) random"
  "receiver (TCPConnection_new cf random) = TCPReceiver_new (recv_capacity cf)" "\<not> syn_set (TCPConnection_new cf random)"
  by (simp_all add: TCPConnection_new_def)

text \<open>The four steps of the handshake.\<close>

lemma connect_step:
  fixes cf random
  defines "isn \<equiv> snd_isn (sender (TCPConnection_new cf random))"
  shows "cn_opened isn [syn_of isn] (TCPReceiver_new (recv_capacity cf)) (connect (TCPConnection_new cf random))"
    "emitted (connect (TCPConnection_new cf random)) = syn_of isn"
    "cn_segments_out (connect (TCPConnection_new cf random)) = [syn_of isn]"
proof -
  let ?c = "(TCPConnection_new cf random)\<lparr>sender := fill_window (sender (TCPConnection_new cf random))\<rparr>"
  note o = open_sends_syn [of "send_capacity cf" "rt_timeout cf" "fixed_isn cf" random]
  have q: "cn_quiet ?c" using new_quiet [of cf random] by (simp add: cn_quiet_def)
  have "to_send (sender ?c) = [syn_of isn]" using o(2) by (simp add: to_send_def isn_def)
  note s = quiet_sendseg [OF q this]
  have "stamp (TCPReceiver_new cap) False (syn_of isn) = syn_of isn" for cap by (simp add: stamp_def)
  then show "cn_segments_out (connect (TCPConnection_new cf random)) = [syn_of isn]"
    by (simp add: connect_def s [simplified]) (simp add: TCPConnection_new_def)
  then show "emitted (connect (TCPConnection_new cf random)) = syn_of isn" by (simp add: emitted_def)
  show "cn_opened isn [syn_of isn] (TCPReceiver_new (recv_capacity cf)) (connect (TCPConnection_new cf random))"
    using o q by (simp add: connect_def s [simplified] cn_opened_def isn_def cn_quiet_def)
qed

lemma listen_step:
  fixes cf random
  assumes "syn (header seg)" "\<not> ack (header seg)" "\<not> rst (header seg)" "empty_payload seg"
  defines "isn \<equiv> snd_isn (sender (TCPConnection_new cf random))" and "r \<equiv> rcv_opened (recv_capacity cf) (seqno (header seg))"
  shows "cn_opened isn [syn_of isn] r (cn_segment_received seg (TCPConnection_new cf random))"
    "emitted (cn_segment_received seg (TCPConnection_new cf random)) = stamp r False (syn_of isn)"
proof -
  note o = open_sends_syn [of "send_capacity cf" "rt_timeout cf" "fixed_isn cf" random]
  define c where "c = (TCPConnection_new cf random)\<lparr>syn_set := True, sender := fill_window (sender (TCPConnection_new cf random)),
    time_since_last_segment_received := 0, receiver := r\<rparr>"
  have q: "cn_quiet c" using new_quiet [of cf random] by (simp add: cn_quiet_def c_def r_def)
  have "to_send (sender c) = [syn_of isn]" using o(2) by (simp add: to_send_def isn_def c_def)
  note s = quiet_sendseg [OF q this]
  have "cn_quiet (sendseg c)" using q by (simp add: s) (simp add: cn_quiet_def)
  moreover have "length_in_sequence_space seg = 1"
    using assms(1,4) by (simp add: length_in_sequence_space_def empty_payload_def)
  ultimately have e: "cn_segment_received seg (TCPConnection_new cf random) = sendseg c"
    using assms(1-4) new_quiet [of cf random]
    by (simp add: cn_segment_received_def cn_quiet_def empty_payload_def c_def r_def rcv_syn quiet_shutdown Let_def)
  show "emitted (cn_segment_received seg (TCPConnection_new cf random)) = stamp r False (syn_of isn)"
    unfolding e by (simp add: s emitted_def) (simp add: c_def)
  show "cn_opened isn [syn_of isn] r (cn_segment_received seg (TCPConnection_new cf random))"
    unfolding e using o q by (simp add: s cn_opened_def isn_def cn_quiet_def) (simp add: c_def)
qed

lemma ack_step:
  assumes c: "cn_opened isn [syn_of isn] r c" and r: "rcv_segment_received r seg = rcv_opened cap peer"
    and h: "ack (header seg)" "ackno (header seg) = wrap 1 isn" "\<not> rst (header seg)" "empty_payload seg"
  shows "cn_opened isn (unrecognised isn) (rcv_opened cap peer) (cn_segment_received seg c)"
    and "syn (header seg) \<Longrightarrow> emitted (cn_segment_received seg c) = stamp (rcv_opened cap peer) False TCPSegment_new"
proof -
  define c1 where "c1 = c\<lparr>time_since_last_segment_received := 0, receiver := rcv_opened cap peer,
    sender := ack_received (wrap 1 isn) (win (header seg)) (sender c)\<rparr>"
  have so: "snd_opened isn [syn_of isn] (sender c)" "ackGot (sender c) = isn" using c by (simp_all add: cn_opened_def)
  have c1: "cn_opened isn (unrecognised isn) (rcv_opened cap peer) c1"
    using c open_answered [OF so] by (simp add: cn_opened_def cn_quiet_def c1_def)
  then have q: "cn_quiet c1" and t: "to_send (sender c1) = [TCPSegment_new]" by (simp_all add: cn_opened_def to_send_def)
  note s = quiet_sendseg [OF q t]
  have c2: "cn_opened isn (unrecognised isn) (rcv_opened cap peer) (sendseg c1)"
    using c1 by (simp add: s cn_opened_def) (simp add: cn_quiet_def)
  then have q2: "cn_quiet (sendseg c1)" by (simp add: cn_opened_def)
  have "length_in_sequence_space seg = (if syn (header seg) then 1 else 0)"
    using h(4) by (simp add: length_in_sequence_space_def empty_payload_def)
  then have e: "cn_segment_received seg c = (if syn (header seg) then sendseg c1 else c1)"
    using c q r h quiet_shutdown [OF q2]
    by (simp add: cn_segment_received_def cn_opened_def empty_payload_def c1_def [symmetric] quiet_shutdown Let_def)
      (simp add: cn_quiet_def c1_def)
  show "cn_opened isn (unrecognised isn) (rcv_opened cap peer) (cn_segment_received seg c)" unfolding e using c1 c2 by simp
  show "syn (header seg) \<Longrightarrow> emitted (cn_segment_received seg c) = stamp (rcv_opened cap peer) False TCPSegment_new"
    unfolding e by (simp add: s emitted_def) (simp add: c1_def)
qed

lemma opened_state:
  "cn_opened isn [syn_of isn] (TCPReceiver_new cap) c \<Longrightarrow> cn_state c = TCPState_of SYN_SENT"
  "cn_opened isn [syn_of isn] (rcv_opened cap peer) c \<Longrightarrow> cn_state c = TCPState_of SYN_RCVD"
  "cn_opened isn (unrecognised isn) (rcv_opened cap peer) c \<Longrightarrow>
     cn_state c = TCPState_of (if raw_value isn = 0xFFFFFFFF then SYN_RCVD else ESTABLISHED)"
  by (auto simp: cn_state_def TCPState_make_def cn_opened_def cn_quiet_def open_summary state_summary_receiver_def unrecognised_def)

text \<open>
  C6. The three-way handshake: two fresh connections, whatever their configurations and initial sequence numbers, go through the states of the
  TCP standard with the SYN of the one that connects, the SYN with acknowledgment of the other and its acknowledgment. Each side
  ends in ESTABLISHED, unless its own initial sequence number is the last of the 32-bit space: then it does not recognise that its SYN is
  acknowledged and is left in SYN\_RCVD.
\<close>

theorem handshake_completes:
  fixes ca cb :: TCPConfig and ra rb :: u32
  defines "a0 \<equiv> TCPConnection_new ca ra" and "b0 \<equiv> TCPConnection_new cb rb"
  defines "a1 \<equiv> connect a0"
  defines "b1 \<equiv> cn_segment_received (emitted a1) b0"
  defines "a2 \<equiv> cn_segment_received (emitted b1) a1"
  defines "b2 \<equiv> cn_segment_received (emitted a2) b1"
  shows "map cn_state [a0, b0, a1, b1] = map TCPState_of [LISTEN, LISTEN, SYN_SENT, SYN_RCVD]
    \<and> cn_state a2 = TCPState_of (if raw_value (snd_isn (sender a0)) = 0xFFFFFFFF then SYN_RCVD else ESTABLISHED)
    \<and> cn_state b2 = TCPState_of (if raw_value (snd_isn (sender b0)) = 0xFFFFFFFF then SYN_RCVD else ESTABLISHED)"
proof -
  let ?x = "snd_isn (sender a0)" and ?y = "snd_isn (sender b0)"
  let ?ra = "rcv_opened (recv_capacity ca) ?y" and ?rb = "rcv_opened (recv_capacity cb) ?x"
  have "state_summary_sender (TCPSender_new c t f r) = SND_CLOSED" for c t f r
    by (simp add: state_summary_sender_def stream_error_def TCPSender_new_def Let_def)
  then have l: "cn_state (TCPConnection_new cf r) = TCPState_of LISTEN" for cf r
    by (simp add: cn_state_def TCPState_make_def state_summary_receiver_def) (simp add: TCPConnection_new_def)
  note a1 = connect_step [of ca ra, folded a0_def, folded a1_def]
  note b1 = listen_step [of "emitted a1" cb rb, folded b0_def, folded b1_def, unfolded a1(2), simplified]
  have n: "empty_payload TCPSegment_new" "\<not> syn (header TCPSegment_new)" "\<not> rst (header TCPSegment_new)"
    by (simp_all add: empty_payload_def TCPSegment_new_def TCPHeader_new_def)
  have e: "empty_payload (stamp r b seg) = empty_payload seg" for r b seg by (simp add: empty_payload_def)
  note step = ack_step [OF a1(1), of "emitted b1" "recv_capacity ca" ?y, folded a2_def, unfolded b1(2)]
  have a2: "cn_opened ?x (unrecognised ?x) ?ra a2" "emitted a2 = stamp ?ra False TCPSegment_new"
    using step by (simp_all add: rcv_syn e)
  have b2: "cn_opened ?y (unrecognised ?y) ?rb b2"
    using ack_step(1) [OF b1(1), of "emitted a2" "recv_capacity cb" ?x, folded b2_def] a2(2) n by (simp add: rcv_bare e)
  show ?thesis
    using opened_state(1) [OF a1(1)] opened_state(2) [OF b1(1)] opened_state(3) [OF a2(1)] opened_state(3) [OF b2] l
    by (simp add: a0_def b0_def)
qed

theorem handshake_completes_witness:
  "cn_state (cn_segment_received (emitted (cn_segment_received (emitted (connect (TCPConnection_new TCPConfig_new 7)))
      (TCPConnection_new TCPConfig_new 9))) (connect (TCPConnection_new TCPConfig_new 7))) = TCPState_of ESTABLISHED"
proof -
  have "raw_value (snd_isn (sender (TCPConnection_new TCPConfig_new 7))) = 7"
    by (simp add: TCPConfig_new_def TCPSender_new_def Let_def)
  then show ?thesis using handshake_completes [of TCPConfig_new 7 TCPConfig_new 9] by simp
qed

end
