(* ===== verification/Files.thy ===== *)
theory Files
  imports TCP_Segments
begin

text \<open>
  \<^verbatim>\<open>libsponge/util/file_descriptor.{hh,cc}\<close> and the system-call wrapper of \<^verbatim>\<open>libsponge/util/util.cc\<close>.

  A program that makes system calls maps a state to a result or an exception and the new state; the state is kept
  when an exception is thrown. The state has the \<open>FDWrapper\<close> objects, which several \<open>FileDescriptor\<close>
  handles may share: a handle is the index of its wrapper. The operating system is a parameter: the record \<^verbatim>\<open>kernel\<close> has
  one function per system call the program makes, on a state of the system of any type. A call gives the
  return value, \<open>errno\<close> and what it stores through its pointer arguments.
\<close>

section \<open>Programs with effects\<close>

type_synonym ('a, 's) prog = "'s \<Rightarrow> (exn + 'a) \<times> 's"

definition ret :: "'a \<Rightarrow> ('a, 's) prog" where
  "ret a s = (Inr a, s)"

definition raise :: "exn \<Rightarrow> ('a, 's) prog" where
  "raise e s = (Inl e, s)"

definition seq :: "('a, 's) prog \<Rightarrow> ('a \<Rightarrow> ('b, 's) prog) \<Rightarrow> ('b, 's) prog" where
  "seq m f s = (case m s of (Inl e, s') \<Rightarrow> (Inl e, s') | (Inr a, s') \<Rightarrow> f a s')"

definition change :: "('s \<Rightarrow> 's) \<Rightarrow> (unit, 's) prog" where
  "change f s = (Inr (), f s)"

text \<open>A computation without effects that may throw.\<close>

definition lift :: "exn + 'a \<Rightarrow> ('a, 's) prog" where
  "lift r s = (r, s)"

lemmas prog_defs = ret_def raise_def seq_def change_def lift_def

section \<open>System calls\<close>

type_synonym ('w, 'a) syscall = "'w \<Rightarrow> (int \<times> int \<times> 'a) \<times> 'w"

record pollfd =
  pfd :: int
  events :: u16
  revents :: u16

record 'w kernel =
  k_read :: "int \<Rightarrow> u64 \<Rightarrow> ('w, byte list) syscall"
  k_writev :: "int \<Rightarrow> byte list list \<Rightarrow> ('w, unit) syscall"
  k_close :: "int \<Rightarrow> ('w, unit) syscall"
  k_open :: "string \<Rightarrow> int \<Rightarrow> ('w, unit) syscall"
  k_ioctl :: "int \<Rightarrow> int \<Rightarrow> string \<times> int \<Rightarrow> ('w, unit) syscall"
  k_getfl :: "int \<Rightarrow> ('w, unit) syscall"
  k_setfl :: "int \<Rightarrow> int \<Rightarrow> ('w, unit) syscall"
  k_poll :: "pollfd list \<Rightarrow> int \<Rightarrow> ('w, nat \<Rightarrow> u16) syscall"
  k_socket :: "int \<Rightarrow> int \<Rightarrow> ('w, unit) syscall"
  k_socketpair :: "int \<Rightarrow> int \<Rightarrow> ('w, int \<times> int) syscall"
  k_getsockopt :: "int \<Rightarrow> int \<Rightarrow> int \<Rightarrow> ('w, int \<times> u32) syscall"
  k_setsockopt :: "int \<Rightarrow> int \<Rightarrow> int \<Rightarrow> int \<Rightarrow> ('w, unit) syscall"
  k_getsockname :: "int \<Rightarrow> ('w, byte list \<times> u64) syscall"
  k_getpeername :: "int \<Rightarrow> ('w, byte list \<times> u64) syscall"
  k_bind :: "int \<Rightarrow> byte list \<Rightarrow> ('w, unit) syscall"
  k_connect :: "int \<Rightarrow> byte list \<Rightarrow> ('w, unit) syscall"
  k_listen :: "int \<Rightarrow> int \<Rightarrow> ('w, unit) syscall"
  k_accept :: "int \<Rightarrow> ('w, unit) syscall"
  k_shutdown :: "int \<Rightarrow> int \<Rightarrow> ('w, unit) syscall"
  k_recvfrom :: "int \<Rightarrow> u64 \<Rightarrow> ('w, byte list \<times> byte list \<times> u64) syscall"
  k_sendmsg :: "int \<Rightarrow> byte list \<Rightarrow> byte list list \<Rightarrow> ('w, unit) syscall"
  k_timestamp_ms :: "'w \<Rightarrow> u64 \<times> 'w"

record FDWrapper =
  fdw_fd :: int
  fdw_eof :: bool
  fdw_closed :: bool
  fdw_read_count :: u32
  fdw_write_count :: u32
  fdw_use_count :: nat

record 'w sys =
  wrappers :: "FDWrapper list"
  kern :: 'w

definition unix_error :: "string \<Rightarrow> int \<Rightarrow> exn" where
  "unix_error attempt error = tagged_error ''system'' attempt error"

definition SystemCall :: "string \<Rightarrow> int \<Rightarrow> int \<Rightarrow> int \<Rightarrow> exn + int" where
  "SystemCall attempt return_value errno errno_mask =
     (if 0 \<le> return_value \<or> errno = errno_mask then Inr return_value else Inl (unix_error attempt errno))"

text \<open>The parameter of \<^verbatim>\<open>SystemCall\<close> is an \<open>int\<close>: a longer return value is converted.\<close>

definition to_int :: "int \<Rightarrow> int" where
  "to_int r = signed_take_bit 31 r"

definition system_call :: "string \<Rightarrow> (('w, 'x) sys_scheme \<Rightarrow> ('w, 'a) syscall) \<Rightarrow> (int \<times> 'a, ('w, 'x) sys_scheme) prog" where
  "system_call attempt call s =
     (let ((r, errno, a), w) = call s (kern s)
      in (chain (SystemCall attempt (to_int r) errno 0) (\<lambda>v. Inr (v, a)), s\<lparr>kern := w\<rparr>))"

section \<open>FDWrapper and FileDescriptor\<close>

definition on_wrapper :: "nat \<Rightarrow> (FDWrapper \<Rightarrow> FDWrapper) \<Rightarrow> ('w, 'x) sys_scheme \<Rightarrow> ('w, 'x) sys_scheme" where
  "on_wrapper d f s = s\<lparr>wrappers := (wrappers s)[d := f (wrappers s ! d)]\<rparr>"

definition fd_num :: "nat \<Rightarrow> ('w, 'x) sys_scheme \<Rightarrow> int" where
  "fd_num d s = fdw_fd (wrappers s ! d)"

definition fd_eof :: "nat \<Rightarrow> ('w, 'x) sys_scheme \<Rightarrow> bool" where
  "fd_eof d s = fdw_eof (wrappers s ! d)"

definition fd_closed :: "nat \<Rightarrow> ('w, 'x) sys_scheme \<Rightarrow> bool" where
  "fd_closed d s = fdw_closed (wrappers s ! d)"

definition read_count :: "nat \<Rightarrow> ('w, 'x) sys_scheme \<Rightarrow> u32" where
  "read_count d s = fdw_read_count (wrappers s ! d)"

definition write_count :: "nat \<Rightarrow> ('w, 'x) sys_scheme \<Rightarrow> u32" where
  "write_count d s = fdw_write_count (wrappers s ! d)"

definition register_read :: "nat \<Rightarrow> ('w, 'x) sys_scheme \<Rightarrow> ('w, 'x) sys_scheme" where
  "register_read d = on_wrapper d (\<lambda>w. w\<lparr>fdw_read_count := fdw_read_count w + 1\<rparr>)"

definition register_write :: "nat \<Rightarrow> ('w, 'x) sys_scheme \<Rightarrow> ('w, 'x) sys_scheme" where
  "register_write d = on_wrapper d (\<lambda>w. w\<lparr>fdw_write_count := fdw_write_count w + 1\<rparr>)"

text \<open>
  \<open>FileDescriptor(fd)\<close> makes a wrapper with one handle; \<open>duplicate\<close> makes another handle of it. The message of the exception is
  kept without the number.
\<close>

definition FDWrapper_new :: "int \<Rightarrow> exn + FDWrapper" where
  "FDWrapper_new fd =
     (if fd < 0 then Inl (runtime_error ''invalid fd number'')
      else Inr \<lparr>fdw_fd = fd, fdw_eof = False, fdw_closed = False, fdw_read_count = 0, fdw_write_count = 0, fdw_use_count = 1\<rparr>)"

definition FileDescriptor_new :: "int \<Rightarrow> (nat, ('w, 'x) sys_scheme) prog" where
  "FileDescriptor_new fd =
     seq (lift (FDWrapper_new fd)) (\<lambda>w s. (Inr (length (wrappers s)), s\<lparr>wrappers := wrappers s @ [w]\<rparr>))"

definition duplicate :: "nat \<Rightarrow> ('w, 'x) sys_scheme \<Rightarrow> nat \<times> ('w, 'x) sys_scheme" where
  "duplicate d s = (d, on_wrapper d (\<lambda>w. w\<lparr>fdw_use_count := fdw_use_count w + 1\<rparr>) s)"

definition FDWrapper_close :: "'w kernel \<Rightarrow> nat \<Rightarrow> (unit, ('w, 'x) sys_scheme) prog" where
  "FDWrapper_close k d =
     seq (system_call ''close'' (\<lambda>s. k_close k (fd_num d s)))
       (\<lambda>_. change (on_wrapper d (\<lambda>w. w\<lparr>fdw_eof := True, fdw_closed := True\<rparr>)))"

text \<open>The destructor of the wrapper catches every exception; it runs when the last handle goes.\<close>

definition FDWrapper_destroy :: "'w kernel \<Rightarrow> nat \<Rightarrow> ('w, 'x) sys_scheme \<Rightarrow> ('w, 'x) sys_scheme" where
  "FDWrapper_destroy k d s = (if fd_closed d s then s else snd (FDWrapper_close k d s))"

definition FileDescriptor_destroy :: "'w kernel \<Rightarrow> nat \<Rightarrow> ('w, 'x) sys_scheme \<Rightarrow> ('w, 'x) sys_scheme" where
  "FileDescriptor_destroy k d s =
     (let s = on_wrapper d (\<lambda>w. w\<lparr>fdw_use_count := fdw_use_count w - 1\<rparr>) s
      in if fdw_use_count (wrappers s ! d) = 0 then FDWrapper_destroy k d s else s)"

definition FileDescriptor_close :: "'w kernel \<Rightarrow> nat \<Rightarrow> (unit, ('w, 'x) sys_scheme) prog" where
  "FileDescriptor_close k d = FDWrapper_close k d"

definition READ_BUFFER_SIZE :: u64 where
  "READ_BUFFER_SIZE = 1024 * 1024"

text \<open>The call stores its bytes at the front of the resized string, which is then cut to their number.\<close>

definition FileDescriptor_read :: "'w kernel \<Rightarrow> nat \<Rightarrow> u64 \<Rightarrow> (byte list, ('w, 'x) sys_scheme) prog" where
  "FileDescriptor_read k d limit =
     (let size_to_read = min READ_BUFFER_SIZE limit
      in seq (system_call ''read'' (\<lambda>s. k_read k (fd_num d s) size_to_read)) (\<lambda>(bytes_read, data).
         seq (change (if 0 < limit \<and> bytes_read = 0 then on_wrapper d (\<lambda>w. w\<lparr>fdw_eof := True\<rparr>) else id)) (\<lambda>_.
           if sint size_to_read < bytes_read then raise (runtime_error ''read() read more than requested'')
           else if bytes_read < 0 then raise (length_error ''basic_string::resize'')
           else seq (change (register_read d)) (\<lambda>_.
             ret (resize (data @ replicate (unat size_to_read - length data) 0) (nat bytes_read))))))"

function write_loop :: "'w kernel \<Rightarrow> nat \<Rightarrow> bool \<Rightarrow> BufferViewList \<Rightarrow> u64 \<Rightarrow> (u64, ('w, 'x) sys_scheme) prog" where
  "write_loop k d write_all buffer total_bytes_written s =
     (case system_call ''writev'' (\<lambda>s. k_writev k (fd_num d s) buffer) s of
        (Inl e, s) \<Rightarrow> (Inl e, s)
      | (Inr (bytes_written, _), s) \<Rightarrow>
          if bytes_written = 0 \<and> BufferViewList_size buffer \<noteq> 0
          then (Inl (runtime_error ''write returned 0 given non-empty input buffer''), s)
          else if sint (BufferViewList_size buffer) < bytes_written
          then (Inl (runtime_error ''write wrote more than length of input buffer''), s)
          else
            let s = register_write d s
            in (case BufferViewList_remove_prefix buffer (word_of_int bytes_written) of
                  Inl e \<Rightarrow> (Inl e, s)
                | Inr buffer' \<Rightarrow>
                    let total_bytes_written = total_bytes_written + word_of_int bytes_written
                    in if write_all \<and> BufferViewList_size buffer' \<noteq> 0
                       then write_loop k d write_all buffer' total_bytes_written s
                       else (Inr total_bytes_written, s)))"
  by pat_completeness auto

lemma to_int_bounds: "- 2147483648 \<le> to_int r" "to_int r < 2147483648"
  using signed_take_bit_int_greater_eq_minus_exp [of 31 r] signed_take_bit_int_less_exp [of 31 r]
  by (simp_all add: to_int_def)

lemma to_int_id: "- 2147483648 \<le> r \<Longrightarrow> r < 2147483648 \<Longrightarrow> to_int r = r"
  by (simp add: to_int_def signed_take_bit_int_eq_self)

lemma word_of_to_int_eq_0: "(word_of_int (to_int r) :: u64) = 0 \<longleftrightarrow> to_int r = 0"
proof -
  have "to_int r = 0" if "2 ^ 64 dvd to_int r"
    using that to_int_bounds [of r] zdvd_imp_le [of "2 ^ 64" "to_int r"] zdvd_imp_le [of "2 ^ 64" "- to_int r"] by fastforce
  then show ?thesis by (auto simp: word_of_int_eq_0_iff)
qed

text \<open>Dropping a prefix makes the views shorter, whatever their length.\<close>

lemma remove_prefix_shorter:
  "BufferViewList_remove_prefix vs n = Inr vs' \<Longrightarrow> n \<noteq> 0 \<Longrightarrow> length (concat vs') < length (concat vs)"
proof (induction vs n rule: BufferViewList_remove_prefix.induct)
  case (2 v vs n)
  have v: "v \<noteq> []" if "sz v \<noteq> 0" using that by auto
  consider "n < sz v" | "\<not> n < sz v" "n = sz v" | "\<not> n < sz v" "n \<noteq> sz v" by blast
  then show ?case
  proof cases
    case 1
    then have "v \<noteq> []" using "2.prems" by (auto simp: word_less_nat_alt)
    moreover have "0 < unat n" using "2.prems"(2) by (simp add: unat_gt_0)
    ultimately show ?thesis using 1 "2.prems" by (auto simp: word_less_nat_alt)
  next
    case 2
    then show ?thesis using "2.prems" v by (cases vs) auto
  next
    case 3
    then show ?thesis using "2.prems" "2.IH" by fastforce
  qed
qed auto

lemma system_call_result:
  assumes "system_call a c s = (Inr (v, x), s')"
  obtains r where "v = to_int r"
  using assms by (auto simp: system_call_def SystemCall_def split: prod.splits if_splits)

termination write_loop
proof (relation "measure (\<lambda>(k, d, write_all, buffer, total_bytes_written, s). length (concat buffer))")
  fix k :: "'w kernel" and d write_all buffer total_bytes_written and s s' :: "('w, 'x) sys_scheme" and x e p bytes_written u s2 buffer' t
  assume call: "(x, s') = system_call ''writev'' (\<lambda>s. k_writev k (fd_num d s) buffer) s"
    and x: "x = Inr p" "(bytes_written, u) = p"
    and z: "\<not> (bytes_written = 0 \<and> BufferViewList_size buffer \<noteq> 0)"
    and b: "BufferViewList_remove_prefix buffer (word_of_int bytes_written) = Inr buffer'"
    and r: "write_all \<and> BufferViewList_size buffer' \<noteq> 0"
  obtain ret where v: "bytes_written = to_int ret" using call x system_call_result by metis
  have "bytes_written \<noteq> 0"
  proof
    assume "bytes_written = 0"
    moreover have "BufferViewList_remove_prefix buffer 0 = Inr buffer" by (cases buffer) simp_all
    ultimately show False using z b r by simp
  qed
  then have "length (concat buffer') < length (concat buffer)"
    using remove_prefix_shorter [OF b] v word_of_to_int_eq_0 by simp
  then show "((k, d, write_all, buffer', t, s2), (k, d, write_all, buffer, total_bytes_written, s))
      \<in> measure (\<lambda>(k, d, write_all, buffer, total_bytes_written, s). length (concat buffer))" by simp
qed simp

declare write_loop.simps [simp del]

definition FileDescriptor_write :: "'w kernel \<Rightarrow> nat \<Rightarrow> BufferViewList \<Rightarrow> bool \<Rightarrow> (u64, ('w, 'x) sys_scheme) prog" where
  "FileDescriptor_write k d buffer write_all = write_loop k d write_all buffer 0"

definition O_NONBLOCK :: int where
  "O_NONBLOCK = 2048"

definition set_blocking :: "'w kernel \<Rightarrow> nat \<Rightarrow> bool \<Rightarrow> (unit, ('w, 'x) sys_scheme) prog" where
  "set_blocking k d blocking_state =
     seq (system_call ''fcntl'' (\<lambda>s. k_getfl k (fd_num d s))) (\<lambda>(flags, _).
       let flags = (if blocking_state then flags XOR (flags AND O_NONBLOCK) else flags OR O_NONBLOCK)
       in seq (system_call ''fcntl'' (\<lambda>s. k_setfl k (fd_num d s) flags)) (\<lambda>_. ret ()))"

section \<open>Lemmas\<close>

lemma seqE:
  assumes "seq m f s = (r, s')"
  obtains (fail) e where "m s = (Inl e, s')" "r = Inl e" | (ok) a s1 where "m s = (Inr a, s1)" "f a s1 = (r, s')"
  using assms by (cases "m s") (auto simp: seq_def split: sum.splits)

text \<open>The operations on files change only the wrappers and the system, whatever else the program keeps in its state.\<close>

definition confined :: "('w, 'x) sys_scheme \<Rightarrow> ('w, 'x) sys_scheme \<Rightarrow> bool" where
  "confined s s' \<longleftrightarrow> sys.more s' = sys.more s"

lemma confined_refl [simp]: "confined s s"
  by (simp add: confined_def)

lemma confined_trans: "confined s s' \<Longrightarrow> confined s' s'' \<Longrightarrow> confined s s''"
  by (simp add: confined_def)

lemma on_wrapper_simps [simp]:
  "kern (on_wrapper d f s) = kern s" "length (wrappers (on_wrapper d f s)) = length (wrappers s)" "confined s (on_wrapper d f s)"
  "d < length (wrappers s) \<Longrightarrow> wrappers (on_wrapper d f s) ! e = (if e = d then f (wrappers s ! d) else wrappers s ! e)"
  by (simp_all add: on_wrapper_def confined_def nth_list_update)

lemma register_simps [simp]:
  "kern (register_read d s) = kern s" "length (wrappers (register_read d s)) = length (wrappers s)" "confined s (register_read d s)"
  "kern (register_write d s) = kern s" "length (wrappers (register_write d s)) = length (wrappers s)" "confined s (register_write d s)"
  "d < length (wrappers s) \<Longrightarrow> fd_num e (register_read d s) = fd_num e s"
  "d < length (wrappers s) \<Longrightarrow> fd_num e (register_write d s) = fd_num e s"
  "d < length (wrappers s) \<Longrightarrow> read_count e (register_read d s) = (if e = d then read_count d s + 1 else read_count e s)"
  "d < length (wrappers s) \<Longrightarrow> write_count e (register_write d s) = (if e = d then write_count d s + 1 else write_count e s)"
  by (simp_all add: register_read_def register_write_def fd_num_def read_count_def write_count_def)

lemma system_call_simps:
  assumes "system_call a c s = (r, s')"
  shows "wrappers s' = wrappers s" "confined s s'" "kern s' = snd (c s (kern s))"
  using assms by (auto simp: system_call_def confined_def split: prod.splits)

lemma view_remove_prefix:
  assumes "fits (concat vs)" and "unat n \<le> length (concat vs)"
  obtains vs' where "BufferViewList_remove_prefix vs n = Inr vs'" and "concat vs' = drop (unat n) (concat vs)"
proof -
  have f: "fits v" if "v \<in> set vs" for v
  proof -
    have "length v \<le> length (concat vs)" using that by (induction vs) auto
    then show ?thesis using assms(1) by (simp add: fits_def)
  qed
  then have m: "map str (map Buffer_of vs) = vs" by (simp add: map_idI)
  have "\<forall>b \<in> set (map Buffer_of vs). buf_inv b" using f by simp
  from BufferList_remove_prefix_drop [OF this, of n] show thesis using assms m that by auto
qed

section \<open>What the system promises\<close>

text \<open>
  The documented behaviour of \<open>writev\<close> on a descriptor: it fails with an error number, or takes some of the bytes from the front, never
  more than there are, and appends them to the output of the descriptor.
\<close>

definition writer :: "'w kernel \<Rightarrow> int \<Rightarrow> ('w \<Rightarrow> byte list) \<Rightarrow> bool" where
  "writer k fd out \<longleftrightarrow> (\<forall>bufs w. case k_writev k fd bufs w of ((r, errno, _), w') \<Rightarrow>
     - 1 \<le> r \<and> r \<le> int (length (concat bufs)) \<and> r < 2147483648 \<and> (r < 0 \<longrightarrow> errno \<noteq> 0)
     \<and> out w' = out w @ take (nat r) (concat bufs))"

text \<open>A blocking descriptor without errors takes at least one byte when there is one.\<close>

definition takes :: "'w kernel \<Rightarrow> int \<Rightarrow> bool" where
  "takes k fd \<longleftrightarrow> (\<forall>bufs w. case k_writev k fd bufs w of ((r, _, _), _) \<Rightarrow> 0 \<le> r \<and> (concat bufs \<noteq> [] \<longrightarrow> 0 < r))"

lemma writev_result:
  assumes "writer k fd out" and "system_call ''writev'' (\<lambda>s. k_writev k fd bufs) s = (r, s')"
  obtains (error) e where "r = Inl e" "out (kern s') = out (kern s)" "\<not> takes k fd"
    | (taken) n where "r = Inr (int n, ())" "n \<le> length (concat bufs)" "out (kern s') = out (kern s) @ take n (concat bufs)"
      "takes k fd \<longrightarrow> concat bufs \<noteq> [] \<longrightarrow> 0 < n"
proof -
  obtain v errno u w' where c: "k_writev k fd bufs (kern s) = ((v, errno, u), w')" by (metis prod.exhaust)
  have h: "- 1 \<le> v" "v \<le> int (length (concat bufs))" "v < 2147483648" "v < 0 \<longrightarrow> errno \<noteq> 0"
    "out w' = out (kern s) @ take (nat v) (concat bufs)"
    using assms(1) [unfolded writer_def, rule_format, of bufs "kern s"] c by simp_all
  have t: "takes k fd \<longrightarrow> 0 \<le> v \<and> (concat bufs \<noteq> [] \<longrightarrow> 0 < v)"
    unfolding takes_def using c by (metis (mono_tags, lifting) case_prod_conv)
  have k: "kern s' = w'" using system_call_simps(3) [OF assms(2)] c by simp
  show thesis
  proof (cases "0 \<le> v")
    case True
    then have "r = Inr (v, ())" using assms(2) c h(3) by (simp add: system_call_def SystemCall_def to_int_id)
    then show thesis using taken [of "nat v"] True h t k by simp
  next
    case False
    then have "r = Inl (unix_error ''writev'' errno)" using assms(2) c h by (auto simp: system_call_def SystemCall_def to_int_id)
    then show thesis using error False h t k by simp
  qed
qed

lemma write_loop_step:
  assumes "system_call ''writev'' (\<lambda>s. k_writev k (fd_num d s) buffer) s = (Inr (v, ()), s1)"
    and "\<not> (v = 0 \<and> BufferViewList_size buffer \<noteq> 0)" and "\<not> sint (BufferViewList_size buffer) < v"
    and "BufferViewList_remove_prefix buffer (word_of_int v) = Inr buffer'"
  shows "write_loop k d write_all buffer t s =
    (if write_all \<and> BufferViewList_size buffer' \<noteq> 0 then write_loop k d write_all buffer' (t + word_of_int v) (register_write d s1)
     else (Inr (t + word_of_int v), register_write d s1))"
  unfolding write_loop.simps [of k d write_all buffer t s] assms(1) prod.case sum.case if_not_P [OF assms(2)] if_not_P [OF assms(3)]
    Let_def assms(4) ..

text \<open>The loop of \<open>write\<close> passes on a prefix of the bytes and counts it; with \<open>write_all\<close> it passes on all.\<close>

lemma write_loop_out:
  assumes "writer k (fd_num d s) out" and "length (concat buffer) < 2 ^ 63" and "d < length (wrappers s)"
    and "write_loop k d write_all buffer t s = (r, s')"
  shows "\<exists>m \<le> length (concat buffer). out (kern s') = out (kern s) @ take m (concat buffer)
    \<and> (\<forall>v. r = Inr v \<longrightarrow> v = t + of_nat m \<and> (write_all \<longrightarrow> m = length (concat buffer)))
    \<and> (takes k (fd_num d s) \<longrightarrow> (\<exists>v. r = Inr v)) \<and> (\<forall>e. r = Inl e \<longrightarrow> \<not> write_all \<longrightarrow> m = 0)"
  using assms
proof (induction k d write_all buffer t s arbitrary: r s' rule: write_loop.induct)
  case (1 k d write_all buffer t s)
  obtain rc s1 where c: "system_call ''writev'' (\<lambda>s. k_writev k (fd_num d s) buffer) s = (rc, s1)" by fastforce
  then have c': "system_call ''writev'' (\<lambda>_. k_writev k (fd_num d s) buffer) s = (rc, s1)" by (simp add: system_call_def)
  have w: "wrappers s1 = wrappers s" "fd_num d s1 = fd_num d s" using system_call_simps [OF c] by (simp_all add: fd_num_def)
  note res = "1.prems"(4) [unfolded write_loop.simps [of k d write_all buffer]]
  have f: "fits (concat buffer)" using "1.prems"(2) by (simp add: fits_def)
  have sb: "sint (BufferViewList_size buffer) = int (length (concat buffer))"
    using "1.prems"(2) by (simp add: BufferViewList_size_eq sz_def signed_of_nat signed_take_bit_int_eq_self)
  from "1.prems"(1) c' show ?case
  proof (cases rule: writev_result)
    case (error e)
    then show ?thesis using res c by (intro exI [of _ 0]) auto
  next
    case (taken n)
    show ?thesis
    proof (cases "int n = 0 \<and> BufferViewList_size buffer \<noteq> 0")
      case True
      then have "concat buffer \<noteq> []" by (metis BufferViewList_size_eq sz_Nil)
      then show ?thesis using True res c taken by (intro exI [of _ 0]) auto
    next
      case False
      have u: "unat (word_of_int (int n) :: u64) = n" using taken(2) "1.prems"(2) by (simp add: unat_of_nat)
      obtain buffer' where b: "BufferViewList_remove_prefix buffer (word_of_int (int n)) = Inr buffer'"
        and d: "concat buffer' = drop n (concat buffer)"
        using view_remove_prefix [OF f, of "word_of_int (int n)"] taken(2) u by metis
      have g: "\<not> sint (BufferViewList_size buffer) < int n" using sb taken(2) by simp
      have e: "BufferViewList_size buffer' = 0 \<longleftrightarrow> n = length (concat buffer)"
        using f d taken(2) by (auto simp: BufferViewList_size_eq)
      let ?s = "register_write d s1"
      note step = write_loop_step [OF c [unfolded taken(1)] False g b, of write_all t]
      have p: "writer k (fd_num d ?s) out" "length (concat buffer') < 2 ^ 63" "d < length (wrappers ?s)" "fd_num d ?s = fd_num d s"
        using "1.prems"(1-3) d w by simp_all
      show ?thesis
      proof (cases "write_all \<and> BufferViewList_size buffer' \<noteq> 0")
        case True
        have "write_loop k d write_all buffer' (t + word_of_int (int n)) ?s = (r, s')"
          using "1.prems"(4) unfolding step if_P [OF True] .
        from "1.IH" [OF c [symmetric] taken(1) refl False g refl b refl True p(1-3) this] obtain m where
          m: "m \<le> length (concat buffer')" "out (kern s') = out (kern s1) @ take m (concat buffer')"
          "\<forall>v. r = Inr v \<longrightarrow> v = t + word_of_int (int n) + of_nat m \<and> (write_all \<longrightarrow> m = length (concat buffer'))"
          "takes k (fd_num d s) \<longrightarrow> (\<exists>v. r = Inr v)"
          using p(4) by auto
        show ?thesis
        proof (intro exI [of _ "n + m"] conjI)
          show "out (kern s') = out (kern s) @ take (n + m) (concat buffer)" using m(2) taken(3) d by (simp add: take_add)
          show "n + m \<le> length (concat buffer)" using m(1) taken(2) d by simp
          show "\<forall>v. r = Inr v \<longrightarrow> v = t + of_nat (n + m) \<and> (write_all \<longrightarrow> n + m = length (concat buffer))"
            using m(3) taken(2) d by (simp add: add.assoc)
        qed (use m(4) True in blast)+
      next
        case stop: False
        then have "r = Inr (t + word_of_int (int n))" "s' = ?s"
          using "1.prems"(4) unfolding step if_not_P [OF stop] by simp_all
        then show ?thesis using taken(2,3) stop e by (intro exI [of _ n]) auto
      qed
    qed
  qed
qed

section \<open>Effects on the handles\<close>

text \<open>An operation on one descriptor leaves the others, and the number of its own, as they are.\<close>

definition frame :: "nat \<Rightarrow> ('w, 'x) sys_scheme \<Rightarrow> ('w, 'x) sys_scheme \<Rightarrow> bool" where
  "frame d s s' \<longleftrightarrow> confined s s' \<and> length (wrappers s') = length (wrappers s)
     \<and> (\<forall>e. e \<noteq> d \<longrightarrow> wrappers s' ! e = wrappers s ! e) \<and> fd_num d s' = fd_num d s"

lemma frame_refl [simp]: "frame d s s"
  by (simp add: frame_def)

lemma frame_trans: "frame d s s' \<Longrightarrow> frame d s' s'' \<Longrightarrow> frame d s s''"
  by (auto simp: frame_def intro: confined_trans)

lemma frame_fd_num: "frame d s s' \<Longrightarrow> fd_num e s' = fd_num e s"
  by (cases "e = d") (simp_all add: frame_def fd_num_def)

lemma frame_on_wrapper:
  "d < length (wrappers s) \<Longrightarrow> fdw_fd (f (wrappers s ! d)) = fdw_fd (wrappers s ! d) \<Longrightarrow> frame d s (on_wrapper d f s)"
  by (simp add: frame_def fd_num_def)

lemma frame_register:
  "d < length (wrappers s) \<Longrightarrow> frame d s (register_read d s)" "d < length (wrappers s) \<Longrightarrow> frame d s (register_write d s)"
  by (simp_all add: register_read_def register_write_def frame_on_wrapper)

lemma frame_system_call: "system_call a c s = (r, s') \<Longrightarrow> frame d s s'"
  by (auto simp: frame_def fd_num_def dest: system_call_simps)

lemma frame_length: "frame d s s' \<Longrightarrow> length (wrappers s') = length (wrappers s)"
  by (simp add: frame_def)

lemma write_loop_frame:
  "write_loop k d write_all buffer t s = (r, s') \<Longrightarrow> d < length (wrappers s) \<Longrightarrow> frame d s s'"
proof (induction k d write_all buffer t s arbitrary: r s' rule: write_loop.induct)
  case (1 k d write_all buffer t s)
  obtain rc s1 where c: "system_call ''writev'' (\<lambda>s. k_writev k (fd_num d s) buffer) s = (rc, s1)" by fastforce
  have f: "frame d s s1" "d < length (wrappers s1)" using frame_system_call [OF c, of d] "1.prems"(2) by (simp_all add: frame_length)
  then have g: "frame d s (register_write d s1)" "d < length (wrappers (register_write d s1))"
    using frame_register(2) frame_trans by (blast, simp)
  note IH = "1.IH" [OF c [symmetric] _ _ _ _ refl _ refl]
  show ?case
    using "1.prems"(1) c f(1) g IH frame_trans [OF g(1)]
    unfolding write_loop.simps [of k d write_all buffer t s]
    by (auto simp: Let_def split: sum.splits prod.splits if_splits)
qed

lemma FileDescriptor_write_frame:
  "FileDescriptor_write k d buffer write_all s = (r, s') \<Longrightarrow> d < length (wrappers s) \<Longrightarrow> frame d s s'"
  by (simp add: FileDescriptor_write_def write_loop_frame)

text \<open>Without \<open>write_all\<close> there is one write to register.\<close>

lemma FileDescriptor_write_once:
  assumes "FileDescriptor_write k d buffer False s = (Inr v, s')" and "d < length (wrappers s)"
  shows "write_count d s' = write_count d s + 1"
proof -
  obtain rc s1 where c: "system_call ''writev'' (\<lambda>s. k_writev k (fd_num d s) buffer) s = (rc, s1)" by fastforce
  have "wrappers s1 = wrappers s" using system_call_simps [OF c] by simp
  moreover have "s' = register_write d s1"
    using assms(1) c unfolding FileDescriptor_write_def write_loop.simps [of k d False buffer 0 s]
    by (auto simp: Let_def split: sum.splits prod.splits if_splits)
  ultimately show ?thesis using assms(2) by (simp add: write_count_def register_write_def)
qed

lemma FileDescriptor_read_cases:
  assumes "FileDescriptor_read k d limit s = (r, s')"
  obtains (error) e where "r = Inl e" "system_call ''read'' (\<lambda>s. k_read k (fd_num d s) (min READ_BUFFER_SIZE limit)) s = (Inl e, s')"
    | (bad) e v data s1 where "r = Inl e"
      "system_call ''read'' (\<lambda>s. k_read k (fd_num d s) (min READ_BUFFER_SIZE limit)) s = (Inr (v, data), s1)"
      "sint (min READ_BUFFER_SIZE limit) < v \<or> v < 0"
      "s' = (if 0 < limit \<and> v = 0 then on_wrapper d (\<lambda>w. w\<lparr>fdw_eof := True\<rparr>) else id) s1"
    | (bytes) v data s1 where
      "system_call ''read'' (\<lambda>s. k_read k (fd_num d s) (min READ_BUFFER_SIZE limit)) s = (Inr (v, data), s1)"
      "0 \<le> v" "v \<le> sint (min READ_BUFFER_SIZE limit)"
      "r = Inr (resize (data @ replicate (unat (min READ_BUFFER_SIZE limit) - length data) 0) (nat v))"
      "s' = register_read d ((if 0 < limit \<and> v = 0 then on_wrapper d (\<lambda>w. w\<lparr>fdw_eof := True\<rparr>) else id) s1)"
proof -
  obtain rc s1 where c: "system_call ''read'' (\<lambda>s. k_read k (fd_num d s) (min READ_BUFFER_SIZE limit)) s = (rc, s1)" by fastforce
  show thesis
  proof (cases rc)
    case (Inl e)
    then show thesis using error [of e] assms c by (simp add: FileDescriptor_read_def prog_defs Let_def)
  next
    case (Inr p)
    obtain v data where p: "p = (v, data)" by fastforce
    note a = assms [unfolded FileDescriptor_read_def Let_def seq_def c Inr p change_def prod.case sum.case]
    show thesis
    proof (cases "sint (min READ_BUFFER_SIZE limit) < v \<or> v < 0")
      case True
      then show thesis using bad [OF _ c [unfolded Inr p]] a by (auto simp: raise_def split: if_splits)
    next
      case False
      then show thesis using bytes [OF c [unfolded Inr p]] a by (simp add: prog_defs)
    qed
  qed
qed

lemma FileDescriptor_read_frame:
  assumes "FileDescriptor_read k d limit s = (r, s')" and "d < length (wrappers s)"
  shows "frame d s s'"
proof -
  have f: "frame d s1 ((if b then on_wrapper d (\<lambda>w. w\<lparr>fdw_eof := True\<rparr>) else id) s1)"
    "length (wrappers ((if b then on_wrapper d (\<lambda>w. w\<lparr>fdw_eof := True\<rparr>) else id) s1)) = length (wrappers s1)"
    if "d < length (wrappers s1)" for b and s1 :: "('w, 'x) sys_scheme"
    using that by (simp_all add: frame_on_wrapper)
  from assms(1) show ?thesis
  proof (cases rule: FileDescriptor_read_cases)
    case (error e)
    then show ?thesis using frame_system_call by blast
  next
    case (bad e v data s1)
    note c = frame_system_call [OF bad(2), of d]
    then show ?thesis using f(1) [of s1] bad(4) assms(2) frame_length [OF c] frame_trans by metis
  next
    case (bytes v data s1)
    note c = frame_system_call [OF bytes(1), of d]
    then show ?thesis
      using f [of s1] bytes(5) assms(2) frame_length [OF c] frame_register(1) frame_trans by metis
  qed
qed

lemma FileDescriptor_read_kern:
  assumes "FileDescriptor_read k d limit s = (r, s')"
  shows "kern s' = snd (k_read k (fd_num d s) (min READ_BUFFER_SIZE limit) (kern s))"
  using assms by (cases rule: FileDescriptor_read_cases) (auto dest: system_call_simps(3))

text \<open>What \<open>writev\<close> on the descriptor keeps of the system is kept by \<open>write\<close>.\<close>

lemma write_loop_kern:
  "write_loop k d write_all buffer t s = (r, s') \<Longrightarrow> d < length (wrappers s) \<Longrightarrow> Q (kern s) \<Longrightarrow>
     (\<And>bufs w. Q w \<Longrightarrow> Q (snd (k_writev k (fd_num d s) bufs w))) \<Longrightarrow> Q (kern s')"
proof (induction k d write_all buffer t s arbitrary: r s' rule: write_loop.induct)
  case (1 k d write_all buffer t s)
  obtain rc s1 where c: "system_call ''writev'' (\<lambda>s. k_writev k (fd_num d s) buffer) s = (rc, s1)" by fastforce
  have q: "Q (kern s1)" "Q (kern (register_write d s1))"
    using system_call_simps(3) [OF c] "1.prems"(3,4) by simp_all
  have f: "d < length (wrappers (register_write d s1))" "fd_num d (register_write d s1) = fd_num d s"
    using system_call_simps(1) [OF c] "1.prems"(2) by (simp_all add: fd_num_def register_write_def)
  note IH = "1.IH" [OF c [symmetric] _ _ _ _ refl _ refl _ _ f(1) q(2), unfolded f(2), OF _ _ _ _ _ _ _ "1.prems"(4)]
  show ?case
    using "1.prems"(1) c q IH
    unfolding write_loop.simps [of k d write_all buffer t s]
    by (auto simp: Let_def split: sum.splits prod.splits if_splits)
qed

lemma length_resize [simp]: "length (resize s n) = n"
  by (simp add: resize_def)

lemma FileDescriptor_read_count:
  assumes "FileDescriptor_read k d limit s = (Inr data, s')" and "d < length (wrappers s)"
  shows "read_count d s' = read_count d s + 1" and "length data \<le> unat limit"
proof -
  from assms(1) obtain v bytes s1 where
    c: "system_call ''read'' (\<lambda>s. k_read k (fd_num d s) (min READ_BUFFER_SIZE limit)) s = (Inr (v, bytes), s1)"
    and v: "0 \<le> v" "v \<le> sint (min READ_BUFFER_SIZE limit)"
    and d: "data = resize (bytes @ replicate (unat (min READ_BUFFER_SIZE limit) - length bytes) 0) (nat v)"
    and s': "s' = register_read d ((if 0 < limit \<and> v = 0 then on_wrapper d (\<lambda>w. w\<lparr>fdw_eof := True\<rparr>) else id) s1)"
    by (cases rule: FileDescriptor_read_cases) auto
  have "wrappers s1 = wrappers s" using system_call_simps [OF c] by simp
  then show "read_count d s' = read_count d s + 1" using assms(2) s' by (simp add: read_count_def register_read_def)
  have "sint x \<le> uint x" if "uint x < 2 ^ 63" for x :: u64
    using that signed_take_bit_int_eq_self [of 63 "uint x"] unsigned_greater_eq [of x, where 'a = int] by (simp add: sint_uint)
  moreover have "uint (min READ_BUFFER_SIZE limit) < 2 ^ 63" "uint (min READ_BUFFER_SIZE limit) \<le> uint limit"
    by (simp_all add: READ_BUFFER_SIZE_def min_def word_le_def word_less_def)
  ultimately have "v \<le> uint limit" using v(2) by fastforce
  then show "length data \<le> unat limit" using d nat_mono [of v "uint limit"] by simp
qed

section \<open>Properties\<close>

text \<open>
  C14. \<open>write(buffer, true)\<close> ends on every answer of the system. Of the bytes of the buffer a prefix has reached the descriptor,
  in order and once; if \<open>write\<close> returns, it is all of them and their number is returned, and
  if the system takes at least a byte each time, \<open>write\<close> returns.
\<close>

theorem FileDescriptor_write_all:
  assumes "writer k (fd_num d s) out" and "length (concat buffer) < 2 ^ 63" and "d < length (wrappers s)"
  shows "\<exists>r s' m. FileDescriptor_write k d buffer True s = (r, s') \<and> out (kern s') = out (kern s) @ take m (concat buffer)
    \<and> (\<forall>v. r = Inr v \<longrightarrow> v = sz (concat buffer) \<and> m = length (concat buffer))
    \<and> (takes k (fd_num d s) \<longrightarrow> r = Inr (sz (concat buffer)))"
proof -
  obtain r s' where w: "write_loop k d True buffer 0 s = (r, s')" by fastforce
  from write_loop_out [OF assms w] show ?thesis unfolding FileDescriptor_write_def w by (auto simp: sz_def)
qed

text \<open>A system whose calls all fail, and one where \<open>writev\<close> takes at most two bytes at a time.\<close>

definition failing_kernel :: "'w kernel" where
  "failing_kernel = \<lparr>k_read = \<lambda>_ _ w. ((- 1, 5, []), w), k_writev = \<lambda>_ _ w. ((- 1, 5, ()), w), k_close = \<lambda>_ w. ((- 1, 5, ()), w),
     k_open = \<lambda>_ _ w. ((- 1, 5, ()), w), k_ioctl = \<lambda>_ _ _ w. ((- 1, 5, ()), w),
     k_getfl = \<lambda>_ w. ((- 1, 5, ()), w), k_setfl = \<lambda>_ _ w. ((- 1, 5, ()), w), k_poll = \<lambda>_ _ w. ((- 1, 5, \<lambda>_. 0), w),
     k_socket = \<lambda>_ _ w. ((- 1, 5, ()), w), k_socketpair = \<lambda>_ _ w. ((- 1, 5, (0, 0)), w),
     k_getsockopt = \<lambda>_ _ _ w. ((- 1, 5, (0, 0)), w), k_setsockopt = \<lambda>_ _ _ _ w. ((- 1, 5, ()), w),
     k_getsockname = \<lambda>_ w. ((- 1, 5, ([], 0)), w), k_getpeername = \<lambda>_ w. ((- 1, 5, ([], 0)), w),
     k_bind = \<lambda>_ _ w. ((- 1, 5, ()), w), k_connect = \<lambda>_ _ w. ((- 1, 5, ()), w), k_listen = \<lambda>_ _ w. ((- 1, 5, ()), w),
     k_accept = \<lambda>_ w. ((- 1, 5, ()), w), k_shutdown = \<lambda>_ _ w. ((- 1, 5, ()), w), k_recvfrom = \<lambda>_ _ w. ((- 1, 5, ([], [], 0)), w),
     k_sendmsg = \<lambda>_ _ _ w. ((- 1, 5, ()), w), k_timestamp_ms = \<lambda>w. (0, w)\<rparr>"

definition trickle_kernel :: "byte list kernel" where
  "trickle_kernel = failing_kernel\<lparr>k_writev := \<lambda>fd bufs w.
     ((int (min 2 (length (concat bufs))), 0, ()), w @ take 2 (concat bufs))\<rparr>"

lemma trickle_writer: "writer trickle_kernel fd id" "takes trickle_kernel fd"
  by (auto simp: trickle_kernel_def writer_def takes_def min_def)

definition wit_wrapper :: "int \<Rightarrow> FDWrapper" where
  "wit_wrapper fd = \<lparr>fdw_fd = fd, fdw_eof = False, fdw_closed = False, fdw_read_count = 0, fdw_write_count = 0, fdw_use_count = 1\<rparr>"

theorem FileDescriptor_write_all_witness:
  "\<exists>s'. FileDescriptor_write trickle_kernel 0 [[1, 2, 3], [], [4, 5]] True \<lparr>wrappers = [wit_wrapper 3], kern = [9]\<rparr> = (Inr 5, s')
     \<and> kern s' = [9, 1, 2, 3, 4, 5]"
proof -
  let ?s = "\<lparr>wrappers = [wit_wrapper 3], kern = [9 :: byte]\<rparr>" and ?b = "[[1, 2, 3], [], [4, 5 :: byte]]"
  have d: "length (concat ?b) < 2 ^ 63" "0 < length (wrappers ?s)" by simp_all
  obtain r s' m where h: "FileDescriptor_write trickle_kernel 0 ?b True ?s = (r, s')" "id (kern s') = id (kern ?s) @ take m (concat ?b)"
    "\<forall>v. r = Inr v \<longrightarrow> v = sz (concat ?b) \<and> m = length (concat ?b)"
    "takes trickle_kernel (fd_num 0 ?s) \<longrightarrow> r = Inr (sz (concat ?b))"
    using FileDescriptor_write_all [OF trickle_writer(1) d] by blast
  have r: "r = Inr (sz (concat ?b))" using h(4) trickle_writer(2) by blast
  then have "m = 5" using h(3) by simp
  then show ?thesis using h(1,2) r by (simp add: sz_def)
qed

end
