(* ===== verification/Event_Loop.thy ===== *)
theory Event_Loop
  imports Files "HOL-Library.Sublist"
begin

text \<open>
  \<^verbatim>\<open>libsponge/util/eventloop.{hh,cc}\<close>: a list of rules, each with a descriptor to poll, a direction and three
  callbacks. The callbacks are programs on the state of the client, which extends the state of the files; \<open>interest\<close> only
  looks at it. No client adds a rule from within a callback, so the list of rules is kept beside the state.
  \<open>poll\<close> is a call of the kernel: what it leaves in the \<open>revents\<close> fields is a function of the index.
\<close>

section \<open>Model\<close>

datatype Direction = In | Out

datatype Result = Success | Timeout | Exit

record 's Rule =
  rule_fd :: nat
  direction :: Direction
  callback :: "(unit, 's) prog"
  interest :: "'s \<Rightarrow> bool"
  cancel :: "(unit, 's) prog"

definition POLLIN :: u16 where "POLLIN = 1"
definition POLLOUT :: u16 where "POLLOUT = 4"
definition POLLERR :: u16 where "POLLERR = 8"
definition POLLHUP :: u16 where "POLLHUP = 16"
definition POLLNVAL :: u16 where "POLLNVAL = 32"
definition EINTR :: int where "EINTR = 4"

fun poll_flag :: "Direction \<Rightarrow> u16" where
  "poll_flag In = POLLIN"
| "poll_flag Out = POLLOUT"

definition service_count :: "('w, 'x) sys_scheme Rule \<Rightarrow> ('w, 'x) sys_scheme \<Rightarrow> u32" where
  "service_count r s = (if direction r = In then read_count (rule_fd r) s else write_count (rule_fd r) s)"

definition add_rule ::
    "nat \<Rightarrow> Direction \<Rightarrow> (unit, ('w, 'x) sys_scheme) prog \<Rightarrow> (('w, 'x) sys_scheme \<Rightarrow> bool) \<Rightarrow> (unit, ('w, 'x) sys_scheme) prog
     \<Rightarrow> ('w, 'x) sys_scheme Rule list \<times> ('w, 'x) sys_scheme \<Rightarrow> ('w, 'x) sys_scheme Rule list \<times> ('w, 'x) sys_scheme" where
  "add_rule fd dir cb intr cn = (\<lambda>(rules, s).
     let (fd', s) = duplicate fd s
     in (rules @ [\<lparr>rule_fd = fd', direction = dir, callback = cb, interest = intr, cancel = cn\<rparr>], s))"

text \<open>A rule that is cancelled is erased, and its handle of the descriptor goes with it.\<close>

definition drop_rule :: "'w kernel \<Rightarrow> ('w, 'x) sys_scheme Rule \<Rightarrow> (unit, ('w, 'x) sys_scheme) prog" where
  "drop_rule k r = seq (cancel r) (\<lambda>_. change (FileDescriptor_destroy k (rule_fd r)))"

text \<open>The first loop of \<open>wait_next_event\<close>: one \<open>pollfd\<close> per rule that is left, and whether one of them is of interest.\<close>

fun setup_polls ::
    "'w kernel \<Rightarrow> ('w, 'x) sys_scheme Rule list \<Rightarrow> ('w, 'x) sys_scheme
     \<Rightarrow> (exn + pollfd list \<times> bool) \<times> ('w, 'x) sys_scheme Rule list \<times> ('w, 'x) sys_scheme" where
  "setup_polls k [] s = (Inr ([], False), [], s)"
| "setup_polls k (r # rs) s =
     (if direction r = In \<and> fd_eof (rule_fd r) s \<or> fd_closed (rule_fd r) s
      then (case drop_rule k r s of
              (Inl e, s) \<Rightarrow> (Inl e, r # rs, s)
            | (Inr _, s) \<Rightarrow> setup_polls k rs s)
      else
        let wanted = interest r s;
            p = \<lparr>pfd = fd_num (rule_fd r) s, events = (if wanted then poll_flag (direction r) else 0), revents = 0\<rparr>
        in (case setup_polls k rs s of
              (Inl e, rs', s) \<Rightarrow> (Inl e, r # rs', s)
            | (Inr (ps, something_to_poll), rs', s) \<Rightarrow> (Inr (p # ps, wanted \<or> something_to_poll), r # rs', s)))"

text \<open>The callback of a ready rule, and the check for a busy wait after it.\<close>

definition busy_wait :: exn where
  "busy_wait = runtime_error ''EventLoop: busy wait detected: callback did not read/write fd and is still interested''"

definition polled_error :: exn where
  "polled_error = runtime_error ''EventLoop: error on polled file descriptor''"

definition serve :: "('w, 'x) sys_scheme Rule \<Rightarrow> (unit, ('w, 'x) sys_scheme) prog" where
  "serve r s =
     seq (callback r) (\<lambda>_ s'. if service_count r s = service_count r s' \<and> interest r s' then (Inl busy_wait, s') else (Inr (), s')) s"

text \<open>The second loop. There is one entry per rule, so the second equation is not used.\<close>

fun poll_results ::
    "'w kernel \<Rightarrow> ('w, 'x) sys_scheme Rule list \<Rightarrow> pollfd list \<Rightarrow> ('w, 'x) sys_scheme
     \<Rightarrow> (exn + unit) \<times> ('w, 'x) sys_scheme Rule list \<times> ('w, 'x) sys_scheme" where
  "poll_results k [] ps s = (Inr (), [], s)"
| "poll_results k (r # rs) [] s = (Inr (), r # rs, s)"
| "poll_results k (r # rs) (p # ps) s =
     (let poll_error = revents p AND (POLLERR OR POLLNVAL) \<noteq> 0;
          poll_ready = revents p AND events p \<noteq> 0;
          poll_hup = revents p AND POLLHUP \<noteq> 0
      in if poll_error then (Inl polled_error, r # rs, s)
         else if poll_hup \<and> events p \<noteq> 0 \<and> \<not> poll_ready
         then (case drop_rule k r s of
                 (Inl e, s) \<Rightarrow> (Inl e, r # rs, s)
               | (Inr _, s) \<Rightarrow> poll_results k rs ps s)
         else (case (if poll_ready then serve r else ret ()) s of
                 (Inl e, s) \<Rightarrow> (Inl e, r # rs, s)
               | (Inr _, s) \<Rightarrow> (case poll_results k rs ps s of (res, rs', s) \<Rightarrow> (res, r # rs', s))))"

definition set_revents :: "(nat \<Rightarrow> u16) \<Rightarrow> pollfd list \<Rightarrow> pollfd list" where
  "set_revents rev_out ps = map (\<lambda>(i, p). p\<lparr>revents := rev_out i\<rparr>) (enumerate 0 ps)"

definition wait_next_event ::
    "'w kernel \<Rightarrow> int \<Rightarrow> ('w, 'x) sys_scheme Rule list \<Rightarrow> ('w, 'x) sys_scheme
     \<Rightarrow> (exn + Result) \<times> ('w, 'x) sys_scheme Rule list \<times> ('w, 'x) sys_scheme" where
  "wait_next_event k timeout_ms rules s =
     (case setup_polls k rules s of
        (Inl e, rules, s) \<Rightarrow> (Inl e, rules, s)
      | (Inr (pollfds, something_to_poll), rules, s) \<Rightarrow>
          if \<not> something_to_poll then (Inr Exit, rules, s)
          else
            let ((r, errno, rev_out), w) = k_poll k pollfds timeout_ms (kern s);
                s = s\<lparr>kern := w\<rparr>;
                answer = SystemCall ''poll'' (to_int r) errno 0
            in if answer = Inr 0 then (Inr Timeout, rules, s)
               else if answer = Inl (unix_error ''poll'' EINTR) then (Inr Exit, rules, s)
               else (case poll_results k rules (set_revents rev_out pollfds) s of
                       (Inl e, rules, s) \<Rightarrow> (Inl e, rules, s)
                     | (Inr _, rules, s) \<Rightarrow> (Inr Success, rules, s)))"

section \<open>Lemmas\<close>

lemma setup_polls_cases:
  assumes "setup_polls k (r # rs) s = (res, rules', s')"
  obtains (stuck) e where "drop_rule k r s = (Inl e, s')" "res = Inl e" "rules' = r # rs"
    | (dropped) s1 where "drop_rule k r s = (Inr (), s1)" "setup_polls k rs s1 = (res, rules', s')"
    | (kept) res1 rs' where "setup_polls k rs s = (res1, rs', s')" "rules' = r # rs'"
      "res = (case res1 of Inl e \<Rightarrow> Inl e | Inr (ps, b) \<Rightarrow>
         Inr (\<lparr>pfd = fd_num (rule_fd r) s, events = (if interest r s then poll_flag (direction r) else 0), revents = 0\<rparr> # ps,
              interest r s \<or> b))"
proof (cases "direction r = In \<and> fd_eof (rule_fd r) s \<or> fd_closed (rule_fd r) s")
  case True
  then show thesis using assms stuck dropped by (cases "drop_rule k r s") (auto split: sum.splits)
next
  case False
  obtain res1 rs' s1 where "setup_polls k rs s = (res1, rs', s1)" by (metis prod.exhaust)
  then show thesis using False assms kept [of res1 rs'] by (auto simp: Let_def split: sum.splits prod.splits)
qed

lemma poll_results_cases:
  assumes "poll_results k (r # rs) (p # ps) s = (res, rules', s')"
  obtains (error) "res = Inl polled_error" "rules' = r # rs" "s' = s"
    | (stuck) e where "drop_rule k r s = (Inl e, s') \<or> serve r s = (Inl e, s')" "res = Inl e" "rules' = r # rs"
    | (dropped) s1 where "drop_rule k r s = (Inr (), s1)" "poll_results k rs ps s1 = (res, rules', s')"
    | (kept) s1 rs' where "s1 = s \<or> serve r s = (Inr (), s1)" "poll_results k rs ps s1 = (res, rs', s')" "rules' = r # rs'"
proof -
  consider "revents p AND (POLLERR OR POLLNVAL) \<noteq> 0"
    | "revents p AND (POLLERR OR POLLNVAL) = 0" "revents p AND POLLHUP \<noteq> 0 \<and> events p \<noteq> 0 \<and> revents p AND events p = 0"
    | "revents p AND (POLLERR OR POLLNVAL) = 0" "\<not> (revents p AND POLLHUP \<noteq> 0 \<and> events p \<noteq> 0 \<and> revents p AND events p = 0)"
      "revents p AND events p = 0"
    | "revents p AND (POLLERR OR POLLNVAL) = 0" "revents p AND events p \<noteq> 0" by blast
  then show thesis
  proof cases
    case 1
    then show thesis using assms error by (simp add: Let_def)
  next
    case 2
    then show thesis using assms stuck dropped by (cases "drop_rule k r s") (auto simp: Let_def split: sum.splits)
  next
    case 3
    obtain res1 rs' s1 where "poll_results k rs ps s = (res1, rs', s1)" by (metis prod.exhaust)
    then show thesis using 3 assms kept [of s rs'] by (auto simp: Let_def ret_def)
  next
    case 4
    show thesis
    proof (cases "serve r s")
      case (Pair res1 s1)
      obtain res2 rs' s2 where "poll_results k rs ps s1 = (res2, rs', s2)" by (metis prod.exhaust)
      then show thesis using 4 assms kept stuck Pair by (cases res1) (auto simp: Let_def)
    qed
  qed
qed

lemma setup_polls_aligned:
  "setup_polls k rules s = (Inr (ps, b), rules', s') \<Longrightarrow> length ps = length rules'"
proof (induction rules arbitrary: s ps b rules')
  case (Cons r rs)
  from Cons.prems show ?case
    by (cases rule: setup_polls_cases) (auto dest: Cons.IH split: sum.splits)
qed simp

lemma setup_polls_subseq: "setup_polls k rules s = (res, rules', s') \<Longrightarrow> subseq rules' rules"
proof (induction rules arbitrary: s res rules')
  case (Cons r rs)
  from Cons.prems show ?case
    by (cases rule: setup_polls_cases) (auto dest: Cons.IH)
qed simp

lemma poll_results_subseq: "poll_results k rules ps s = (res, rules', s') \<Longrightarrow> subseq rules' rules"
proof (induction rules arbitrary: ps s res rules' s')
  case (Cons r rs)
  show ?case
  proof (cases ps)
    case (Cons p ps')
    note c = Cons.prems [unfolded Cons]
    then show ?thesis by (cases rule: poll_results_cases) (auto dest: Cons.IH)
  qed (use Cons.prems in simp)
qed simp

lemma wait_next_event_cases:
  assumes "wait_next_event k t rules s = (res, rules', s')"
  obtains (failed) e where "setup_polls k rules s = (Inl e, rules', s')" "res = Inl e"
    | (idle) ps where "setup_polls k rules s = (Inr (ps, False), rules', s')" "res = Inr Exit"
    | (quiet) ps s1 x where "setup_polls k rules s = (Inr (ps, True), rules', s1)"
      "k_poll k ps t (kern s1) = (x, kern s')" "s' = s1\<lparr>kern := kern s'\<rparr>" "res = Inr Timeout \<or> res = Inr Exit"
    | (polled) ps rules1 s1 r errno out_events w res1 where "setup_polls k rules s = (Inr (ps, True), rules1, s1)"
      "k_poll k ps t (kern s1) = ((r, errno, out_events), w)"
      "poll_results k rules1 (set_revents out_events ps) (s1\<lparr>kern := w\<rparr>) = (res1, rules', s')"
      "res = (case res1 of Inl e \<Rightarrow> Inl e | Inr _ \<Rightarrow> Inr Success)"
proof (cases "setup_polls k rules s")
  case (fields r1 rules1 s1)
  show thesis
  proof (cases r1)
    case (Inl e)
    then show thesis using assms fields failed by (simp add: wait_next_event_def)
  next
    case (Inr x)
    obtain ps b where x: "x = (ps, b)" by fastforce
    obtain r errno out_events w where p: "k_poll k ps t (kern s1) = ((r, errno, out_events), w)" by (metis prod.exhaust)
    obtain res1 rules2 s2 where q: "poll_results k rules1 (set_revents out_events ps) (s1\<lparr>kern := w\<rparr>) = (res1, rules2, s2)"
      by (metis prod.exhaust)
    note a = assms [unfolded wait_next_event_def fields Inr x prod.case sum.case p Let_def q]
    show thesis
    proof (cases b)
      case True
      then show thesis
        using a fields Inr x p q quiet [of ps s1] polled [of ps rules1 s1 r errno out_events w res1]
        by (auto split: if_splits sum.splits)
    next
      case False
      then show thesis using a fields Inr x idle by simp
    qed
  qed
qed

lemma wait_next_event_subseq: "wait_next_event k t rules s = (res, rules', s') \<Longrightarrow> subseq rules' rules"
  by (erule wait_next_event_cases) (auto dest!: setup_polls_subseq poll_results_subseq intro: subseq_order.order_trans)

lemma subseq_subset: "subseq xs ys \<Longrightarrow> set xs \<subseteq> set ys"
  by (induction rule: list_emb.induct) auto

section \<open>Clients of the loop\<close>

text \<open>
  A property of the state that the callbacks of a set of rules keep, and that neither the end of a handle nor \<open>poll\<close>
  disturbs, holds after any number of rounds. If each callback moreover reads or writes its descriptor, or
  makes its rule uninteresting, the loop throws only what the callbacks throw, or the error it has for a broken descriptor.
\<close>

locale event_client =
  fixes k :: "'w kernel" and R :: "('w, 'x) sys_scheme Rule set" and P :: "('w, 'x) sys_scheme \<Rightarrow> bool"
  assumes callback_keeps: "r \<in> R \<Longrightarrow> P s \<Longrightarrow> callback r s = (res, s') \<Longrightarrow> P s'"
    and cancel_keeps: "r \<in> R \<Longrightarrow> P s \<Longrightarrow> cancel r s = (res, s') \<Longrightarrow> P s'"
    and release_keeps: "r \<in> R \<Longrightarrow> P s \<Longrightarrow> P (FileDescriptor_destroy k (rule_fd r) s)"
    and poll_keeps: "P s \<Longrightarrow> k_poll k ps t (kern s) = (x, w) \<Longrightarrow> P (s\<lparr>kern := w\<rparr>)"
begin

lemma drop_keeps: "r \<in> R \<Longrightarrow> P s \<Longrightarrow> drop_rule k r s = (res, s') \<Longrightarrow> P s'"
  unfolding drop_rule_def seq_def change_def
  by (cases "cancel r s") (auto split: sum.splits intro: cancel_keeps release_keeps)

lemma serve_keeps: "r \<in> R \<Longrightarrow> P s \<Longrightarrow> serve r s = (res, s') \<Longrightarrow> P s'"
  unfolding serve_def seq_def
  by (cases "callback r s") (auto split: sum.splits if_splits intro: callback_keeps)

lemma setup_keeps: "set rules \<subseteq> R \<Longrightarrow> P s \<Longrightarrow> setup_polls k rules s = (res, rules', s') \<Longrightarrow> P s'"
proof (induction rules arbitrary: s res rules')
  case (Cons r rs)
  then have "set rs \<subseteq> R" "r \<in> R" by simp_all
  from Cons.prems(3) show ?case
    by (cases rule: setup_polls_cases) (use Cons.IH Cons.prems \<open>r \<in> R\<close> \<open>set rs \<subseteq> R\<close> drop_keeps in blast)+
qed simp

lemma results_keeps: "set rules \<subseteq> R \<Longrightarrow> P s \<Longrightarrow> poll_results k rules ps s = (res, rules', s') \<Longrightarrow> P s'"
proof (induction rules arbitrary: s ps res rules')
  case (Cons r rs)
  then have r: "set rs \<subseteq> R" "r \<in> R" by simp_all
  show ?case
  proof (cases ps)
    case (Cons p ps')
    from Cons.prems(3) [unfolded Cons] show ?thesis
      by (cases rule: poll_results_cases) (use Cons.IH Cons.prems r drop_keeps serve_keeps in blast)+
  qed (use Cons.prems in simp)
qed simp

lemma wait_keeps:
  assumes "set rules \<subseteq> R" and "P s" and "wait_next_event k t rules s = (res, rules', s')"
  shows "P s'" and "set rules' \<subseteq> R"
proof -
  show "set rules' \<subseteq> R" using assms(1) wait_next_event_subseq [OF assms(3)] using subseq_subset by blast
  from assms(3) show "P s'"
  proof (cases rule: wait_next_event_cases)
    case (quiet ps s1 x)
    then have "P (s1\<lparr>kern := kern s'\<rparr>)" using setup_keeps [OF assms(1,2)] poll_keeps by blast
    then show ?thesis using quiet(3) by simp
  next
    case (polled ps rules1 s1 r errno out_events w res1)
    have "set rules1 \<subseteq> R" using assms(1) setup_polls_subseq [OF polled(1)] using subseq_subset by blast
    then show ?thesis using polled setup_keeps [OF assms(1,2)] poll_keeps results_keeps by blast
  qed (use setup_keeps [OF assms(1,2)] in blast)+
qed

end

locale serviced_client = event_client +
  assumes serviced: "r \<in> R \<Longrightarrow> P s \<Longrightarrow> callback r s = (Inr (), s') \<Longrightarrow> service_count r s' = service_count r s \<Longrightarrow> \<not> interest r s'"
begin

definition raised :: "exn \<Rightarrow> bool" where
  "raised e \<longleftrightarrow> (\<exists>r \<in> R. \<exists>s. P s \<and> (fst (callback r s) = Inl e \<or> fst (cancel r s) = Inl e))"

lemma drop_raises: "r \<in> R \<Longrightarrow> P s \<Longrightarrow> drop_rule k r s = (Inl e, s') \<Longrightarrow> raised e"
  unfolding drop_rule_def seq_def change_def raised_def
  by (cases "cancel r s") (auto split: sum.splits intro!: bexI [of _ r] exI [of _ s])

lemma serve_raises: "r \<in> R \<Longrightarrow> P s \<Longrightarrow> serve r s = (Inl e, s') \<Longrightarrow> raised e"
  unfolding serve_def seq_def raised_def
  by (cases "callback r s") (auto split: sum.splits if_splits dest: serviced intro!: bexI [of _ r] exI [of _ s])

lemma setup_raises: "set rules \<subseteq> R \<Longrightarrow> P s \<Longrightarrow> setup_polls k rules s = (Inl e, rules', s') \<Longrightarrow> raised e"
proof (induction rules arbitrary: s rules')
  case (Cons r rs)
  then have r: "set rs \<subseteq> R" "r \<in> R" by simp_all
  from Cons.prems(3) show ?case
  proof (cases rule: setup_polls_cases)
    case (kept res1 rs')
    then have "res1 = Inl e" by (cases res1) auto
    then show ?thesis using kept(1) Cons.IH r(1) Cons.prems(2) by blast
  qed (use Cons.IH Cons.prems(2) r drop_keeps drop_raises in blast)+
qed simp

lemma results_raises: "set rules \<subseteq> R \<Longrightarrow> P s \<Longrightarrow> poll_results k rules ps s = (Inl e, rules', s') \<Longrightarrow> e = polled_error \<or> raised e"
proof (induction rules arbitrary: s ps rules')
  case (Cons r rs)
  then have r: "set rs \<subseteq> R" "r \<in> R" by simp_all
  show ?case
  proof (cases ps)
    case (Cons p ps')
    from Cons.prems(3) [unfolded Cons] show ?thesis
      by (cases rule: poll_results_cases)
        (use Cons.IH Cons.prems(2) r drop_keeps drop_raises serve_keeps serve_raises in blast)+
  qed (use Cons.prems in simp)
qed simp

lemma wait_raises:
  assumes "set rules \<subseteq> R" and "P s" and "wait_next_event k t rules s = (Inl e, rules', s')"
  shows "e = polled_error \<or> raised e"
  using assms(3)
proof (cases rule: wait_next_event_cases)
  case (polled ps rules1 s1 r errno out_events w res1)
  have "set rules1 \<subseteq> R" using assms(1) setup_polls_subseq [OF polled(1)] using subseq_subset by blast
  moreover have "P (s1\<lparr>kern := w\<rparr>)" using polled(1,2) setup_keeps [OF assms(1,2)] poll_keeps by blast
  moreover have "res1 = Inl e" using polled(4) by (auto split: sum.splits)
  ultimately show ?thesis using polled(3) results_raises by blast
qed (use setup_raises [OF assms(1,2)] in auto)

end

section \<open>A failure of poll\<close>

text \<open>
  The comment on \<open>wait_next_event\<close> says that an error during polling is thrown. The handler catches every error of \<open>poll\<close> and
  tells only interruption apart: when \<open>poll\<close> fails otherwise, \<open>wait_next_event\<close> reports success.
\<close>

lemma poll_failure_ignored:
  assumes "interest r s" and "\<not> fd_eof (rule_fd r) s" and "\<not> fd_closed (rule_fd r) s"
  shows "wait_next_event failing_kernel t [r] s = (Inr Success, [r], s)"
  using assms by (simp add: wait_next_event_def failing_kernel_def to_int_def SystemCall_def unix_error_def EINTR_def set_revents_def
      ret_def)

end
