(* ===== verification/Addresses.thy ===== *)
theory Addresses
  imports Parsers
begin

text \<open>
  \<^verbatim>\<open>libsponge/util/address.{hh,cc}\<close>: socket addresses. The storage is the bytes of a
  \<open>sockaddr_storage\<close> on a little-endian host, where an IPv4 address is a \<open>sockaddr_in\<close>: the family, the port and the
  address in network order, and padding. The resolver calls \<open>getaddrinfo\<close> and \<open>getnameinfo\<close> of the C
  library are the parameters \<open>gai\<close> and \<open>gni\<close>; what is relied on of them is \<^verbatim>\<open>numeric_resolver\<close>.
\<close>

section \<open>Numbers as text\<close>

text \<open>\<open>std::to_string\<close> of an unsigned number and \<open>std::stoi\<close>.\<close>

definition digit :: "nat \<Rightarrow> char" where
  "digit n = char_of (48 + n)"

fun to_string :: "nat \<Rightarrow> string" where
  "to_string n = (if n < 10 then [digit n] else to_string (n div 10) @ [digit (n mod 10)])"

declare to_string.simps [simp del]

definition is_digit :: "char \<Rightarrow> bool" where
  "is_digit c \<longleftrightarrow> 48 \<le> (of_char c :: nat) \<and> of_char c \<le> (57 :: nat)"

definition is_space :: "char \<Rightarrow> bool" where
  "is_space c \<longleftrightarrow> (of_char c :: nat) = 32 \<or> 9 \<le> (of_char c :: nat) \<and> of_char c \<le> (13 :: nat)"

definition digits_value :: "string \<Rightarrow> int" where
  "digits_value s = fold (\<lambda>c v. 10 * v + (of_char c - 48)) s 0"

definition stoi :: "string \<Rightarrow> exn + int" where
  "stoi s =
     (let s = dropWhile is_space s;
          neg = (s \<noteq> [] \<and> hd s = CHR ''-'');
          s = (if s \<noteq> [] \<and> (hd s = CHR ''-'' \<or> hd s = CHR ''+'') then tl s else s);
          ds = takeWhile is_digit s;
          v = (if neg then - digits_value ds else digits_value ds)
      in if ds = [] then Inl (invalid_argument ''stoi'')
         else if v < - (2 ^ 31) \<or> 2 ^ 31 \<le> v then Inl (out_of_range ''stoi'')
         else Inr v)"

section \<open>Model\<close>

record Address =
  addr_size :: u32
  addr_storage :: "byte list"

record addrinfo =
  ai_flags :: int
  ai_family :: int

type_synonym getaddrinfo = "string \<Rightarrow> string \<Rightarrow> addrinfo \<Rightarrow> int + byte list list"
type_synonym getnameinfo = "byte list \<Rightarrow> int + string \<times> string"

definition AF_INET :: int where
  "AF_INET = 2"

definition AI_ALL :: int where
  "AI_ALL = 0x10"

definition AI_NUMERICHOST :: int where
  "AI_NUMERICHOST = 0x4"

definition AI_NUMERICSERV :: int where
  "AI_NUMERICSERV = 0x400"

text \<open>The bytes of a \<open>sockaddr_in\<close>, of size 16.\<close>

definition sockaddr_in :: "u32 \<Rightarrow> u16 \<Rightarrow> byte list" where
  "sockaddr_in ip p = [2, 0] @ be_bytes p @ be_bytes ip @ replicate 8 0"

text \<open>Construction from a raw socket address; \<open>sizeof(sockaddr_storage)\<close> is 128.\<close>

definition Address_raw :: "byte list \<Rightarrow> u64 \<Rightarrow> exn + Address" where
  "Address_raw addr n =
     (if 128 < n then Inl (runtime_error ''invalid sockaddr size'')
      else Inr \<lparr>addr_size = ucast n, addr_storage = take (unat n) addr @ replicate (128 - unat n) 0\<rparr>)"

definition Address_lookup :: "getaddrinfo \<Rightarrow> string \<Rightarrow> string \<Rightarrow> addrinfo \<Rightarrow> exn + Address" where
  "Address_lookup gai node service hints =
     (case gai node service hints of
        Inl gai_ret \<Rightarrow> Inl (tagged_error ''gai_error_category'' (''getaddrinfo('' @ node @ '', '' @ service @ '')'') gai_ret)
      | Inr [] \<Rightarrow> Inl (runtime_error ''getaddrinfo returned successfully but with no results'')
      | Inr (resolved_address # _) \<Rightarrow> Address_raw resolved_address (sz resolved_address))"

definition make_hints :: "int \<Rightarrow> int \<Rightarrow> addrinfo" where
  "make_hints flags family = \<lparr>ai_flags = flags, ai_family = family\<rparr>"

definition Address_host :: "getaddrinfo \<Rightarrow> string \<Rightarrow> string \<Rightarrow> exn + Address" where
  "Address_host gai hostname service = Address_lookup gai hostname service (make_hints AI_ALL AF_INET)"

definition Address_ip :: "getaddrinfo \<Rightarrow> string \<Rightarrow> u16 \<Rightarrow> exn + Address" where
  "Address_ip gai ip p = Address_lookup gai ip (to_string (unat p)) (make_hints (AI_NUMERICHOST OR AI_NUMERICSERV) AF_INET)"

definition ip_port :: "getnameinfo \<Rightarrow> Address \<Rightarrow> exn + string \<times> u16" where
  "ip_port gni a =
     (case gni (take (unat (addr_size a)) (addr_storage a)) of
        Inl gni_ret \<Rightarrow> Inl (tagged_error ''gai_error_category'' ''getnameinfo'' gni_ret)
      | Inr (ip, service) \<Rightarrow> chain (stoi service) (\<lambda>n. Inr (ip, of_int n)))"

definition addr_ip :: "getnameinfo \<Rightarrow> Address \<Rightarrow> exn + string" where
  "addr_ip gni a = chain (ip_port gni a) (\<lambda>(ip, p). Inr ip)"

definition port :: "getnameinfo \<Rightarrow> Address \<Rightarrow> exn + u16" where
  "port gni a = chain (ip_port gni a) (\<lambda>(ip, p). Inr p)"

definition addr_to_string :: "getnameinfo \<Rightarrow> Address \<Rightarrow> exn + string" where
  "addr_to_string gni a = chain (ip_port gni a) (\<lambda>(ip, p). Inr (ip @ '':'' @ to_string (unat p)))"

definition ipv4_numeric :: "Address \<Rightarrow> exn + u32" where
  "ipv4_numeric a =
     (if take 2 (addr_storage a) \<noteq> [2, 0] \<or> addr_size a \<noteq> 16
      then Inl (runtime_error ''ipv4_numeric called on non-IPV4 address'')
      else Inr (fold (\<lambda>b v. push_bit 8 v + ucast b) (take 4 (drop 4 (addr_storage a))) 0))"

definition from_ipv4_numeric :: "u32 \<Rightarrow> exn + Address" where
  "from_ipv4_numeric ip_address = Address_raw (sockaddr_in ip_address 0) 16"

definition Address_eq :: "Address \<Rightarrow> Address \<Rightarrow> bool" where
  "Address_eq a b \<longleftrightarrow> addr_size a = addr_size b
     \<and> take (unat (addr_size a)) (addr_storage a) = take (unat (addr_size a)) (addr_storage b)"

text \<open>\<open>inet_ntoa({htobe32(ip)})\<close>: the dotted quad of an address in host order.\<close>

definition inet_ntoa :: "u32 \<Rightarrow> string" where
  "inet_ntoa ip =
     to_string (unat (drop_bit 24 ip)) @ ''.'' @ to_string (unat (drop_bit 16 ip AND 0xff)) @ ''.''
     @ to_string (unat (drop_bit 8 ip AND 0xff)) @ ''.'' @ to_string (unat (ip AND 0xff))"

section \<open>What the resolver is relied on for\<close>

text \<open>
  For a dotted quad and a decimal port, with the flags that forbid name lookups, \<open>getaddrinfo\<close> gives that
  address and port first; \<open>getnameinfo\<close> prints them back.
\<close>

definition numeric_resolver :: "getaddrinfo \<Rightarrow> getnameinfo \<Rightarrow> bool" where
  "numeric_resolver gai gni \<longleftrightarrow> (\<forall>ip p.
     (\<exists>rest. gai (inet_ntoa ip) (to_string (unat p)) (make_hints (AI_NUMERICHOST OR AI_NUMERICSERV) AF_INET)
        = Inr (sockaddr_in ip p # rest))
   \<and> gni (sockaddr_in ip p) = Inr (inet_ntoa ip, to_string (unat p)))"

section \<open>Lemmas\<close>

lemma of_char_digit:
  assumes "n < 10"
  shows "of_char (digit n) = 48 + n" "of_char (digit n) = 48 + int n"
proof -
  show n: "of_char (digit n) = 48 + n" using assms by (simp add: digit_def)
  show "of_char (digit n) = 48 + int n" using of_nat_of_char [of "digit n", where 'a = int] by (simp add: n)
qed

lemma to_string_digits: "\<forall>c \<in> set (to_string n). is_digit c" "to_string n \<noteq> []"
proof (induction n rule: to_string.induct)
  case (1 n)
  { case 1 then show ?case using "1.IH"(1) by (subst to_string.simps) (auto simp: is_digit_def of_char_digit)
  next
    case 2 then show ?case by (subst to_string.simps) simp }
qed

lemma digits_value_to_string: "digits_value (to_string n) = int n"
proof (induction n rule: to_string.induct)
  case (1 n)
  show ?case
  proof (cases "n < 10")
    case False
    have "digits_value (to_string n) = 10 * digits_value (to_string (n div 10)) + int (n mod 10)"
      using False by (subst to_string.simps) (simp add: digits_value_def of_char_digit)
    then show ?thesis using "1.IH" False by presburger
  qed (subst to_string.simps, simp add: digits_value_def of_char_digit)
qed

lemma stoi_to_string:
  assumes "n < 2 ^ 31"
  shows "stoi (to_string n) = Inr (int n)"
proof -
  have d: "\<forall>c \<in> set (to_string n). is_digit c" "to_string n \<noteq> []" by (rule to_string_digits)+
  then obtain c cs where t: "to_string n = c # cs" "is_digit c" by (cases "to_string n") auto
  have "\<not> is_space c" "c \<noteq> CHR ''-''" "c \<noteq> CHR ''+''" using t(2) by (auto simp: is_digit_def is_space_def)
  moreover have "takeWhile is_digit cs = cs" using d(1) t(1) by (simp add: takeWhile_eq_all_conv)
  ultimately show ?thesis
    using t assms digits_value_to_string [of n] by (simp add: stoi_def Let_def del: takeWhile_eq_all_conv)
qed

definition Address_of :: "u32 \<Rightarrow> u16 \<Rightarrow> Address" where
  "Address_of ip p = \<lparr>addr_size = 16, addr_storage = sockaddr_in ip p @ replicate 112 0\<rparr>"

lemma length_sockaddr_in [simp]: "length (sockaddr_in ip p) = 16"
  by (simp add: sockaddr_in_def)

lemma Address_raw_in: "Address_raw (sockaddr_in ip p) (sz (sockaddr_in ip p)) = Inr (Address_of ip p)"
  by (simp add: Address_raw_def Address_of_def sz_def)

definition be_value :: "byte list \<Rightarrow> 'a::len word" where
  "be_value bs = fold (\<lambda>b v. push_bit 8 v + ucast b) bs 0"

lemma be_value_bytes:
  assumes "8 dvd LENGTH('a::len)"
  shows "be_value (be_bytes (v :: 'a word)) = v"
proof -
  have "fold f xs a = fold (\<lambda>i. f (xs ! i)) [0..<length xs] a" for f :: "byte \<Rightarrow> 'a word \<Rightarrow> 'a word" and xs a
    using fold_map [of f "\<lambda>i. xs ! i" "[0..<length xs]"] by (simp add: map_nth comp_def)
  then show ?thesis using parse_be_bytes [OF assms, of v "[]"] by (simp add: be_value_def)
qed

lemma ipv4_numeric_of [simp]: "ipv4_numeric (Address_of ip p) = Inr ip"
  using be_value_bytes [of ip] by (simp add: ipv4_numeric_def Address_of_def sockaddr_in_def be_value_def)

lemma Address_eq_of [simp]: "Address_eq (Address_of ip p) (Address_of ip' p') \<longleftrightarrow> ip = ip' \<and> p = p'"
proof -
  have "sockaddr_in ip p = sockaddr_in ip' p' \<longleftrightarrow> ip = ip' \<and> p = p'"
    using be_bytes_inj [of ip ip'] be_bytes_inj [of p p'] by (auto simp: sockaddr_in_def)
  then show ?thesis by (simp add: Address_eq_def Address_of_def)
qed

lemma resolver_laws:
  assumes "numeric_resolver gai gni"
  shows "Address_ip gai (inet_ntoa ip) p = Inr (Address_of ip p)" and "ip_port gni (Address_of ip p) = Inr (inet_ntoa ip, p)"
    and "port gni (Address_of ip p) = Inr p"
proof -
  have r: "\<exists>rest. gai (inet_ntoa ip) (to_string (unat p)) (make_hints (AI_NUMERICHOST OR AI_NUMERICSERV) AF_INET)
      = Inr (sockaddr_in ip p # rest)" "gni (sockaddr_in ip p) = Inr (inet_ntoa ip, to_string (unat p))"
    using assms unfolding numeric_resolver_def by blast+
  from r(1) show "Address_ip gai (inet_ntoa ip) p = Inr (Address_of ip p)"
    by (auto simp: Address_ip_def Address_lookup_def Address_raw_in)
  have "unat p < 2 ^ 31" using unsigned_less [where 'a = nat, of p] by simp
  from stoi_to_string [OF this] show i: "ip_port gni (Address_of ip p) = Inr (inet_ntoa ip, p)"
    using r(2) by (simp add: ip_port_def Address_of_def)
  show "port gni (Address_of ip p) = Inr p" unfolding port_def i by simp
qed

section \<open>A resolver for numeric addresses\<close>

text \<open>A resolver that only knows dotted quads and decimal ports meets the conditions.\<close>

fun split_dot :: "string \<Rightarrow> string list" where
  "split_dot [] = [[]]"
| "split_dot (c # cs) = (if c = CHR ''.'' then [] # split_dot cs
     else case split_dot cs of [] \<Rightarrow> [[c]] | part # parts \<Rightarrow> (c # part) # parts)"

lemma split_dot_append:
  "\<forall>c \<in> set s. is_digit c \<Longrightarrow> split_dot (s @ CHR ''.'' # rest) = s # split_dot rest"
  "\<forall>c \<in> set s. is_digit c \<Longrightarrow> split_dot s = [s]"
  by (induction s) (auto simp: is_digit_def)

definition numeric_gai :: getaddrinfo where
  "numeric_gai node service hints =
     (case map stoi (split_dot node) of
        [Inr a, Inr b, Inr c, Inr d] \<Rightarrow>
          (case stoi service of
             Inr p \<Rightarrow> Inr [sockaddr_in (of_int (((a * 256 + b) * 256 + c) * 256 + d)) (of_int p)]
           | Inl _ \<Rightarrow> Inl (-8))
      | _ \<Rightarrow> Inl (-2))"

definition numeric_gni :: getnameinfo where
  "numeric_gni bs = Inr (inet_ntoa (be_value (take 4 (drop 4 bs))), to_string (unat (be_value (take 2 (drop 2 bs)) :: u16)))"

lemma unat_and_ff: "unat (x AND 0xff :: u32) = unat x mod 256"
proof -
  have "x AND 0xff = take_bit 8 x" by (simp add: take_bit_eq_mask mask_eq_exp_minus_1)
  then show ?thesis by (simp only: unsigned_take_bit_eq) (simp add: take_bit_eq_mod)
qed

lemma quad_value:
  "of_int (((int (unat (drop_bit 24 ip)) * 256 + int (unat (drop_bit 16 ip AND 0xff))) * 256
      + int (unat (drop_bit 8 ip AND 0xff))) * 256 + int (unat (ip AND 0xff))) = (ip :: u32)"
proof -
  define x where "x = unat ip"
  have x: "x < 2 ^ 32" using unsigned_less [where 'a = nat, of ip] by (simp add: x_def)
  have e: "((x div 16777216 * 256 + x div 65536 mod 256) * 256 + x div 256 mod 256) * 256 + x mod 256 = x"
  proof -
    have "x div 65536 = x div 256 div 256" "x div 16777216 = x div 256 div 256 div 256"
      by (simp_all flip: div_mult2_eq)
    then show ?thesis by (simp only: div_mult_mod_eq)
  qed
  have "of_int (int (((x div 16777216 * 256 + x div 65536 mod 256) * 256 + x div 256 mod 256) * 256 + x mod 256)) = (of_nat x :: u32)"
    unfolding e by simp
  then show ?thesis unfolding unat_and_ff unat_drop_bit_eq x_def [symmetric] by (simp add: drop_bit_eq_div x_def)
qed

lemma numeric_resolver_exists: "numeric_resolver numeric_gai numeric_gni"
proof -
  have "numeric_gai (inet_ntoa ip) (to_string (unat p)) h = Inr [sockaddr_in ip p]" for ip p h
  proof -
    have d: "stoi (to_string (unat (w :: u32))) = Inr (int (unat w))" if "unat w < 256" for w
      by (rule stoi_to_string) (use that in simp)
    have l: "unat (drop_bit 24 ip) < 256" "unat (drop_bit 16 ip AND 0xff) < 256" "unat (drop_bit 8 ip AND 0xff) < 256"
      "unat (ip AND 0xff) < 256"
      using unsigned_less [where 'a = nat, of ip] by (simp_all only: unat_and_ff unat_drop_bit_eq) (simp_all add: drop_bit_eq_div)
    have "unat p < 2 ^ 31" using unsigned_less [where 'a = nat, of p] by simp
    then show ?thesis
      using quad_value [of ip]
      by (simp add: numeric_gai_def inet_ntoa_def split_dot_append to_string_digits d l stoi_to_string)
  qed
  moreover have "numeric_gni (sockaddr_in ip p) = Inr (inet_ntoa ip, to_string (unat p))" for ip p
    using be_value_bytes [of ip] be_value_bytes [of p] by (simp add: numeric_gni_def sockaddr_in_def)
  ultimately show ?thesis unfolding numeric_resolver_def by blast
qed

end
