(* ===== verification/Sockets.thy ===== *)
theory Sockets
  imports Event_Loop Addresses
begin

text \<open>
  \<^verbatim>\<open>libsponge/util/socket.{hh,cc}\<close> and \<^verbatim>\<open>libsponge/util/tun.{hh,cc}\<close>: sockets and TUN devices as file descriptors. A
  constructor that throws destroys the descriptor it has made.
\<close>

section \<open>Model\<close>

definition AF_UNIX :: int where "AF_UNIX = 1"
definition SOCK_STREAM :: int where "SOCK_STREAM = 1"
definition SOCK_DGRAM :: int where "SOCK_DGRAM = 2"
definition SOL_SOCKET :: int where "SOL_SOCKET = 1"
definition SO_REUSEADDR :: int where "SO_REUSEADDR = 2"
definition SO_TYPE :: int where "SO_TYPE = 3"
definition SO_DOMAIN :: int where "SO_DOMAIN = 39"
definition SHUT_RD :: int where "SHUT_RD = 0"
definition SHUT_WR :: int where "SHUT_WR = 1"
definition SHUT_RDWR :: int where "SHUT_RDWR = 2"

definition or_destroy :: "'w kernel \<Rightarrow> nat \<Rightarrow> ('a, ('w, 'x) sys_scheme) prog \<Rightarrow> ('a, ('w, 'x) sys_scheme) prog" where
  "or_destroy k d m s = (case m s of (Inl e, s') \<Rightarrow> (Inl e, FileDescriptor_destroy k d s') | (Inr a, s') \<Rightarrow> (Inr a, s'))"

definition Socket_new :: "'w kernel \<Rightarrow> int \<Rightarrow> int \<Rightarrow> (nat, ('w, 'x) sys_scheme) prog" where
  "Socket_new k domain ty = seq (system_call ''socket'' (\<lambda>_. k_socket k domain ty)) (\<lambda>(fd, _). FileDescriptor_new fd)"

text \<open>One option of a socket must have the given value; an \<open>int\<close> has four bytes.\<close>

definition check_option :: "'w kernel \<Rightarrow> nat \<Rightarrow> int \<Rightarrow> int \<Rightarrow> string \<Rightarrow> (unit, ('w, 'x) sys_scheme) prog" where
  "check_option k d option expected message =
     seq (system_call ''getsockopt'' (\<lambda>s. k_getsockopt k (fd_num d s) SOL_SOCKET option)) (\<lambda>(_, actual_value, len).
       if len \<noteq> 4 \<or> actual_value \<noteq> expected then raise (runtime_error message) else ret ())"

definition Socket_of :: "'w kernel \<Rightarrow> nat \<Rightarrow> int \<Rightarrow> int \<Rightarrow> (nat, ('w, 'x) sys_scheme) prog" where
  "Socket_of k d domain ty =
     or_destroy k d
       (seq (check_option k d SO_DOMAIN domain ''socket domain mismatch'') (\<lambda>_.
        seq (check_option k d SO_TYPE ty ''socket type mismatch'') (\<lambda>_. ret d)))"

definition get_address ::
    "string \<Rightarrow> (int \<Rightarrow> ('w, byte list \<times> u64) syscall) \<Rightarrow> nat \<Rightarrow> (Address, ('w, 'x) sys_scheme) prog" where
  "get_address name_of_function function d =
     seq (system_call name_of_function (\<lambda>s. function (fd_num d s))) (\<lambda>(_, address, n).
       lift (Address_raw (resize address 128) n))"

definition local_address :: "'w kernel \<Rightarrow> nat \<Rightarrow> (Address, ('w, 'x) sys_scheme) prog" where
  "local_address k = get_address ''getsockname'' (k_getsockname k)"

definition peer_address :: "'w kernel \<Rightarrow> nat \<Rightarrow> (Address, ('w, 'x) sys_scheme) prog" where
  "peer_address k = get_address ''getpeername'' (k_getpeername k)"

text \<open>What a call is given of an address: the first \<open>size()\<close> bytes of its storage.\<close>

definition addr_bytes :: "Address \<Rightarrow> byte list" where
  "addr_bytes a = take (unat (addr_size a)) (addr_storage a)"

definition Socket_bind :: "'w kernel \<Rightarrow> nat \<Rightarrow> Address \<Rightarrow> (unit, ('w, 'x) sys_scheme) prog" where
  "Socket_bind k d address = seq (system_call ''bind'' (\<lambda>s. k_bind k (fd_num d s) (addr_bytes address))) (\<lambda>_. ret ())"

definition Socket_connect :: "'w kernel \<Rightarrow> nat \<Rightarrow> Address \<Rightarrow> (unit, ('w, 'x) sys_scheme) prog" where
  "Socket_connect k d address = seq (system_call ''connect'' (\<lambda>s. k_connect k (fd_num d s) (addr_bytes address))) (\<lambda>_. ret ())"

definition Socket_shutdown :: "'w kernel \<Rightarrow> nat \<Rightarrow> int \<Rightarrow> (unit, ('w, 'x) sys_scheme) prog" where
  "Socket_shutdown k d how =
     seq (system_call ''shutdown'' (\<lambda>s. k_shutdown k (fd_num d s) how)) (\<lambda>_.
       if how = SHUT_RD then change (register_read d)
       else if how = SHUT_WR then change (register_write d)
       else if how = SHUT_RDWR then change (register_write d \<circ> register_read d)
       else raise (runtime_error ''Socket::shutdown() called with invalid `how`''))"

definition Socket_setsockopt :: "'w kernel \<Rightarrow> nat \<Rightarrow> int \<Rightarrow> int \<Rightarrow> int \<Rightarrow> (unit, ('w, 'x) sys_scheme) prog" where
  "Socket_setsockopt k d level option option_value =
     seq (system_call ''setsockopt'' (\<lambda>s. k_setsockopt k (fd_num d s) level option option_value)) (\<lambda>_. ret ())"

definition set_reuseaddr :: "'w kernel \<Rightarrow> nat \<Rightarrow> (unit, ('w, 'x) sys_scheme) prog" where
  "set_reuseaddr k d = Socket_setsockopt k d SOL_SOCKET SO_REUSEADDR 1"

subsection \<open>UDP sockets\<close>

definition UDPSocket_new :: "'w kernel \<Rightarrow> (nat, ('w, 'x) sys_scheme) prog" where
  "UDPSocket_new k = Socket_new k AF_INET SOCK_DGRAM"

text \<open>\<open>recv\<close>: the source address and the payload; \<open>recvfrom\<close> with \<open>MSG_TRUNC\<close> returns the length of the whole datagram.\<close>

definition UDPSocket_recv :: "'w kernel \<Rightarrow> nat \<Rightarrow> u64 \<Rightarrow> (Address \<times> byte list, ('w, 'x) sys_scheme) prog" where
  "UDPSocket_recv k d mtu =
     seq (system_call ''recvfrom'' (\<lambda>s. k_recvfrom k (fd_num d s) mtu)) (\<lambda>(recv_len, data, from, fromlen).
       if sint mtu < recv_len then raise (runtime_error ''recvfrom (oversized datagram)'')
       else seq (change (register_read d)) (\<lambda>_.
            seq (lift (Address_raw (resize from 128) fromlen)) (\<lambda>source_address.
              if recv_len < 0 then raise (length_error ''basic_string::resize'')
              else ret (source_address, resize (data @ replicate (unat mtu - length data) 0) (nat recv_len)))))"

definition sendmsg_helper :: "'w kernel \<Rightarrow> nat \<Rightarrow> byte list \<Rightarrow> BufferViewList \<Rightarrow> (unit, ('w, 'x) sys_scheme) prog" where
  "sendmsg_helper k d destination_address views =
     seq (system_call ''sendmsg'' (\<lambda>s. k_sendmsg k (fd_num d s) destination_address views)) (\<lambda>(bytes_sent, _).
       if word_of_int bytes_sent \<noteq> BufferViewList_size views
       then raise (runtime_error ''datagram payload too big for sendmsg()'') else ret ())"

definition UDPSocket_sendto :: "'w kernel \<Rightarrow> nat \<Rightarrow> Address \<Rightarrow> BufferViewList \<Rightarrow> (unit, ('w, 'x) sys_scheme) prog" where
  "UDPSocket_sendto k d destination views =
     seq (sendmsg_helper k d (addr_bytes destination) views) (\<lambda>_. change (register_write d))"

definition UDPSocket_send :: "'w kernel \<Rightarrow> nat \<Rightarrow> BufferViewList \<Rightarrow> (unit, ('w, 'x) sys_scheme) prog" where
  "UDPSocket_send k d views = seq (sendmsg_helper k d [] views) (\<lambda>_. change (register_write d))"

subsection \<open>TCP and local sockets\<close>

definition TCPSocket_new :: "'w kernel \<Rightarrow> (nat, ('w, 'x) sys_scheme) prog" where
  "TCPSocket_new k = Socket_new k AF_INET SOCK_STREAM"

definition TCPSocket_listen :: "'w kernel \<Rightarrow> nat \<Rightarrow> int \<Rightarrow> (unit, ('w, 'x) sys_scheme) prog" where
  "TCPSocket_listen k d backlog = seq (system_call ''listen'' (\<lambda>s. k_listen k (fd_num d s) backlog)) (\<lambda>_. ret ())"

definition TCPSocket_accept :: "'w kernel \<Rightarrow> nat \<Rightarrow> (nat, ('w, 'x) sys_scheme) prog" where
  "TCPSocket_accept k d =
     seq (change (register_read d)) (\<lambda>_.
     seq (system_call ''accept'' (\<lambda>s. k_accept k (fd_num d s))) (\<lambda>(fd, _).
     seq (FileDescriptor_new fd) (\<lambda>d'. Socket_of k d' AF_INET SOCK_STREAM)))"

definition LocalStreamSocket_of :: "'w kernel \<Rightarrow> nat \<Rightarrow> (nat, ('w, 'x) sys_scheme) prog" where
  "LocalStreamSocket_of k d = Socket_of k d AF_UNIX SOCK_STREAM"

subsection \<open>TUN and TAP devices\<close>

definition IFF_TUN :: int where "IFF_TUN = 1"
definition IFF_TAP :: int where "IFF_TAP = 2"
definition IFF_NO_PI :: int where "IFF_NO_PI = 0x1000"
definition O_RDWR :: int where "O_RDWR = 2"
definition TUNSETIFF :: int where "TUNSETIFF = 0x400454ca"

text \<open>\<open>ifr_name\<close> has room for 15 characters of the name.\<close>

definition TunTapFD_new :: "'w kernel \<Rightarrow> string \<Rightarrow> bool \<Rightarrow> (nat, ('w, 'x) sys_scheme) prog" where
  "TunTapFD_new k devname is_tun =
     seq (system_call ''open'' (\<lambda>_. k_open k ''/dev/net/tun'' O_RDWR)) (\<lambda>(fd, _).
     seq (FileDescriptor_new fd) (\<lambda>d.
       or_destroy k d
         (seq (system_call ''ioctl'' (\<lambda>s. k_ioctl k (fd_num d s) TUNSETIFF
                 (take 15 devname, (if is_tun then IFF_TUN else IFF_TAP) OR IFF_NO_PI))) (\<lambda>_. ret d))))"

section \<open>Effects on the handles\<close>

lemma frame_change: "change f s = (r, s') \<Longrightarrow> s' = f s \<and> r = Inr ()"
  by (simp add: change_def)

lemma frame_seq:
  assumes "seq m f s = (r, s')" and "\<And>r1 s1. m s = (r1, s1) \<Longrightarrow> frame d s s1"
    and "\<And>a s1 s2 r2. m s = (Inr a, s1) \<Longrightarrow> f a s1 = (r2, s2) \<Longrightarrow> frame d s1 s2"
  shows "frame d s s'"
  using assms by (cases "m s") (auto simp: seq_def split: sum.splits intro: frame_trans)

lemma Socket_shutdown_frame:
  assumes "Socket_shutdown k d how s = (r, s')" and "d < length (wrappers s)"
  shows "frame d s s'"
  using assms(1) unfolding Socket_shutdown_def
proof (rule frame_seq)
  fix a s1 s2 r2
  assume c: "system_call ''shutdown'' (\<lambda>s. k_shutdown k (fd_num d s) how) s = (Inr a, s1)"
    and "(if how = SHUT_RD then change (register_read d)
       else if how = SHUT_WR then change (register_write d)
       else if how = SHUT_RDWR then change (register_write d \<circ> register_read d)
       else raise (runtime_error ''Socket::shutdown() called with invalid `how`'')) s1 = (r2, s2)"
  moreover have "d < length (wrappers s1)" using frame_length [OF frame_system_call [OF c]] assms(2) by simp
  ultimately show "frame d s1 s2"
    using frame_trans [OF frame_register(1) [of d s1] frame_register(2) [of d "register_read d s1"]]
    by (auto simp: change_def raise_def frame_register split: if_splits)
qed (rule frame_system_call)

lemma Socket_shutdown_wr_count:
  assumes "Socket_shutdown k d SHUT_WR s = (Inr u, s')" and "d < length (wrappers s)"
  shows "write_count d s' = write_count d s + 1"
proof -
  obtain r s1 where c: "system_call ''shutdown'' (\<lambda>s. k_shutdown k (fd_num d s) SHUT_WR) s = (r, s1)" by fastforce
  moreover have "wrappers s1 = wrappers s" using system_call_simps [OF c] by simp
  ultimately show ?thesis
    using assms by (auto simp: Socket_shutdown_def seq_def change_def SHUT_WR_def SHUT_RD_def write_count_def register_write_def
        split: sum.splits)
qed

end
