(* ===== verification/IPv4.thy ===== *)
theory IPv4
  imports TCP_Segments
begin

text \<open>
  \<^verbatim>\<open>libsponge/tcp_helpers/ipv4_header.{hh,cc}\<close> and \<^verbatim>\<open>ipv4_datagram.{hh,cc}\<close>: the IPv4 header, its wire
  format and checksum, and the datagram that carries a TCP segment.
\<close>

section \<open>Model\<close>

record IPv4Header =
  ver :: u8
  hlen :: u8
  tos :: u8
  len :: u16
  ip_id :: u16
  df :: bool
  mf :: bool
  offset :: u16
  ttl :: u8
  proto :: u8
  ip_cksum :: u16
  src :: u32
  dst :: u32

definition IPv4Header_LENGTH :: u64 where
  "IPv4Header_LENGTH = 20"

definition DEFAULT_TTL :: u8 where
  "DEFAULT_TTL = 128"

definition PROTO_TCP :: u8 where
  "PROTO_TCP = 6"

definition IPv4Header_new :: IPv4Header where
  "IPv4Header_new = \<lparr>ver = 4, hlen = ucast (IPv4Header_LENGTH div 4), tos = 0, len = 0, ip_id = 0, df = True, mf = False,
     offset = 0, ttl = DEFAULT_TTL, proto = PROTO_TCP, ip_cksum = 0, src = 0, dst = 0\<rparr>"

text \<open>The fixed fields; the result is the header and the parser behind them.\<close>

definition IPv4Header_parse_fields :: "NetParser \<Rightarrow> IPv4Header \<times> NetParser" where
  "IPv4Header_parse_fields p =
     (let (first_byte, p) = parse_u8 p;
          (ts, p) = parse_u8 p;
          (ln, p) = parse_u16 p;
          (i, p) = parse_u16 p;
          (fo_val, p) = parse_u16 p;
          (tt, p) = parse_u8 p;
          (pr, p) = parse_u8 p;
          (ck, p) = parse_u16 p;
          (sr, p) = parse_u32 p;
          (ds, p) = parse_u32 p
      in (\<lparr>ver = drop_bit 4 first_byte, hlen = first_byte AND 0x0f, tos = ts, len = ln, ip_id = i,
            df = (fo_val AND 0x4000 \<noteq> 0), mf = (fo_val AND 0x2000 \<noteq> 0), offset = fo_val AND 0x1fff,
            ttl = tt, proto = pr, ip_cksum = ck, src = sr, dst = ds\<rparr>, p))"

text \<open>
  \<open>parse\<close> on the header \<open>h\<close>, which keeps its fields when the data is too short. The checksum is taken
  over the header as it was on the wire.
\<close>

definition IPv4Header_parse :: "IPv4Header \<Rightarrow> NetParser \<Rightarrow> IPv4Header \<times> NetParser \<times> ParseResult" where
  "IPv4Header_parse h p =
     (let original_serialized_version = np_buffer p;
          data_size = Buffer_size (np_buffer p)
      in if data_size < IPv4Header_LENGTH then (h, p, PacketTooShort)
         else
           let (h, p) = IPv4Header_parse_fields p
           in if data_size < 4 * ucast (hlen h) then (h, p, PacketTooShort)
              else if ver h \<noteq> 4 then (h, p, WrongIPVersion)
              else if hlen h < 5 then (h, p, HeaderTooShort)
              else if data_size \<noteq> ucast (len h) then (h, p, TruncatedPacket)
              else
                let p = np_remove_prefix p (ucast (hlen h) * 4 - IPv4Header_LENGTH)
                in if parse_error p then (h, p, np_error p)
                   else if ck_value (ck_add (InternetChecksum_new 0) (take (4 * unat (hlen h)) (str original_serialized_version))) \<noteq> 0
                   then (h, p, BadChecksum)
                   else (h, p, NoError))"

definition first_byte_of :: "IPv4Header \<Rightarrow> u8" where
  "first_byte_of h = push_bit 4 (ver h) OR (hlen h AND 0xf)"

definition fo_val_of :: "IPv4Header \<Rightarrow> u16" where
  "fo_val_of h = (if df h then 0x4000 else 0) OR (if mf h then 0x2000 else 0) OR (offset h AND 0x1fff)"

definition IPv4Header_serialize :: "IPv4Header \<Rightarrow> exn + byte list" where
  "IPv4Header_serialize h =
     (if ver h \<noteq> 4 then Inl (runtime_error ''wrong IP version'')
      else if 4 * ucast (hlen h) < IPv4Header_LENGTH then Inl (runtime_error ''IP header too short'')
      else
        let ret = [];
            ret = unparse_u8 ret (first_byte_of h);
            ret = unparse_u8 ret (tos h);
            ret = unparse_u16 ret (len h);
            ret = unparse_u16 ret (ip_id h);
            ret = unparse_u16 ret (fo_val_of h);
            ret = unparse_u8 ret (ttl h);
            ret = unparse_u8 ret (proto h);
            ret = unparse_u16 ret (ip_cksum h);
            ret = unparse_u32 ret (src h);
            ret = unparse_u32 ret (dst h)
        in Inr (resize ret (4 * unat (hlen h))))"

definition payload_length :: "IPv4Header \<Rightarrow> u16" where
  "payload_length h = len h - 4 * ucast (hlen h)"

definition pseudo_cksum :: "IPv4Header \<Rightarrow> u32" where
  "pseudo_cksum h =
     (let pcksum = drop_bit 16 (src h) + (src h AND 0xffff);
          pcksum = pcksum + (drop_bit 16 (dst h) + (dst h AND 0xffff));
          pcksum = pcksum + ucast (proto h);
          pcksum = pcksum + ucast (payload_length h)
      in pcksum)"

record IPv4Datagram =
  ip_header :: IPv4Header
  ip_payload :: BufferList

definition IPv4Datagram_new :: IPv4Datagram where
  "IPv4Datagram_new = \<lparr>ip_header = IPv4Header_new, ip_payload = []\<rparr>"

definition IPv4Datagram_parse :: "IPv4Datagram \<Rightarrow> Buffer \<Rightarrow> IPv4Datagram \<times> ParseResult" where
  "IPv4Datagram_parse d buffer =
     (let (h, p, _) = IPv4Header_parse (ip_header d) (NetParser_new buffer);
          d = d\<lparr>ip_header := h, ip_payload := [np_buffer p]\<rparr>
      in if BufferList_size (ip_payload d) \<noteq> ucast (payload_length h) then (d, PacketTooShort)
         else (d, np_error p))"

definition IPv4Datagram_serialize :: "IPv4Datagram \<Rightarrow> exn + BufferList" where
  "IPv4Datagram_serialize d =
     (if BufferList_size (ip_payload d) \<noteq> ucast (payload_length (ip_header d))
      then Inl (runtime_error ''IPv4Datagram::serialize: payload is wrong size'')
      else
        let header_out = (ip_header d)\<lparr>ip_cksum := 0\<rparr>
        in case IPv4Header_serialize header_out of
             Inl e \<Rightarrow> Inl e
           | Inr header_zero_checksum \<Rightarrow>
               let check = ck_add (InternetChecksum_new 0) header_zero_checksum;
                   header_out = header_out\<lparr>ip_cksum := ck_value check\<rparr>
               in case IPv4Header_serialize header_out of
                    Inl e \<Rightarrow> Inl e
                  | Inr bytes \<Rightarrow> Inr (BufferList_append (BufferList_append [] [Buffer_of bytes]) (ip_payload d)))"

section \<open>The wire format\<close>

definition ip_bytes :: "IPv4Header \<Rightarrow> byte list" where
  "ip_bytes h = first_byte_of h # tos h # be_bytes (len h) @ be_bytes (ip_id h) @ be_bytes (fo_val_of h)
     @ ttl h # proto h # be_bytes (ip_cksum h) @ be_bytes (src h) @ be_bytes (dst h)"

lemma length_ip_bytes [simp]: "length (ip_bytes h) = 20"
  by (simp add: ip_bytes_def)

text \<open>A header whose fields are within the bits the wire has for them.\<close>

definition ip_ok :: "IPv4Header \<Rightarrow> bool" where
  "ip_ok h \<longleftrightarrow> ver h \<le> 15 \<and> hlen h \<le> 15 \<and> offset h \<le> 0x1fff"

lemma nibble: "(x :: u8) \<le> 15 \<Longrightarrow> take_bit 4 x = x"
  by (simp add: word_unat_eq_iff unsigned_take_bit_eq take_bit_nat_eq_self word_le_nat_alt)

lemma first_byte_fields:
  assumes "ver h \<le> 15" "hlen h \<le> 15"
  shows "drop_bit 4 (first_byte_of h) = ver h" "first_byte_of h AND 0x0f = hlen h"
proof -
  have m: "(0xf :: u8) = mask 4" by (simp add: mask_eq_exp_minus_1)
  have b: "first_byte_of h = push_bit 4 (ver h) OR take_bit 4 (hlen h)"
    unfolding first_byte_of_def m take_bit_eq_mask ..
  have "drop_bit 4 (push_bit 4 (take_bit 4 v) OR take_bit 4 w) = take_bit 4 v" for v w :: u8
    by (rule bit_word_eqI) (auto simp: bit_simps)
  then show "drop_bit 4 (first_byte_of h) = ver h" unfolding b using nibble [OF assms(1)] by metis
  have "(push_bit 4 v OR take_bit 4 w) AND mask 4 = take_bit 4 w" for v w :: u8
    by (rule bit_word_eqI) (auto simp: bit_simps)
  then show "first_byte_of h AND 0x0f = hlen h" unfolding b m using nibble [OF assms(2)] by metis
qed

lemma fo_val_fields:
  assumes "offset h \<le> 0x1fff"
  shows "(fo_val_of h AND 0x4000 \<noteq> 0) = df h" "(fo_val_of h AND 0x2000 \<noteq> 0) = mf h" "fo_val_of h AND 0x1fff = offset h"
proof -
  have m: "(0x1fff :: u16) = mask 13" by (simp add: mask_eq_exp_minus_1)
  have p: "(0x4000 :: u16) = push_bit 14 1" "(0x2000 :: u16) = push_bit 13 1" by simp_all
  have o: "take_bit 13 (offset h) = offset h"
    using assms by (simp add: word_unat_eq_iff unsigned_take_bit_eq take_bit_nat_eq_self word_le_nat_alt)
  have b: "fo_val_of h = (if df h then push_bit 14 1 else 0) OR (if mf h then push_bit 13 1 else 0) OR take_bit 13 (offset h)"
    unfolding fo_val_of_def m p take_bit_eq_mask ..
  have t: "(w AND push_bit n 1 \<noteq> 0) = bit w n" for w :: u16 and n
    by (simp add: push_bit_of_1 and_exp_eq_0_iff_not_bit)
  show "(fo_val_of h AND 0x4000 \<noteq> 0) = df h" unfolding b p(1) by (subst t) (auto simp: bit_simps)
  show "(fo_val_of h AND 0x2000 \<noteq> 0) = mf h" unfolding b p(2) by (subst t) (auto simp: bit_simps)
  have b': "fo_val_of h = push_bit 14 (of_bool (df h)) OR push_bit 13 (of_bool (mf h)) OR take_bit 13 (offset h)"
    unfolding b by simp
  have "(push_bit 14 d OR push_bit 13 f OR take_bit 13 w) AND mask 13 = take_bit 13 w" for d f w :: u16
    by (rule bit_word_eqI) (auto simp: bit_simps)
  then show "fo_val_of h AND 0x1fff = offset h" unfolding b' m using o by metis
qed

lemma ip_fields_roundtrip:
  assumes "ready p (ip_bytes h @ rest)" and "ip_ok h"
  shows "\<exists>p'. IPv4Header_parse_fields p = (h, p') \<and> ready p' rest"
proof -
  let ?r = "\<lambda>n. drop n (ip_bytes h) @ rest"
  from assms(1) obtain p1 where 1: "parse_u8 p = (first_byte_of h, p1)" "ready p1 (?r 1)"
    using parse_u8E [of p "first_byte_of h" "?r 1"] by (auto simp: ip_bytes_def)
  then obtain p2 where 2: "parse_u8 p1 = (tos h, p2)" "ready p2 (?r 2)"
    using parse_u8E [of p1 "tos h" "?r 2"] by (auto simp: ip_bytes_def)
  then obtain p3 where 3: "parse_u16 p2 = (len h, p3)" "ready p3 (?r 4)"
    using parse_u16E [of p2 "len h" "?r 4"] by (auto simp: ip_bytes_def)
  then obtain p4 where 4: "parse_u16 p3 = (ip_id h, p4)" "ready p4 (?r 6)"
    using parse_u16E [of p3 "ip_id h" "?r 6"] by (auto simp: ip_bytes_def)
  then obtain p5 where 5: "parse_u16 p4 = (fo_val_of h, p5)" "ready p5 (?r 8)"
    using parse_u16E [of p4 "fo_val_of h" "?r 8"] by (auto simp: ip_bytes_def)
  then obtain p6 where 6: "parse_u8 p5 = (ttl h, p6)" "ready p6 (?r 9)"
    using parse_u8E [of p5 "ttl h" "?r 9"] by (auto simp: ip_bytes_def)
  then obtain p7 where 7: "parse_u8 p6 = (proto h, p7)" "ready p7 (?r 10)"
    using parse_u8E [of p6 "proto h" "?r 10"] by (auto simp: ip_bytes_def)
  then obtain p8 where 8: "parse_u16 p7 = (ip_cksum h, p8)" "ready p8 (?r 12)"
    using parse_u16E [of p7 "ip_cksum h" "?r 12"] by (auto simp: ip_bytes_def)
  then obtain p9 where 9: "parse_u32 p8 = (src h, p9)" "ready p9 (?r 16)"
    using parse_u32E [of p8 "src h" "?r 16"] by (auto simp: ip_bytes_def)
  then obtain p10 where 10: "parse_u32 p9 = (dst h, p10)" "ready p10 rest"
    using parse_u32E [of p9 "dst h" rest] by (auto simp: ip_bytes_def)
  show ?thesis
    using 1 2 3 4 5 6 7 8 9 10 first_byte_fields [of h] fo_val_fields [of h] assms(2)
    by (simp add: IPv4Header_parse_fields_def ip_ok_def)
qed

definition ip_wire :: "IPv4Header \<Rightarrow> byte list" where
  "ip_wire h = ip_bytes h @ replicate (4 * unat (hlen h) - 20) 0"

lemma hlen_facts:
  assumes "5 \<le> hlen h"
  shows "20 \<le> 4 * unat (hlen h)" "unat (4 * ucast (hlen h) :: u64) = 4 * unat (hlen h)"
    "unat (ucast (hlen h) * 4 - IPv4Header_LENGTH) = 4 * unat (hlen h) - 20" "length (ip_wire h) = 4 * unat (hlen h)"
proof -
  show a: "20 \<le> 4 * unat (hlen h)" using assms by (simp add: word_le_nat_alt)
  show "unat (4 * ucast (hlen h) :: u64) = 4 * unat (hlen h)"
    using unat_byte_le [of "hlen h"] by (simp add: unat_word_ariths unsigned_ucast_eq take_bit_nat_eq_self)
  show "unat (ucast (hlen h) * 4 - IPv4Header_LENGTH) = 4 * unat (hlen h) - 20"
    using unat_skip [OF assms] by (simp add: TCPHeader_LENGTH_def IPv4Header_LENGTH_def)
  show "length (ip_wire h) = 4 * unat (hlen h)" using a by (simp add: ip_wire_def)
qed

lemma ip_serialize_wire: "ver h = 4 \<Longrightarrow> 5 \<le> hlen h \<Longrightarrow> IPv4Header_serialize h = Inr (ip_wire h)"
proof -
  assume v: "ver h = 4" and h: "5 \<le> hlen h"
  then have "\<not> 4 * ucast (hlen h) < IPv4Header_LENGTH"
    using hlen_facts(1,2) [of h] by (simp add: word_less_nat_alt IPv4Header_LENGTH_def)
  then show ?thesis
    using v hlen_facts(1) [OF h] length_ip_bytes [of h]
    by (simp add: IPv4Header_serialize_def resize_def ip_wire_def ip_bytes_def Let_def)
qed

text \<open>Parsing the bytes of a header: everything but the checksum is accepted.\<close>

lemma ip_header_roundtrip:
  assumes h: "ip_ok h" "ver h = 4" "5 \<le> hlen h" and r: "ready p (ip_wire h @ rest)"
    and l: "unat (len h) = 4 * unat (hlen h) + length rest"
  shows "\<exists>p'. ready p' rest \<and> (\<forall>h0. IPv4Header_parse h0 p
    = (h, p', if ck_value (ck_add (InternetChecksum_new 0) (ip_wire h)) \<noteq> 0 then BadChecksum else NoError))"
proof -
  note f = hlen_facts [OF h(3)]
  obtain p1 where 1: "IPv4Header_parse_fields p = (h, p1)" "ready p1 (replicate (4 * unat (hlen h) - 20) 0 @ rest)"
    using ip_fields_roundtrip [OF _ h(1), of p "replicate (4 * unat (hlen h) - 20) 0 @ rest"] r by (auto simp: ip_wire_def)
  let ?p = "np_remove_prefix p1 (ucast (hlen h) * 4 - IPv4Header_LENGTH)"
  have p: "ready ?p rest" using remove_prefix_ready(1) [OF 1(2), of "ucast (hlen h) * 4 - IPv4Header_LENGTH"] by (simp add: f(3))
  have s: "str (np_buffer p) = ip_wire h @ rest" "fits (ip_wire h @ rest)" using r by (auto simp: ready_def dest: buf_inv_str_fits)
  have size: "unat (Buffer_size (np_buffer p)) = unat (len h)" using s l f(4) by (simp add: Buffer_size_def)
  have "\<not> Buffer_size (np_buffer p) < IPv4Header_LENGTH" "\<not> Buffer_size (np_buffer p) < 4 * ucast (hlen h)"
    using size l f(1,2) by (simp_all add: word_less_nat_alt IPv4Header_LENGTH_def)
  moreover have "Buffer_size (np_buffer p) = ucast (len h)"
    using size unat_u16_le [of "len h"] by (simp add: word_unat_eq_iff unsigned_ucast_eq take_bit_nat_eq_self)
  ultimately show ?thesis
    using 1(1) p h f(4) s(1) by (auto simp: IPv4Header_parse_def ready_def parse_error_def Let_def)
qed

lemma unat_payload_length:
  assumes "unat (len h) = 4 * unat (hlen h) + n"
  shows "unat (payload_length h) = n"
proof -
  have m: "unat (4 * ucast (hlen h) :: u16) = 4 * unat (hlen h)"
    using unat_byte_le [of "hlen h"] by (simp add: unat_word_ariths unsigned_ucast_eq take_bit_nat_eq_self)
  then have "4 * ucast (hlen h) \<le> len h" using assms by (simp add: word_le_nat_alt)
  then show ?thesis using assms m by (simp add: payload_length_def unat_sub)
qed

lemma ip_wire_split:
  "\<exists>pre post. even (length pre) \<and> length pre + length post + 2 = length (ip_wire h) \<and>
     (\<forall>c. ip_wire (h\<lparr>ip_cksum := c\<rparr>) = pre @ be_bytes c @ post)"
  by (rule exI [of _ "take 10 (ip_bytes h)"], rule exI [of _ "drop 12 (ip_wire h)"])
    (auto simp: ip_wire_def ip_bytes_def first_byte_of_def fo_val_of_def)

text \<open>The datagram a well-formed datagram serializes to, and what parsing it gives.\<close>

lemma datagram_wire:
  assumes h: "ip_ok (ip_header d)" "ver (ip_header d) = 4" "5 \<le> hlen (ip_header d)"
    and b: "\<forall>b \<in> set (ip_payload d). buf_inv b"
    and l: "unat (len (ip_header d)) = 4 * unat (hlen (ip_header d)) + length (BufferList_concatenate (ip_payload d))"
  shows "\<exists>bl ck b. IPv4Datagram_serialize d = Inr bl \<and> fits (BufferList_concatenate bl)
    \<and> IPv4Datagram_parse d0 (Buffer_of (BufferList_concatenate bl))
        = (d0\<lparr>ip_header := (ip_header d)\<lparr>ip_cksum := ck\<rparr>, ip_payload := [b]\<rparr>, NoError)
    \<and> buf_inv b \<and> str b = BufferList_concatenate (ip_payload d)
    \<and> snd (snd (IPv4Header_parse h0 (NetParser_new (Buffer_of (BufferList_concatenate bl))))) = NoError"
proof -
  let ?h = "ip_header d" and ?pl = "BufferList_concatenate (ip_payload d)"
  obtain pre post where w: "even (length pre)" "length pre + length post + 2 = length (ip_wire ?h)"
    "\<And>c. ip_wire (?h\<lparr>ip_cksum := c\<rparr>) = pre @ be_bytes c @ post" using ip_wire_split by blast
  define ck where "ck = ck_value (ck_add (InternetChecksum_new 0) (pre @ be_bytes (0 :: u16) @ post))"
  let ?h' = "?h\<lparr>ip_cksum := ck\<rparr>" and ?bytes = "ip_wire (?h\<lparr>ip_cksum := ck\<rparr>) @ ?pl"
  note f = hlen_facts [OF h(3)]
  have len: "length (ip_wire (?h\<lparr>ip_cksum := c\<rparr>)) = 4 * unat (hlen ?h)" for c
    using hlen_facts(4) [of "?h\<lparr>ip_cksum := c\<rparr>"] h(3) by simp
  have fits: "fits ?bytes" "fits (ip_wire ?h')" using l len unat_u16_le [of "len ?h"] by (simp_all add: fits_def)
  have zero: "ck_value (ck_add (InternetChecksum_new 0) (ip_wire ?h')) = 0"
  proof -
    have "weighted False (pre @ post) + 65535 < 2 ^ 32"
      using weighted_bound [of False "pre @ post"] w(2) f(4) unat_byte_le [of "hlen ?h"] by simp
    then show ?thesis unfolding w(3) ck_def using w(1) by (intro checksum_fills) simp_all
  qed
  have size: "BufferList_size (ip_payload d) = ucast (payload_length ?h)" "BufferList_size [b] = ucast (payload_length ?h)"
    if "str b = ?pl" for b
    using unat_payload_length [OF l] fits(1) that unat_u16_le [of "payload_length ?h"]
    by (simp_all add: BufferList_size_eq word_unat_eq_iff unsigned_ucast_eq take_bit_nat_eq_self fits_def
        BufferList_concatenate_eq)
  have fp: "fits ?pl" using fits(1) by (simp add: fits_def)
  have "IPv4Datagram_serialize d = Inr ([Buffer_of (ip_wire ?h')] @ ip_payload d)"
    using size(1) [of "Buffer_of ?pl"] fp ip_serialize_wire [of "?h\<lparr>ip_cksum := c\<rparr>" for c] h(2,3)
    by (simp add: IPv4Datagram_serialize_def BufferList_append_eq Let_def w(3) ck_def)
  moreover have c: "BufferList_concatenate ([Buffer_of (ip_wire ?h')] @ ip_payload d) = ?bytes"
    using fits(2) by (simp add: BufferList_concatenate_eq)
  moreover obtain p where p: "ready p ?pl" "\<And>h0. IPv4Header_parse h0 (NetParser_new (Buffer_of ?bytes)) = (?h', p, NoError)"
    using ip_header_roundtrip [of ?h' "NetParser_new (Buffer_of ?bytes)" ?pl] h l zero ready_new [OF fits(1)]
    by (auto simp: ip_ok_def)
  moreover have "payload_length ?h' = payload_length ?h" by (simp add: payload_length_def)
  ultimately show ?thesis
    using size(2) [of "np_buffer p"] fits(1)
    by (intro exI [of _ "[Buffer_of (ip_wire ?h')] @ ip_payload d"] exI [of _ ck] exI [of _ "np_buffer p"])
      (simp add: IPv4Datagram_parse_def ready_def)
qed

lemma unat_halves: "unat (drop_bit 16 (x :: u32)) + unat (x AND 0xffff) \<le> 131070"
proof -
  have "unat (drop_bit 16 x) \<le> 65535"
    using unsigned_less [where 'a = nat, of x] unfolding unat_drop_bit_eq by (simp add: drop_bit_eq_div)
  moreover have "unat (x AND 0xffff) \<le> 65535"
  proof -
    have "x AND 0xffff = take_bit 16 x" by (simp add: take_bit_eq_mask mask_eq_exp_minus_1)
    then show ?thesis by (simp only: unsigned_take_bit_eq) (simp add: take_bit_eq_mod)
  qed
  ultimately show ?thesis by simp
qed

lemma pseudo_cksum_bound: "unat (pseudo_cksum h) \<le> 2 ^ 20"
proof -
  have e: "pseudo_cksum h = of_nat (unat (drop_bit 16 (src h)) + unat (src h AND 0xffff)
      + (unat (drop_bit 16 (dst h)) + unat (dst h AND 0xffff)) + unat (proto h) + unat (payload_length h))"
    by (simp add: pseudo_cksum_def add.assoc Let_def)
  have "unat (pseudo_cksum h) \<le> unat (drop_bit 16 (src h)) + unat (src h AND 0xffff)
      + (unat (drop_bit 16 (dst h)) + unat (dst h AND 0xffff)) + unat (proto h) + unat (payload_length h)"
    unfolding e by (simp only: unsigned_of_nat take_bit_eq_mod of_nat_id mod_less_eq_dividend)
  then show ?thesis
    using unat_halves [of "src h"] unat_halves [of "dst h"] unat_byte_le [of "proto h"] unat_u16_le [of "payload_length h"] by simp
qed

section \<open>Properties\<close>

text \<open>
  C34. A datagram survives the wire: every datagram of version 4 whose fields fit their bits and whose length
  field is the length of header and payload is serialized without an exception, and parsing those bytes succeeds
  with the same header (apart from the checksum, which \<open>serialize\<close> fills in and the header check accepts) and the same payload.
\<close>

theorem IPv4Datagram_roundtrip:
  assumes "ver (ip_header d) = 4" and "5 \<le> hlen (ip_header d)" and "hlen (ip_header d) \<le> 15" and "offset (ip_header d) \<le> 0x1fff"
    and "\<forall>b \<in> set (ip_payload d). buf_inv b"
    and "unat (len (ip_header d)) = 4 * unat (hlen (ip_header d)) + length (BufferList_concatenate (ip_payload d))"
  shows "\<exists>bl d'. IPv4Datagram_serialize d = Inr bl
    \<and> IPv4Datagram_parse d0 (Buffer_of (BufferList_concatenate bl)) = (d', NoError)
    \<and> ip_header d' = (ip_header d)\<lparr>ip_cksum := ip_cksum (ip_header d')\<rparr>
    \<and> BufferList_concatenate (ip_payload d') = BufferList_concatenate (ip_payload d)
    \<and> snd (snd (IPv4Header_parse h0 (NetParser_new (Buffer_of (BufferList_concatenate bl))))) = NoError"
proof -
  have "ip_ok (ip_header d)" using assms(1,3,4) by (simp add: ip_ok_def)
  from datagram_wire [OF this assms(1,2,5,6), of d0 h0] show ?thesis
    by (fastforce simp: BufferList_concatenate_eq)
qed

theorem IPv4Datagram_roundtrip_witness:
  "\<exists>bl d'. IPv4Datagram_serialize \<lparr>ip_header = IPv4Header_new\<lparr>len := 23\<rparr>, ip_payload = [Buffer_of [1], Buffer_of [2, 3]]\<rparr> = Inr bl
    \<and> IPv4Datagram_parse IPv4Datagram_new (Buffer_of (BufferList_concatenate bl)) = (d', NoError)
    \<and> BufferList_concatenate (ip_payload d') = [1, 2, 3]"
proof -
  let ?d = "\<lparr>ip_header = IPv4Header_new\<lparr>len := 23\<rparr>, ip_payload = [Buffer_of [1], Buffer_of [2, 3]]\<rparr>"
  have p: "BufferList_concatenate (ip_payload ?d) = [1, 2, 3]" "\<forall>b \<in> set (ip_payload ?d). buf_inv b"
    by (simp_all add: BufferList_concatenate_eq fits_def)
  have "ver (ip_header ?d) = 4" "5 \<le> hlen (ip_header ?d)" "hlen (ip_header ?d) \<le> 15" "offset (ip_header ?d) \<le> 0x1fff"
    "unat (len (ip_header ?d)) = 4 * unat (hlen (ip_header ?d)) + length (BufferList_concatenate (ip_payload ?d))"
    unfolding p by (simp_all add: IPv4Header_new_def IPv4Header_LENGTH_def)
  from IPv4Datagram_roundtrip [OF this(1-4) p(2) this(5), of IPv4Datagram_new IPv4Header_new] show ?thesis
    unfolding p(1) by blast
qed

text \<open>
  C37. \<open>IPv4Header::parse\<close> yields well-formed headers. On any data the fields that share bytes stay within their bits,
  so that the header can be serialized again; a header that is accepted is of version 4, is between 20 and 60 bytes
  long and within the data, gives the length of the data as its total length, and its bytes have a correct checksum.
\<close>

theorem IPv4Header_parse_wellformed:
  fixes h0 b
  assumes "buf_inv b"
  defines "h \<equiv> fst (IPv4Header_parse h0 (NetParser_new b))" and "r \<equiv> snd (snd (IPv4Header_parse h0 (NetParser_new b)))"
  shows "if length (str b) < 20 then h = h0 \<and> r = PacketTooShort
    else ip_ok h
      \<and> (r = NoError \<longrightarrow> ver h = 4 \<and> 5 \<le> hlen h \<and> 4 * unat (hlen h) \<le> length (str b) \<and> unat (len h) = length (str b)
         \<and> ck_value (ck_add (InternetChecksum_new 0) (take (4 * unat (hlen h)) (str b))) = 0)"
proof -
  obtain h1 p1 where f: "IPv4Header_parse_fields (NetParser_new b) = (h1, p1)" by fastforce
  have w: "hlen h1 \<le> 15" "offset h1 \<le> 0x1fff" "ver h1 \<le> 15"
  proof -
    have "drop_bit 4 x \<le> 15" for x :: u8
      unfolding word_le_nat_alt unat_drop_bit_eq using unat_byte_le [of x] by (simp add: drop_bit_eq_div)
    then show "hlen h1 \<le> 15" "offset h1 \<le> 0x1fff" "ver h1 \<le> 15"
      using f by (auto simp: IPv4Header_parse_fields_def case_prod_beta Let_def word_and_le1)
  qed
  have fit: "fits (str b)" using assms(1) by simp
  have d: "Buffer_size b < IPv4Header_LENGTH \<longleftrightarrow> length (str b) < 20"
    using fit by (simp add: Buffer_size_def IPv4Header_LENGTH_def word_less_nat_alt)
  show ?thesis
  proof (cases "length (str b) < 20")
    case True
    then show ?thesis using d by (simp add: h_def r_def IPv4Header_parse_def NetParser_new_def)
  next
    case False
    then have h: "h = h1" using d f by (simp add: h_def IPv4Header_parse_def NetParser_new_def Let_def)
    have "ver h = 4 \<and> 5 \<le> hlen h \<and> \<not> Buffer_size b < 4 * ucast (hlen h) \<and> Buffer_size b = ucast (len h)
        \<and> ck_value (ck_add (InternetChecksum_new 0) (take (4 * unat (hlen h)) (str b))) = 0" if "r = NoError"
      using that False d f h by (auto simp: r_def IPv4Header_parse_def NetParser_new_def Let_def parse_error_def split: if_splits)
    moreover have "\<not> Buffer_size b < 4 * ucast (hlen h) \<Longrightarrow> 5 \<le> hlen h \<Longrightarrow> 4 * unat (hlen h) \<le> length (str b)"
      using hlen_facts(2) [of h] fit by (simp add: Buffer_size_def not_less word_le_nat_alt)
    moreover have "Buffer_size b = ucast (len h) \<Longrightarrow> unat (len h) = length (str b)"
    proof -
      have "unat (ucast (len h) :: u64) = unat (len h)"
        using unat_u16_le [of "len h"] by (simp add: unsigned_ucast_eq take_bit_nat_eq_self)
      then show "Buffer_size b = ucast (len h) \<Longrightarrow> unat (len h) = length (str b)"
        using fit by (metis Buffer_size_def unat_sz)
    qed
    ultimately show ?thesis using False w h by (auto simp: ip_ok_def)
  qed
qed

theorem IPv4Header_parse_wellformed_witness:
  "snd (snd (IPv4Header_parse IPv4Header_new (NetParser_new (Buffer_of [0x45, 0, 0])))) = PacketTooShort
   \<and> ip_ok (fst (IPv4Header_parse IPv4Header_new (NetParser_new (Buffer_of (0xff # replicate 30 0xff)))))"
proof -
  have b: "buf_inv (Buffer_of [0x45, 0, 0])" "str (Buffer_of [0x45, 0, 0]) = [0x45, 0, 0]"
    "buf_inv (Buffer_of (0xff # replicate 30 0xff))" "str (Buffer_of (0xff # replicate 30 0xff)) = 0xff # replicate 30 0xff"
    by (simp_all add: fits_def)
  show ?thesis
    using IPv4Header_parse_wellformed [OF b(1), of IPv4Header_new] IPv4Header_parse_wellformed [OF b(3), of IPv4Header_new]
    unfolding b(2,4) by simp
qed

section \<open>Where the code departs from its documentation\<close>

text \<open>
  The header's own checks are lost: a datagram with a wrong header checksum is reported by
  \<open>IPv4Header::parse\<close>, but accepted by \<open>IPv4Datagram::parse\<close>, which drops that result.
\<close>

lemma bad_header_checksum_accepted:
  assumes h: "ip_ok h" "ver h = 4" "5 \<le> hlen h" "unat (len h) = 4 * unat (hlen h) + length pl"
    and "ck_value (ck_add (InternetChecksum_new 0) (ip_wire h)) \<noteq> 0"
  shows "snd (snd (IPv4Header_parse h0 (NetParser_new (Buffer_of (ip_wire h @ pl))))) = BadChecksum"
    and "snd (IPv4Datagram_parse d0 (Buffer_of (ip_wire h @ pl))) = NoError"
proof -
  have f: "fits (ip_wire h @ pl)"
    using h(4) hlen_facts(4) [OF h(3)] unat_u16_le [of "len h"] by (simp add: fits_def)
  obtain p where p: "ready p pl" "\<And>h0. IPv4Header_parse h0 (NetParser_new (Buffer_of (ip_wire h @ pl))) = (h, p, BadChecksum)"
    using ip_header_roundtrip [OF h(1-3) ready_new [OF f] h(4)] assms(5) by auto
  then show "snd (snd (IPv4Header_parse h0 (NetParser_new (Buffer_of (ip_wire h @ pl))))) = BadChecksum" by simp
  have "BufferList_size [np_buffer p] = ucast (payload_length h)"
    using p(1) unat_payload_length [OF h(4)] unat_u16_le [of "payload_length h"] f
    by (simp add: BufferList_size_eq BufferList_concatenate_eq ready_def word_unat_eq_iff unsigned_ucast_eq
        take_bit_nat_eq_self fits_def)
  then show "snd (IPv4Datagram_parse d0 (Buffer_of (ip_wire h @ pl))) = NoError"
    using p by (simp add: IPv4Datagram_parse_def ready_def)
qed

end
