(* ===== verification/Adapters.thy ===== *)
theory Adapters
  imports IPv4 Addresses "HOL-Library.Stream"
begin

text \<open>
  The adapters between TCP segments and datagrams: \<^verbatim>\<open>tcp_over_ip.{hh,cc}\<close> and
  \<^verbatim>\<open>tuntap_adapter.hh\<close> (segments in IPv4 datagrams), \<^verbatim>\<open>fd_adapter.{hh,cc}\<close> (segments in UDP
  payloads) and \<^verbatim>\<open>lossy_fd_adapter.hh\<close> (random loss), all under \<^verbatim>\<open>libsponge/tcp_helpers\<close>. What is read from the
  device or socket is an argument, what is written to it a result; \<open>gai\<close> and \<open>gni\<close> are the resolver calls
  (theory \<^verbatim>\<open>Addresses\<close>), and the random generator is the stream of numbers it will give.
\<close>

section \<open>Model\<close>

record FdAdapterConfig =
  source :: Address
  destination :: Address
  loss_rate_dn :: u16
  loss_rate_up :: u16

definition FdAdapterConfig_new :: "getaddrinfo \<Rightarrow> exn + FdAdapterConfig" where
  "FdAdapterConfig_new gai =
     chain (Address_ip gai ''0'' 0) (\<lambda>s. chain (Address_ip gai ''0'' 0)
       (\<lambda>d. Inr \<lparr>source = s, destination = d, loss_rate_dn = 0, loss_rate_up = 0\<rparr>))"

record FdAdapterBase =
  ad_cfg :: FdAdapterConfig
  ad_listen :: bool

definition set_listening :: "bool \<Rightarrow> FdAdapterBase \<Rightarrow> FdAdapterBase" where
  "set_listening l ad = ad\<lparr>ad_listen := l\<rparr>"

definition listening :: "FdAdapterBase \<Rightarrow> bool" where
  "listening ad = ad_listen ad"

definition ad_tick :: "u64 \<Rightarrow> FdAdapterBase \<Rightarrow> FdAdapterBase" where
  "ad_tick ms ad = ad"

subsection \<open>Segments in IPv4 datagrams\<close>

text \<open>Is the datagram, which is not the first one, for us and from our peer?\<close>

definition ip_for_us :: "IPv4Header \<Rightarrow> FdAdapterBase \<Rightarrow> exn + bool" where
  "ip_for_us h ad =
     (if listening ad then Inr True
      else chain (ipv4_numeric (source (ad_cfg ad))) (\<lambda>s.
        if dst h \<noteq> s then Inr False
        else chain (ipv4_numeric (destination (ad_cfg ad))) (\<lambda>d. Inr (src h = d))))"

text \<open>The part after the port check: a listening adapter adopts the sender of a SYN as its peer.\<close>

definition adopt_peer :: "getaddrinfo \<Rightarrow> IPv4Header \<Rightarrow> TCPHeader \<Rightarrow> u16 \<Rightarrow> FdAdapterBase \<Rightarrow> exn + FdAdapterBase" where
  "adopt_peer gai h th source_port ad =
     chain (Address_ip gai (inet_ntoa (dst h)) source_port) (\<lambda>s.
     chain (Address_ip gai (inet_ntoa (src h)) (sport th)) (\<lambda>d.
       Inr (set_listening False (ad\<lparr>ad_cfg := (ad_cfg ad)\<lparr>source := s, destination := d\<rparr>\<rparr>))))"

definition unwrap_tcp_in_ip ::
    "getaddrinfo \<Rightarrow> getnameinfo \<Rightarrow> IPv4Datagram \<Rightarrow> FdAdapterBase \<Rightarrow> exn + TCPSegment option \<times> FdAdapterBase" where
  "unwrap_tcp_in_ip gai gni ip_dgram ad =
     chain (ip_for_us (ip_header ip_dgram) ad) (\<lambda>for_us.
       if \<not> for_us then Inr (None, ad)
       else if proto (ip_header ip_dgram) \<noteq> PROTO_TCP then Inr (None, ad)
       else chain (BufferList_to_Buffer (ip_payload ip_dgram)) (\<lambda>buffer.
         let (tcp_seg, result) = TCPSegment_parse TCPSegment_new buffer (pseudo_cksum (ip_header ip_dgram))
         in if result \<noteq> NoError then Inr (None, ad)
            else chain (port gni (source (ad_cfg ad))) (\<lambda>source_port.
              if dport (header tcp_seg) \<noteq> source_port then Inr (None, ad)
              else if listening ad \<and> \<not> (syn (header tcp_seg) \<and> \<not> rst (header tcp_seg)) then Inr (None, ad)
              else chain (if listening ad then adopt_peer gai (ip_header ip_dgram) (header tcp_seg) source_port ad else Inr ad)
                (\<lambda>ad. chain (port gni (destination (ad_cfg ad))) (\<lambda>destination_port.
                   if sport (header tcp_seg) \<noteq> destination_port then Inr (None, ad)
                   else Inr (Some tcp_seg, ad))))))"

text \<open>\<open>wrap_tcp_in_ip\<close>: the datagram, and the segment with its ports set.\<close>

definition wrap_tcp_in_ip :: "getnameinfo \<Rightarrow> TCPSegment \<Rightarrow> FdAdapterBase \<Rightarrow> exn + IPv4Datagram \<times> TCPSegment" where
  "wrap_tcp_in_ip gni seg ad =
     chain (port gni (source (ad_cfg ad))) (\<lambda>sp.
     chain (port gni (destination (ad_cfg ad))) (\<lambda>dp.
     chain (ipv4_numeric (source (ad_cfg ad))) (\<lambda>s.
     chain (ipv4_numeric (destination (ad_cfg ad))) (\<lambda>d.
       let seg = seg\<lparr>header := (header seg)\<lparr>sport := sp, dport := dp\<rparr>\<rparr>;
           h = (ip_header IPv4Datagram_new)\<lparr>src := s, dst := d\<rparr>;
           h = h\<lparr>len := ucast (ucast (hlen h) * 4 + ucast (doff (header seg)) * 4 + Buffer_size (payload seg))\<rparr>
       in chain (TCPSegment_serialize seg (pseudo_cksum h)) (\<lambda>bl.
            Inr (IPv4Datagram_new\<lparr>ip_header := h, ip_payload := bl\<rparr>, seg))))))"

text \<open>The adapter on a TUN device: \<open>read\<close> of the bytes the device gave, \<open>write\<close> with the bytes for it.\<close>

definition tun_read ::
    "getaddrinfo \<Rightarrow> getnameinfo \<Rightarrow> byte list \<Rightarrow> FdAdapterBase \<Rightarrow> exn + TCPSegment option \<times> FdAdapterBase" where
  "tun_read gai gni bytes ad =
     (let (ip_dgram, result) = IPv4Datagram_parse IPv4Datagram_new (Buffer_of bytes)
      in if result \<noteq> NoError then Inr (None, ad) else unwrap_tcp_in_ip gai gni ip_dgram ad)"

definition tun_write :: "getnameinfo \<Rightarrow> TCPSegment \<Rightarrow> FdAdapterBase \<Rightarrow> exn + BufferList \<times> TCPSegment" where
  "tun_write gni seg ad =
     chain (wrap_tcp_in_ip gni seg ad) (\<lambda>(ip_dgram, seg). chain (IPv4Datagram_serialize ip_dgram) (\<lambda>bl. Inr (bl, seg)))"

subsection \<open>Segments in UDP payloads\<close>

definition udp_read :: "Address \<times> byte list \<Rightarrow> FdAdapterBase \<Rightarrow> TCPSegment option \<times> FdAdapterBase" where
  "udp_read datagram ad =
     (let (source_address, bytes) = datagram
      in if \<not> listening ad \<and> \<not> Address_eq source_address (destination (ad_cfg ad)) then (None, ad)
         else
           let (seg, result) = TCPSegment_parse TCPSegment_new (Buffer_of bytes) 0
           in if result \<noteq> NoError then (None, ad)
              else if listening ad
              then if syn (header seg) \<and> \<not> rst (header seg)
                   then (Some seg, set_listening False (ad\<lparr>ad_cfg := (ad_cfg ad)\<lparr>destination := source_address\<rparr>\<rparr>))
                   else (None, ad)
              else (Some seg, ad))"

definition udp_write :: "getnameinfo \<Rightarrow> TCPSegment \<Rightarrow> FdAdapterBase \<Rightarrow> exn + (Address \<times> BufferList) \<times> TCPSegment" where
  "udp_write gni seg ad =
     chain (port gni (source (ad_cfg ad))) (\<lambda>sp.
     chain (port gni (destination (ad_cfg ad))) (\<lambda>dp.
       let seg = seg\<lparr>header := (header seg)\<lparr>sport := sp, dport := dp\<rparr>\<rparr>
       in chain (TCPSegment_serialize seg 0) (\<lambda>bl. Inr ((destination (ad_cfg ad), bl), seg))))"

subsection \<open>Random loss\<close>

record 'a LossyFdAdapter =
  rand :: "u32 stream"
  adapter :: 'a

text \<open>The number is drawn only when the rate is not zero.\<close>

definition should_drop :: "('a \<Rightarrow> FdAdapterConfig) \<Rightarrow> bool \<Rightarrow> 'a LossyFdAdapter \<Rightarrow> bool \<times> 'a LossyFdAdapter" where
  "should_drop config uplink l =
     (let c = config (adapter l);
          loss = (if uplink then loss_rate_up c else loss_rate_dn c)
      in if loss = 0 then (False, l)
         else (ucast (shd (rand l)) < loss, l\<lparr>rand := stl (rand l)\<rparr>))"

definition lossy_read ::
    "('a \<Rightarrow> FdAdapterConfig) \<Rightarrow> ('a \<Rightarrow> exn + TCPSegment option \<times> 'a) \<Rightarrow> 'a LossyFdAdapter
     \<Rightarrow> exn + TCPSegment option \<times> 'a LossyFdAdapter" where
  "lossy_read config rd l =
     chain (rd (adapter l)) (\<lambda>(ret, a).
       let (drp, l) = should_drop config False (l\<lparr>adapter := a\<rparr>)
       in if drp then Inr (None, l) else Inr (ret, l))"

text \<open>\<open>None\<close> when the segment was dropped.\<close>

definition lossy_write ::
    "('a \<Rightarrow> FdAdapterConfig) \<Rightarrow> (TCPSegment \<Rightarrow> 'a \<Rightarrow> exn + 'out) \<Rightarrow> TCPSegment \<Rightarrow> 'a LossyFdAdapter
     \<Rightarrow> exn + 'out option \<times> 'a LossyFdAdapter" where
  "lossy_write config wr seg l =
     (let (drp, l) = should_drop config True l
      in if drp then Inr (None, l) else chain (wr seg (adapter l)) (\<lambda>out. Inr (Some out, l)))"

text \<open>The functions passed through to the adapter.\<close>

definition lossy_set_listening :: "bool \<Rightarrow> FdAdapterBase LossyFdAdapter \<Rightarrow> FdAdapterBase LossyFdAdapter" where
  "lossy_set_listening b l = l\<lparr>adapter := set_listening b (adapter l)\<rparr>"

definition lossy_tick :: "u64 \<Rightarrow> FdAdapterBase LossyFdAdapter \<Rightarrow> FdAdapterBase LossyFdAdapter" where
  "lossy_tick ms l = l\<lparr>adapter := ad_tick ms (adapter l)\<rparr>"

section \<open>Segments on the wire\<close>

text \<open>An adapter that is connected: it sends from one address and port to another.\<close>

definition connected :: "u32 \<Rightarrow> u16 \<Rightarrow> u32 \<Rightarrow> u16 \<Rightarrow> FdAdapterBase \<Rightarrow> bool" where
  "connected sa sp da dp ad \<longleftrightarrow> \<not> listening ad \<and> source (ad_cfg ad) = Address_of sa sp \<and> destination (ad_cfg ad) = Address_of da dp"

text \<open>A segment that fits an IPv4 datagram.\<close>

definition sendable :: "TCPSegment \<Rightarrow> bool" where
  "sendable seg \<longleftrightarrow> 5 \<le> doff (header seg) \<and> doff (header seg) \<le> 15 \<and> buf_inv (payload seg)
     \<and> 20 + 4 * unat (doff (header seg)) + length (str (payload seg)) \<le> 65535"

definition addressed :: "u16 \<Rightarrow> u16 \<Rightarrow> TCPSegment \<Rightarrow> TCPSegment" where
  "addressed sp dp seg = seg\<lparr>header := (header seg)\<lparr>sport := sp, dport := dp\<rparr>\<rparr>"

text \<open>What arrives of a segment: the ports are set, the checksum is filled in, the payload is the same.\<close>

definition arrives :: "u16 \<Rightarrow> u16 \<Rightarrow> TCPSegment \<Rightarrow> TCPSegment \<Rightarrow> bool" where
  "arrives sp dp seg seg' \<longleftrightarrow> header seg' = (header seg)\<lparr>sport := sp, dport := dp, cksum := cksum (header seg')\<rparr>
     \<and> str (payload seg') = str (payload seg) \<and> buf_inv (payload seg')"

lemma arrives_fields:
  assumes "arrives sp dp seg seg'"
  shows "sport (header seg') = sp" "dport (header seg') = dp" "syn (header seg') = syn (header seg)"
    "rst (header seg') = rst (header seg)" "fin (header seg') = fin (header seg)" "seqno (header seg') = seqno (header seg)"
    "ack (header seg') = ack (header seg)" "ackno (header seg') = ackno (header seg)" "win (header seg') = win (header seg)"
    "str (payload seg') = str (payload seg)"
proof -
  have h: "header seg' = (header seg)\<lparr>sport := sp, dport := dp, cksum := cksum (header seg')\<rparr>" "str (payload seg') = str (payload seg)"
    using assms by (simp_all only: arrives_def)
  show "sport (header seg') = sp" "dport (header seg') = dp" "syn (header seg') = syn (header seg)"
    "rst (header seg') = rst (header seg)" "fin (header seg') = fin (header seg)" "seqno (header seg') = seqno (header seg)"
    "ack (header seg') = ack (header seg)" "ackno (header seg') = ackno (header seg)" "win (header seg') = win (header seg)"
    "str (payload seg') = str (payload seg)"
    by (subst h, simp)+
qed

lemma wrap_connected:
  assumes r: "numeric_resolver gai gni" and c: "connected sa sp da dp ad" and s: "sendable seg"
  shows "\<exists>bl h. wrap_tcp_in_ip gni seg ad = Inr (IPv4Datagram_new\<lparr>ip_header := h, ip_payload := bl\<rparr>, addressed sp dp seg)
    \<and> TCPSegment_serialize (addressed sp dp seg) (pseudo_cksum h) = Inr bl \<and> ip_ok h \<and> ver h = 4 \<and> hlen h = 5 \<and> proto h = PROTO_TCP
    \<and> src h = sa \<and> dst h = da \<and> unat (len h) = 20 + 4 * unat (doff (header seg)) + length (str (payload seg))"
proof -
  define n where "n = 20 + 4 * unat (doff (header seg)) + length (str (payload seg))"
  define h where "h = IPv4Header_new\<lparr>src := sa, dst := da, len := of_nat n\<rparr>"
  have f: "fits (str (payload seg))" "n \<le> 65535" using s by (simp_all add: sendable_def n_def)
  have "of_nat n = (ucast (of_nat n :: u64) :: u16)" 
    using f(2) by (simp add: word_unat_eq_iff unsigned_ucast_eq unsigned_of_nat take_bit_nat_eq_self take_bit_eq_mod)
  also have "(of_nat n :: u64) = 20 + ucast (doff (header seg)) * 4 + Buffer_size (payload seg)"
    by (simp add: n_def Buffer_size_def sz_def mult.commute)
  finally have l: "of_nat n = (ucast (20 + ucast (doff (header seg)) * 4 + Buffer_size (payload seg)) :: u16)" .
  obtain bl where b: "TCPSegment_serialize (addressed sp dp seg) (pseudo_cksum h) = Inr bl"
    using segment_bytes [of "addressed sp dp seg" "pseudo_cksum h"] s by (auto simp: addressed_def sendable_def)
  have "unat (len h) = n" using f(2) by (simp add: h_def unsigned_of_nat take_bit_nat_eq_self)
  moreover have "ip_ok h" "ver h = 4" "hlen h = 5" "proto h = PROTO_TCP" "src h = sa" "dst h = da"
    by (simp_all add: h_def ip_ok_def IPv4Header_new_def IPv4Header_LENGTH_def)
  moreover have "wrap_tcp_in_ip gni seg ad = Inr (IPv4Datagram_new\<lparr>ip_header := h, ip_payload := bl\<rparr>, addressed sp dp seg)"
    using c b resolver_laws [OF r] l
    by (simp add: wrap_tcp_in_ip_def connected_def addressed_def IPv4Datagram_new_def h_def IPv4Header_new_def
        IPv4Header_LENGTH_def Let_def)
  ultimately show ?thesis using b unfolding n_def by blast
qed

lemma TCPSegment_serialize_buffers:
  "TCPSegment_serialize seg s = Inr bl \<Longrightarrow> buf_inv (payload seg) \<Longrightarrow> length (str (payload seg)) \<le> 65535 \<Longrightarrow>
     5 \<le> doff (header seg) \<Longrightarrow> \<forall>b \<in> set bl. buf_inv b"
  using serialize_bytes [of "(header seg)\<lparr>cksum := c\<rparr>" for c] unat_byte_le [of "doff (header seg)"]
  by (auto simp: TCPSegment_serialize_def Let_def BufferList_append_eq fits_def)

lemma tun_write_connected:
  assumes r: "numeric_resolver gai gni" and c: "connected sa sp da dp ad" and s: "sendable seg"
  shows "\<exists>bl d seg'. tun_write gni seg ad = Inr (bl, addressed sp dp seg) \<and> fits (BufferList_concatenate bl)
    \<and> IPv4Datagram_parse IPv4Datagram_new (Buffer_of (BufferList_concatenate bl)) = (d, NoError)
    \<and> src (ip_header d) = sa \<and> dst (ip_header d) = da \<and> proto (ip_header d) = PROTO_TCP
    \<and> (\<exists>b. ip_payload d = [b] \<and> TCPSegment_parse TCPSegment_new b (pseudo_cksum (ip_header d)) = (seg', NoError))
    \<and> arrives sp dp seg seg'"
proof -
  let ?seg = "addressed sp dp seg"
  have a: "header ?seg = (header seg)\<lparr>sport := sp, dport := dp\<rparr>" "payload ?seg = payload seg" by (simp_all add: addressed_def)
  obtain bl h where w: "wrap_tcp_in_ip gni seg ad = Inr (IPv4Datagram_new\<lparr>ip_header := h, ip_payload := bl\<rparr>, ?seg)"
    "TCPSegment_serialize ?seg (pseudo_cksum h) = Inr bl" "ip_ok h" "ver h = 4" "hlen h = 5" "proto h = PROTO_TCP" "src h = sa" "dst h = da"
    "unat (len h) = 20 + 4 * unat (doff (header seg)) + length (str (payload seg))"
    using wrap_connected [OF assms] by blast
  have len: "5 \<le> doff (header ?seg)" "doff (header ?seg) \<le> 15" "buf_inv (payload ?seg)"
    "4 * unat (doff (header ?seg)) + length (str (payload ?seg)) \<le> 65535" using s by (simp_all add: a sendable_def)
  obtain c where bytes: "BufferList_concatenate bl
      = fixed_bytes ((header ?seg)\<lparr>cksum := c\<rparr>) @ replicate (4 * unat (doff (header ?seg)) - 20) 0 @ str (payload ?seg)"
    using segment_bytes [OF len(1,3,4), of "pseudo_cksum h"] w(2) by auto
  have l: "length (BufferList_concatenate bl) = 4 * unat (doff (header seg)) + length (str (payload seg))"
    unfolding bytes using len(1) by (simp add: a word_le_nat_alt)
  let ?d = "IPv4Datagram_new\<lparr>ip_header := h, ip_payload := bl\<rparr>"
  have bufs: "\<forall>b \<in> set bl. buf_inv b" using TCPSegment_serialize_buffers [OF w(2) len(3)] len by simp
  obtain bl' ck b where d: "IPv4Datagram_serialize ?d = Inr bl'" "fits (BufferList_concatenate bl')"
    "IPv4Datagram_parse IPv4Datagram_new (Buffer_of (BufferList_concatenate bl'))
      = (IPv4Datagram_new\<lparr>ip_header := h\<lparr>ip_cksum := ck\<rparr>, ip_payload := [b]\<rparr>, NoError)"
    "buf_inv b" "str b = BufferList_concatenate bl"
    using datagram_wire [of ?d IPv4Datagram_new IPv4Header_new] w(3-5,9) l bufs by auto
  obtain seg' where p: "TCPSegment_parse TCPSegment_new b (pseudo_cksum h) = (seg', NoError)"
    "header seg' = (header ?seg)\<lparr>cksum := cksum (header seg')\<rparr>" "str (payload seg') = str (payload ?seg)" "buf_inv (payload seg')"
    using segment_wire [OF len pseudo_cksum_bound, of h] w(2) d(4,5) by auto
  have "pseudo_cksum (h\<lparr>ip_cksum := ck\<rparr>) = pseudo_cksum h" by (simp add: pseudo_cksum_def payload_length_def)
  moreover have "arrives sp dp seg seg'" unfolding arrives_def using p(2-4) by (simp add: a)
  ultimately show ?thesis using w d(1-3) p(1) by (auto simp: tun_write_def)
qed

text \<open>What \<open>unwrap_tcp_in_ip\<close> does with IPv4 addresses in the configuration.\<close>

definition adopted :: "IPv4Header \<Rightarrow> u16 \<Rightarrow> u16 \<Rightarrow> FdAdapterBase \<Rightarrow> FdAdapterBase" where
  "adopted h sp dp ad = ad\<lparr>ad_cfg := (ad_cfg ad)\<lparr>source := Address_of (dst h) sp, destination := Address_of (src h) dp\<rparr>, ad_listen := False\<rparr>"

lemma unwrap_cases:
  assumes r: "numeric_resolver gai gni" and c: "source (ad_cfg ad) = Address_of sa sp" "destination (ad_cfg ad) = Address_of da dp"
    and b: "BufferList_to_Buffer (ip_payload d) = Inr b" "TCPSegment_parse TCPSegment_new b (pseudo_cksum (ip_header d)) = (seg, res)"
  defines "h \<equiv> ip_header d"
  shows "unwrap_tcp_in_ip gai gni d ad =
     (if \<not> listening ad \<and> (dst h \<noteq> sa \<or> src h \<noteq> da) \<or> proto h \<noteq> PROTO_TCP \<or> res \<noteq> NoError \<or> dport (header seg) \<noteq> sp then Inr (None, ad)
      else if listening ad
      then if syn (header seg) \<and> \<not> rst (header seg) then Inr (Some seg, adopted h sp (sport (header seg)) ad) else Inr (None, ad)
      else if sport (header seg) \<noteq> dp then Inr (None, ad) else Inr (Some seg, ad))"
proof (cases "listening ad")
  case True
  then show ?thesis
    using resolver_laws [OF r] c b
    by (simp add: unwrap_tcp_in_ip_def ip_for_us_def adopt_peer_def adopted_def set_listening_def h_def)
next
  case False
  then show ?thesis
    using resolver_laws(3) [OF r] c b by (simp add: unwrap_tcp_in_ip_def ip_for_us_def h_def)
qed

lemma tun_delivers:
  assumes r: "numeric_resolver gai gni" and a: "connected sa sp da dp a" and s: "sendable seg"
  shows "\<exists>bl seg'. tun_write gni seg a = Inr (bl, addressed sp dp seg) \<and> arrives sp dp seg seg'
    \<and> (\<forall>b. connected da dp sa sp b \<longrightarrow> tun_read gai gni (BufferList_concatenate bl) b = Inr (Some seg', b))"
proof -
  obtain bl d seg' x where w: "tun_write gni seg a = Inr (bl, addressed sp dp seg)"
    "IPv4Datagram_parse IPv4Datagram_new (Buffer_of (BufferList_concatenate bl)) = (d, NoError)"
    "src (ip_header d) = sa" "dst (ip_header d) = da" "proto (ip_header d) = PROTO_TCP" "ip_payload d = [x]"
    "TCPSegment_parse TCPSegment_new x (pseudo_cksum (ip_header d)) = (seg', NoError)" "arrives sp dp seg seg'"
    using tun_write_connected [OF assms] by blast
  have "tun_read gai gni (BufferList_concatenate bl) b = Inr (Some seg', b)" if "connected da dp sa sp b" for b
    using that w arrives_fields [OF w(8)] unwrap_cases [OF r, of b da dp sa sp d x seg' NoError]
    by (simp add: tun_read_def connected_def BufferList_to_Buffer_def)
  then show ?thesis using w(1,8) by blast
qed

definition wit_ad :: "u32 \<Rightarrow> u16 \<Rightarrow> u32 \<Rightarrow> u16 \<Rightarrow> FdAdapterBase" where
  "wit_ad sa sp da dp = \<lparr>ad_cfg = \<lparr>source = Address_of sa sp, destination = Address_of da dp, loss_rate_dn = 0, loss_rate_up = 0\<rparr>, ad_listen = False\<rparr>"

lemma wit_ad_connected [simp]: "connected sa sp da dp (wit_ad sa sp da dp)"
  by (simp add: connected_def wit_ad_def listening_def)

lemma wit_sendable: "sendable (TCPSegment_new\<lparr>payload := Buffer_of [1, 2, 3]\<rparr>)"
  by (simp add: sendable_def fits_def) (simp add: TCPSegment_new_def TCPHeader_new_def TCPHeader_LENGTH_def)

section \<open>Properties\<close>

text \<open>
  C7. A segment crosses the network: what a connected adapter writes to its TUN device for a segment that fits a datagram,
  the adapter at the other end reads as that segment, with the ports of the connection and the checksum filled in, and
  the same payload. An adapter that listens on the port and reads a SYN does so too, and is then connected to the sender.
\<close>

theorem tun_roundtrip:
  assumes "numeric_resolver gai gni" and "connected sa sp da dp a" and "sendable seg"
  shows "\<exists>bl seg'. tun_write gni seg a = Inr (bl, addressed sp dp seg) \<and> arrives sp dp seg seg'
    \<and> (connected da dp sa sp b \<longrightarrow> tun_read gai gni (BufferList_concatenate bl) b = Inr (Some seg', b))
    \<and> (listening b \<and> source (ad_cfg b) = Address_of any dp \<and> syn (header seg) \<and> \<not> rst (header seg) \<longrightarrow>
        (\<exists>b'. tun_read gai gni (BufferList_concatenate bl) b = Inr (Some seg', b') \<and> connected da dp sa sp b'))"
proof -
  obtain bl d seg' x where w: "tun_write gni seg a = Inr (bl, addressed sp dp seg)"
    "IPv4Datagram_parse IPv4Datagram_new (Buffer_of (BufferList_concatenate bl)) = (d, NoError)"
    "src (ip_header d) = sa" "dst (ip_header d) = da" "proto (ip_header d) = PROTO_TCP" "ip_payload d = [x]"
    "TCPSegment_parse TCPSegment_new x (pseudo_cksum (ip_header d)) = (seg', NoError)" "arrives sp dp seg seg'"
    using tun_write_connected [OF assms] by blast
  have p: "sport (header seg') = sp" "dport (header seg') = dp" "syn (header seg') = syn (header seg)" "rst (header seg') = rst (header seg)"
    using arrives_fields [OF w(8)] by simp_all
  note r = resolver_laws [OF assms(1)]
  have "tun_read gai gni (BufferList_concatenate bl) b = Inr (Some seg', b)" if "connected da dp sa sp b"
    using that w p r(3) by (simp add: tun_read_def unwrap_tcp_in_ip_def ip_for_us_def connected_def BufferList_to_Buffer_def)
  moreover have "\<exists>b'. tun_read gai gni (BufferList_concatenate bl) b = Inr (Some seg', b') \<and> connected da dp sa sp b'"
    if "listening b" "source (ad_cfg b) = Address_of any dp" "syn (header seg)" "\<not> rst (header seg)"
    using that w p r(1,3) by (simp add: tun_read_def unwrap_tcp_in_ip_def ip_for_us_def connected_def BufferList_to_Buffer_def
        adopt_peer_def set_listening_def) (simp add: listening_def)
  ultimately show ?thesis using w by blast
qed

theorem tun_roundtrip_witness:
  "\<exists>bl seg'. tun_read numeric_gai numeric_gni (BufferList_concatenate bl) (wit_ad 2 90 1 80) = Inr (Some seg', wit_ad 2 90 1 80)
    \<and> str (payload seg') = [1, 2, 3]"
proof -
  obtain bl seg' where "arrives 80 90 (TCPSegment_new\<lparr>payload := Buffer_of [1, 2, 3]\<rparr>) seg'"
    "tun_read numeric_gai numeric_gni (BufferList_concatenate bl) (wit_ad 2 90 1 80) = Inr (Some seg', wit_ad 2 90 1 80)"
    using tun_roundtrip [OF numeric_resolver_exists wit_ad_connected wit_sendable, of 1 80 2 90 "wit_ad 2 90 1 80" 0] by auto
  then show ?thesis using arrives_fields(10) by (fastforce simp: fits_def)
qed

text \<open>
  C35. Only intact segments of the connection get through, and reading changes nothing else. When a TUN adapter with IPv4 addresses hands up a segment it
  is connected, the bytes read were an IPv4 datagram that carries TCP from the peer's address to its own, the segment is what its payload parses to,
  with a correct checksum over it and the pseudo-header, and it goes from the peer's port to the adapter's own; if the adapter was listening,
  the segment is a SYN and no reset, and otherwise address and ports are those it had. Unless it was listening and hands up a segment,
  the adapter is unchanged.
\<close>

theorem tun_read_filters:
  assumes "numeric_resolver gai gni" and "tun_read gai gni bytes ad = Inr (res, ad')"
    and "source (ad_cfg ad) = Address_of sa sp" and "destination (ad_cfg ad) = Address_of da dp"
  shows "(listening ad \<and> res \<noteq> None \<or> ad' = ad)
    \<and> (case res of None \<Rightarrow> True | Some seg \<Rightarrow>
        \<exists>sa' da' d b. connected sa' sp da' (sport (header seg)) ad' \<and> dport (header seg) = sp
          \<and> IPv4Datagram_parse IPv4Datagram_new (Buffer_of bytes) = (d, NoError)
          \<and> dst (ip_header d) = sa' \<and> src (ip_header d) = da' \<and> proto (ip_header d) = PROTO_TCP
          \<and> BufferList_to_Buffer (ip_payload d) = Inr b
          \<and> TCPSegment_parse TCPSegment_new b (pseudo_cksum (ip_header d)) = (seg, NoError)
          \<and> ck_value (ck_add (InternetChecksum_new (pseudo_cksum (ip_header d))) (str b)) = 0
          \<and> (if listening ad then syn (header seg) \<and> \<not> rst (header seg) else sa' = sa \<and> da' = da \<and> sport (header seg) = dp))"
proof -
  obtain d r where d: "IPv4Datagram_parse IPv4Datagram_new (Buffer_of bytes) = (d, r)" by fastforce
  show ?thesis
  proof (cases "r = NoError")
    case False
    then show ?thesis using assms(2) d by (auto simp: tun_read_def)
  next
    case True
    then have t: "unwrap_tcp_in_ip gai gni d ad = Inr (res, ad')" using assms(2) d by (simp add: tun_read_def)
    show ?thesis
    proof (cases "BufferList_to_Buffer (ip_payload d)")
      case (Inl e)
      then show ?thesis using t by (auto simp: unwrap_tcp_in_ip_def ip_for_us_def assms(3,4) split: if_splits)
    next
      case (Inr b)
      obtain s q where p: "TCPSegment_parse TCPSegment_new b (pseudo_cksum (ip_header d)) = (s, q)" by fastforce
      have c: "ck_value (ck_add (InternetChecksum_new (pseudo_cksum (ip_header d))) (str b)) = 0" if "q = NoError"
        using that p by (auto simp: segment_parse_checksum split: if_splits)
      note u = t [unfolded unwrap_cases [OF assms(1,3,4) Inr p]]
      show ?thesis
      proof (cases res)
        case None
        then show ?thesis using u by (auto split: if_splits)
      next
        case (Some seg)
        then have "s = seg" "q = NoError" "proto (ip_header d) = PROTO_TCP" "dport (header seg) = sp" using u by (auto split: if_splits)
        then show ?thesis
          using u Some c d True Inr p assms(3,4)
          by (auto simp: connected_def adopted_def listening_def split: if_splits)
      qed
    qed
  qed
qed

theorem tun_read_filters_witness:
  "\<exists>bytes seg. tun_read numeric_gai numeric_gni bytes (wit_ad 2 90 1 80) = Inr (Some seg, wit_ad 2 90 1 80)
    \<and> dport (header seg) = 90 \<and> sport (header seg) = 80"
proof -
  obtain bl seg where t: "tun_read numeric_gai numeric_gni (BufferList_concatenate bl) (wit_ad 2 90 1 80) = Inr (Some seg, wit_ad 2 90 1 80)"
    using tun_delivers [OF numeric_resolver_exists wit_ad_connected wit_sendable, of 1 80 2 90] wit_ad_connected by blast
  have "source (ad_cfg (wit_ad 2 90 1 80)) = Address_of 2 90" "destination (ad_cfg (wit_ad 2 90 1 80)) = Address_of 1 80"
    "\<not> listening (wit_ad 2 90 1 80)" by (simp_all add: wit_ad_def listening_def)
  from tun_read_filters [OF numeric_resolver_exists t this(1,2)] t this(3) show ?thesis by auto
qed

end
