(* ===== verification/Sponge_Socket.thy ===== *)
theory Sponge_Socket
  imports Handshake Sockets Adapters
begin

text \<open>
  \<^verbatim>\<open>libsponge/tcp_helpers/tcp_sponge_socket.{hh,cc}\<close>: the thread that runs a connection between a datagram adapter and the
  local stream socket to the owner. The state extends that of the files by the members of the class; the event loop
  has the four rules of \<open>_initialize_TCP\<close>. The template parameter \<open>AdaptT\<close> is a record of operations, which is
  given for the TUN and the UDP adapter. The owner's thread is part of the system: \<open>aborted\<close> is what the
  thread reads from \<open>_abort\<close>. Diagnostic output is left out, but not the exceptions that making its text may throw.
\<close>

section \<open>Model\<close>

record ('w, 'a) sponge = "'w sys" +
  sk_owner :: nat
  sk_thread_data :: nat
  sk_adapter :: 'a
  sk_tcp :: "TCPConnection option"
  sk_inbound_shutdown :: bool
  sk_outbound_shutdown :: bool
  sk_fully_acked :: bool

record ('w, 'a) datagram_adapter =
  da_fd :: nat
  da_read :: "(TCPSegment option, ('w, 'a) sponge) prog"
  da_write :: "TCPSegment \<Rightarrow> (unit, ('w, 'a) sponge) prog"
  da_config :: "'a \<Rightarrow> FdAdapterConfig"
  da_set_config :: "FdAdapterConfig \<Rightarrow> 'a \<Rightarrow> 'a"
  da_set_listening :: "bool \<Rightarrow> 'a \<Rightarrow> 'a"
  da_tick :: "u64 \<Rightarrow> 'a \<Rightarrow> 'a"

type_synonym ('w, 'a) sk_rules = "('w, 'a) sponge Rule list"

definition tcp_of :: "('w, 'a) sponge \<Rightarrow> TCPConnection" where
  "tcp_of s = the (sk_tcp s)"

definition on_tcp :: "(TCPConnection \<Rightarrow> TCPConnection) \<Rightarrow> ('w, 'a) sponge \<Rightarrow> ('w, 'a) sponge" where
  "on_tcp f s = s\<lparr>sk_tcp := map_option f (sk_tcp s)\<rparr>"

text \<open>An update through the reference \<open>inbound_stream()\<close>.\<close>

definition on_inbound :: "(ByteStream \<Rightarrow> ByteStream) \<Rightarrow> TCPConnection \<Rightarrow> TCPConnection" where
  "on_inbound f c = c\<lparr>receiver := (receiver c)\<lparr>rcv_reassembler := (rcv_reassembler (receiver c))\<lparr>sr_output :=
     f (sr_output (rcv_reassembler (receiver c)))\<rparr>\<rparr>\<rparr>"

text \<open>The adapters: a TUN device or a UDP socket with the state of \<open>FdAdapterBase\<close>.\<close>

definition tun_adapter :: "'w kernel \<Rightarrow> getaddrinfo \<Rightarrow> getnameinfo \<Rightarrow> nat \<Rightarrow> ('w, FdAdapterBase) datagram_adapter" where
  "tun_adapter k gai gni tun =
     \<lparr>da_fd = tun,
      da_read = seq (FileDescriptor_read k tun (- 1)) (\<lambda>bytes s.
        case tun_read gai gni bytes (sk_adapter s) of
          Inl e \<Rightarrow> (Inl e, s)
        | Inr (seg, a) \<Rightarrow> (Inr seg, s\<lparr>sk_adapter := a\<rparr>)),
      da_write = \<lambda>seg s. seq (lift (tun_write gni seg (sk_adapter s))) (\<lambda>(bl, _).
        seq (FileDescriptor_write k tun (BufferViewList_of bl) True) (\<lambda>_. ret ())) s,
      da_config = ad_cfg, da_set_config = \<lambda>c a. a\<lparr>ad_cfg := c\<rparr>, da_set_listening = set_listening, da_tick = ad_tick\<rparr>"

definition udp_adapter :: "'w kernel \<Rightarrow> getnameinfo \<Rightarrow> nat \<Rightarrow> ('w, FdAdapterBase) datagram_adapter" where
  "udp_adapter k gni sock =
     \<lparr>da_fd = sock,
      da_read = seq (UDPSocket_recv k sock 65536) (\<lambda>datagram s.
        case udp_read datagram (sk_adapter s) of (seg, a) \<Rightarrow> (Inr seg, s\<lparr>sk_adapter := a\<rparr>)),
      da_write = \<lambda>seg s. seq (lift (udp_write gni seg (sk_adapter s))) (\<lambda>((destination_address, bl), _).
        UDPSocket_sendto k sock destination_address (BufferViewList_of bl)) s,
      da_config = ad_cfg, da_set_config = \<lambda>c a. a\<lparr>ad_cfg := c\<rparr>, da_set_listening = set_listening, da_tick = ad_tick\<rparr>"

subsection \<open>The rules\<close>

text \<open>The text of the diagnostic output has the address of the peer.\<close>

definition peer_text :: "getnameinfo \<Rightarrow> ('w, 'a) datagram_adapter \<Rightarrow> (string, ('w, 'a) sponge) prog" where
  "peer_text gni ad s = (addr_to_string gni (destination (da_config ad (sk_adapter s))), s)"

definition rule1 :: "getnameinfo \<Rightarrow> ('w, 'a) datagram_adapter \<Rightarrow> nat \<Rightarrow> (unit, ('w, 'a) sponge) prog" where
  "rule1 gni ad td =
     seq (da_read ad) (\<lambda>seg.
     seq (change (case seg of None \<Rightarrow> id | Some seg \<Rightarrow> on_tcp (cn_segment_received seg))) (\<lambda>_ s.
       if fd_eof td s \<and> cn_bytes_in_flight (tcp_of s) = 0 \<and> \<not> sk_fully_acked s
       then seq (peer_text gni ad) (\<lambda>_. change (\<lambda>s. s\<lparr>sk_fully_acked := True\<rparr>)) s
       else (Inr (), s)))"

definition short_write :: exn where
  "short_write = runtime_error ''TCPConnection::write() accepted less than advertised length''"

definition rule2 :: "'w kernel \<Rightarrow> getnameinfo \<Rightarrow> ('w, 'a) datagram_adapter \<Rightarrow> nat \<Rightarrow> (unit, ('w, 'a) sponge) prog" where
  "rule2 k gni ad td s =
     seq (FileDescriptor_read k td (remaining_outbound_capacity (tcp_of s))) (\<lambda>data s.
       let amount_written = snd (cn_write data (tcp_of s));
           s = on_tcp (\<lambda>c. fst (cn_write data c)) s
       in if amount_written \<noteq> sz data then (Inl short_write, s)
          else if fd_eof td s
          then seq (change (\<lambda>s. (on_tcp end_input_stream s)\<lparr>sk_outbound_shutdown := True\<rparr>)) (\<lambda>_.
               seq (peer_text gni ad) (\<lambda>_. ret ())) s
          else (Inr (), s)) s"

definition rule3 :: "'w kernel \<Rightarrow> getnameinfo \<Rightarrow> ('w, 'a) datagram_adapter \<Rightarrow> nat \<Rightarrow> (unit, ('w, 'a) sponge) prog" where
  "rule3 k gni ad td s =
     (let inbound = inbound_stream (tcp_of s);
          amount_to_write = min 65536 (buffer_size inbound);
          buffer = peek_output inbound amount_to_write
      in seq (FileDescriptor_write k td [buffer] False) (\<lambda>bytes_written.
         seq (change (on_tcp (on_inbound (\<lambda>b. pop_output b bytes_written)))) (\<lambda>_ s.
           if ByteStream_eof (inbound_stream (tcp_of s)) \<or> stream_error (inbound_stream (tcp_of s))
           then seq (Socket_shutdown k td SHUT_WR) (\<lambda>_.
                seq (change (\<lambda>s. s\<lparr>sk_inbound_shutdown := True\<rparr>)) (\<lambda>_.
                seq (peer_text gni ad) (\<lambda>_. ret ()))) s
           else (Inr (), s))) s)"

text \<open>
  The loop of rule 4 over the queue it finds: the adapter has no access to the connection. It is handed the front segment by reference, and
  sets its ports; where writing fails that segment stays in the queue, here without the ports, which are set again on the next attempt.
\<close>

fun send_segments :: "('w, 'a) datagram_adapter \<Rightarrow> TCPSegment list \<Rightarrow> (unit, ('w, 'a) sponge) prog" where
  "send_segments ad [] = ret ()"
| "send_segments ad (seg # segs) =
     seq (da_write ad seg) (\<lambda>_.
     seq (change (on_tcp (\<lambda>c. c\<lparr>cn_segments_out := tl (cn_segments_out c)\<rparr>))) (\<lambda>_.
       send_segments ad segs))"

definition rule4 :: "('w, 'a) datagram_adapter \<Rightarrow> (unit, ('w, 'a) sponge) prog" where
  "rule4 ad s = send_segments ad (cn_segments_out (tcp_of s)) s"

definition interest2 :: "('w, 'a) sponge \<Rightarrow> bool" where
  "interest2 s \<longleftrightarrow> active (tcp_of s) \<and> \<not> sk_outbound_shutdown s \<and> 0 < remaining_outbound_capacity (tcp_of s)"

definition cancel2 :: "('w, 'a) sponge \<Rightarrow> ('w, 'a) sponge" where
  "cancel2 s = (on_tcp end_input_stream s)\<lparr>sk_outbound_shutdown := True\<rparr>"

definition interest3 :: "('w, 'a) sponge \<Rightarrow> bool" where
  "interest3 s \<longleftrightarrow> \<not> buffer_empty (inbound_stream (tcp_of s))
     \<or> (ByteStream_eof (inbound_stream (tcp_of s)) \<or> stream_error (inbound_stream (tcp_of s))) \<and> \<not> sk_inbound_shutdown s"

text \<open>\<open>_initialize_TCP\<close>; the number is the one the sender draws for its initial sequence number.\<close>

definition initialize_TCP ::
    "'w kernel \<Rightarrow> getnameinfo \<Rightarrow> ('w, 'a) datagram_adapter \<Rightarrow> TCPConfig \<Rightarrow> u32 \<Rightarrow> ('w, 'a) sk_rules \<times> ('w, 'a) sponge
     \<Rightarrow> ('w, 'a) sk_rules \<times> ('w, 'a) sponge" where
  "initialize_TCP k gni ad config random = (\<lambda>(rules, s).
     let s = s\<lparr>sk_tcp := Some (TCPConnection_new config random)\<rparr>;
         td = sk_thread_data s
     in add_rule (da_fd ad) Out (rule4 ad) (\<lambda>s. cn_segments_out (tcp_of s) \<noteq> []) (ret ())
        (add_rule td Out (rule3 k gni ad td) interest3 (ret ())
        (add_rule td In (rule2 k gni ad td) interest2 (change cancel2)
        (add_rule (da_fd ad) In (rule1 gni ad td) (\<lambda>s. active (tcp_of s)) (ret ()) (rules, s)))))"

subsection \<open>The loop of the thread\<close>

partial_function (option) tcp_loop_from ::
    "'w kernel \<Rightarrow> ('w, 'a) datagram_adapter \<Rightarrow> ('w \<Rightarrow> bool) \<Rightarrow> (('w, 'a) sponge \<Rightarrow> bool) \<Rightarrow> u64
     \<Rightarrow> ('w, 'a) sk_rules \<Rightarrow> ('w, 'a) sponge \<Rightarrow> ((exn + unit) \<times> ('w, 'a) sk_rules \<times> ('w, 'a) sponge) option" where
  "tcp_loop_from k ad aborted condition base_time rules s =
     (if \<not> condition s then Some (Inr (), rules, s)
      else (case wait_next_event k 10 rules s of
              (Inl e, rules, s) \<Rightarrow> Some (Inl e, rules, s)
            | (Inr r, rules, s) \<Rightarrow>
                if r = Exit \<or> aborted (kern s) then Some (Inr (), rules, s)
                else if active (tcp_of s)
                then let (next_time, w) = k_timestamp_ms k (kern s);
                         s = on_tcp (cn_tick (next_time - base_time)) (s\<lparr>kern := w\<rparr>);
                         s = s\<lparr>sk_adapter := da_tick ad (next_time - base_time) (sk_adapter s)\<rparr>
                     in tcp_loop_from k ad aborted condition next_time rules s
                else tcp_loop_from k ad aborted condition base_time rules s))"

definition tcp_loop ::
    "'w kernel \<Rightarrow> ('w, 'a) datagram_adapter \<Rightarrow> ('w \<Rightarrow> bool) \<Rightarrow> (('w, 'a) sponge \<Rightarrow> bool)
     \<Rightarrow> ('w, 'a) sk_rules \<Rightarrow> ('w, 'a) sponge \<Rightarrow> ((exn + unit) \<times> ('w, 'a) sk_rules \<times> ('w, 'a) sponge) option" where
  "tcp_loop k ad aborted condition rules s =
     (let (base_time, w) = k_timestamp_ms k (kern s)
      in tcp_loop_from k ad aborted condition base_time rules (s\<lparr>kern := w\<rparr>))"

subsection \<open>The interface of the class\<close>

definition socket_pair_helper :: "'w kernel \<Rightarrow> int \<Rightarrow> (nat \<times> nat, ('w, 'x) sys_scheme) prog" where
  "socket_pair_helper k ty =
     seq (system_call ''socketpair'' (\<lambda>_. k_socketpair k AF_UNIX ty)) (\<lambda>(_, fd0, fd1).
     seq (FileDescriptor_new fd0) (\<lambda>d0.
       or_destroy k d0 (seq (FileDescriptor_new fd1) (\<lambda>d1. ret (d0, d1)))))"

text \<open>The constructor: the descriptor of the owner and that of the thread, which does not block.\<close>

definition TCPSpongeSocket_fds :: "'w kernel \<Rightarrow> (nat \<times> nat, ('w, 'x) sys_scheme) prog" where
  "TCPSpongeSocket_fds k =
     seq (socket_pair_helper k SOCK_STREAM) (\<lambda>(d0, d1).
       seq (or_destroy k d1 (LocalStreamSocket_of k d0)) (\<lambda>sock.
         or_destroy k sock
           (seq (LocalStreamSocket_of k d1) (\<lambda>td.
              or_destroy k td (seq (set_blocking k td False) (\<lambda>_. ret (sock, td)))))))"

definition in_state :: "State \<Rightarrow> ('w, 'a) sponge \<Rightarrow> bool" where
  "in_state st s \<longleftrightarrow> TCPState_eq (cn_state (tcp_of s)) (TCPState_of st)"

text \<open>\<open>connect\<close> and \<open>listen_and_accept\<close>, up to the start of the thread, which runs \<open>_tcp_main\<close>.\<close>

definition sk_connect ::
    "'w kernel \<Rightarrow> getnameinfo \<Rightarrow> ('w, 'a) datagram_adapter \<Rightarrow> ('w \<Rightarrow> bool) \<Rightarrow> u32 \<Rightarrow> TCPConfig \<Rightarrow> FdAdapterConfig
     \<Rightarrow> ('w, 'a) sk_rules \<Rightarrow> ('w, 'a) sponge \<Rightarrow> ((exn + unit) \<times> ('w, 'a) sk_rules \<times> ('w, 'a) sponge) option" where
  "sk_connect k gni ad aborted random c_tcp c_ad rules s =
     (if sk_tcp s \<noteq> None
      then Some (Inl (runtime_error ''connect() with TCPConnection already initialized''), rules, s)
      else
        let (rules, s) = initialize_TCP k gni ad c_tcp random (rules, s);
            s = s\<lparr>sk_adapter := da_set_config ad c_ad (sk_adapter s)\<rparr>
        in (case addr_to_string gni (destination c_ad) of
              Inl e \<Rightarrow> Some (Inl e, rules, s)
            | Inr _ \<Rightarrow>
                let s = on_tcp connect s
                in if \<not> in_state SYN_SENT s
                   then Some (Inl (runtime_error (''After TCPConnection::connect(), state was '' @ TCPState_name (cn_state (tcp_of s))
                          @ '' but expected '' @ TCPState_name (TCPState_of SYN_SENT))), rules, s)
                   else tcp_loop k ad aborted (in_state SYN_SENT) rules s))"

definition listen_and_accept ::
    "'w kernel \<Rightarrow> getnameinfo \<Rightarrow> ('w, 'a) datagram_adapter \<Rightarrow> ('w \<Rightarrow> bool) \<Rightarrow> u32 \<Rightarrow> TCPConfig \<Rightarrow> FdAdapterConfig
     \<Rightarrow> ('w, 'a) sk_rules \<Rightarrow> ('w, 'a) sponge \<Rightarrow> ((exn + unit) \<times> ('w, 'a) sk_rules \<times> ('w, 'a) sponge) option" where
  "listen_and_accept k gni ad aborted random c_tcp c_ad rules s =
     (if sk_tcp s \<noteq> None
      then Some (Inl (runtime_error ''listen_and_accept() with TCPConnection already initialized''), rules, s)
      else
        let (rules, s) = initialize_TCP k gni ad c_tcp random (rules, s);
            s = s\<lparr>sk_adapter := da_set_listening ad True (da_set_config ad c_ad (sk_adapter s))\<rparr>
        in (case tcp_loop k ad aborted (\<lambda>s. in_state LISTEN s \<or> in_state SYN_RCVD s \<or> in_state SYN_SENT s) rules s of
              None \<Rightarrow> None
            | Some (Inl e, rules, s) \<Rightarrow> Some (Inl e, rules, s)
            | Some (Inr _, rules, s) \<Rightarrow>
                (case addr_to_string gni (destination (da_config ad (sk_adapter s))) of
                   Inl e \<Rightarrow> Some (Inl e, rules, s)
                 | Inr _ \<Rightarrow> Some (Inr (), rules, s))))"

text \<open>
  \<open>_tcp_main\<close>. \<open>_tcp.reset()\<close> runs the destructor of the connection: a segment it queues goes with the connection. An exception of the
  thread is rethrown after a message and ends the program; here it is the result.
\<close>

definition tcp_main ::
    "'w kernel \<Rightarrow> ('w, 'a) datagram_adapter \<Rightarrow> ('w \<Rightarrow> bool)
     \<Rightarrow> ('w, 'a) sk_rules \<Rightarrow> ('w, 'a) sponge \<Rightarrow> ((exn + unit) \<times> ('w, 'a) sk_rules \<times> ('w, 'a) sponge) option" where
  "tcp_main k ad aborted rules s =
     (if sk_tcp s = None then Some (Inl (runtime_error ''no TCP''), rules, s)
      else (case tcp_loop k ad aborted (\<lambda>_. True) rules s of
              None \<Rightarrow> None
            | Some (Inl e, rules, s) \<Rightarrow> Some (Inl e, rules, s)
            | Some (Inr _, rules, s) \<Rightarrow>
                (case Socket_shutdown k (sk_owner s) SHUT_RDWR s of
                   (Inl e, s) \<Rightarrow> Some (Inl e, rules, s)
                 | (Inr _, s) \<Rightarrow> Some (Inr (), rules, (on_tcp TCPConnection_destroy s)\<lparr>sk_tcp := None\<rparr>))))"

text \<open>The owner shuts its socket down and waits for the thread to end.\<close>

definition wait_until_closed :: "'w kernel \<Rightarrow> (unit, ('w, 'a) sponge) prog" where
  "wait_until_closed k s = Socket_shutdown k (sk_owner s) SHUT_RDWR s"

definition CS144TCPSocket_connect ::
    "'w kernel \<Rightarrow> getaddrinfo \<Rightarrow> getnameinfo \<Rightarrow> ('w, 'a) datagram_adapter \<Rightarrow> ('w \<Rightarrow> bool) \<Rightarrow> u32 \<Rightarrow> u32 \<Rightarrow> Address
     \<Rightarrow> ('w, 'a) sk_rules \<Rightarrow> ('w, 'a) sponge \<Rightarrow> ((exn + unit) \<times> ('w, 'a) sk_rules \<times> ('w, 'a) sponge) option" where
  "CS144TCPSocket_connect k gai gni ad aborted random_port random address rules s =
     (case chain (FdAdapterConfig_new gai) (\<lambda>c.
            chain (Address_host gai ''169.254.144.9'' (to_string (unat (ucast random_port :: u16)))) (\<lambda>a.
              Inr (c\<lparr>source := a, destination := address\<rparr>))) of
        Inl e \<Rightarrow> Some (Inl e, rules, s)
      | Inr c \<Rightarrow> sk_connect k gni ad aborted random (TCPConfig_new\<lparr>rt_timeout := 100\<rparr>) c rules s)"

section \<open>What an adapter promises\<close>

text \<open>An operation of the adapter keeps to its descriptor and its own state.\<close>

definition sk_frame :: "nat \<Rightarrow> ('w, 'a) sponge \<Rightarrow> ('w, 'a) sponge \<Rightarrow> bool" where
  "sk_frame d s s' \<longleftrightarrow> length (wrappers s') = length (wrappers s) \<and> (\<forall>e. e \<noteq> d \<longrightarrow> wrappers s' ! e = wrappers s ! e)
     \<and> fd_num d s' = fd_num d s \<and> sk_tcp s' = sk_tcp s"

lemma confined_sponge:
  fixes s s' :: "('w, 'a) sponge"
  assumes "confined s s'"
  shows "sk_tcp s' = sk_tcp s" "sk_adapter s' = sk_adapter s" "sk_thread_data s' = sk_thread_data s" "sk_owner s' = sk_owner s"
    "sk_inbound_shutdown s' = sk_inbound_shutdown s" "sk_outbound_shutdown s' = sk_outbound_shutdown s"
    "sk_fully_acked s' = sk_fully_acked s"
  using assms by (cases s; cases s'; simp add: confined_def)+

lemma frame_tcp: "frame d s s' \<Longrightarrow> tcp_of s' = tcp_of s"
  using confined_sponge(1) [of s s'] by (simp add: frame_def tcp_of_def)

lemma sk_frame_of: "frame d s s' \<Longrightarrow> sk_frame d s s'"
  by (simp add: frame_def sk_frame_def confined_sponge)

lemma sk_frame_adapter [simp]: "sk_frame d s (s'\<lparr>sk_adapter := a\<rparr>) = sk_frame d s s'"
  by (simp add: sk_frame_def fd_num_def)

lemma sk_frame_refl [simp]: "sk_frame d s s"
  by (simp add: sk_frame_def)

lemma sk_frame_trans: "sk_frame d s s' \<Longrightarrow> sk_frame d s' s'' \<Longrightarrow> sk_frame d s s''"
  by (auto simp: sk_frame_def)

text \<open>The output of one descriptor changes only when it is written.\<close>

definition undisturbed :: "'w kernel \<Rightarrow> int \<Rightarrow> ('w \<Rightarrow> byte list) \<Rightarrow> bool" where
  "undisturbed k fd out \<longleftrightarrow>
     (\<forall>f n w. out (snd (k_read k f n w)) = out w) \<and> (\<forall>f b w. f \<noteq> fd \<longrightarrow> out (snd (k_writev k f b w)) = out w)
     \<and> (\<forall>f w. out (snd (k_close k f w)) = out w) \<and> (\<forall>p t w. out (snd (k_poll k p t w)) = out w)
     \<and> (\<forall>f h w. out (snd (k_shutdown k f h w)) = out w) \<and> (\<forall>w. out (snd (k_timestamp_ms k w)) = out w)
     \<and> (\<forall>f n w. out (snd (k_recvfrom k f n w)) = out w) \<and> (\<forall>f a b w. f \<noteq> fd \<longrightarrow> out (snd (k_sendmsg k f a b w)) = out w)"

definition harmless :: "exn + 'a \<Rightarrow> bool" where
  "harmless r \<longleftrightarrow> r \<noteq> Inl busy_wait \<and> r \<noteq> Inl short_write"

locale adapter_laws =
  fixes k :: "'w kernel" and ad :: "('w, 'a) datagram_adapter"
  assumes read_frame: "da_read ad s = (r, s') \<Longrightarrow> da_fd ad < length (wrappers s) \<Longrightarrow> sk_frame (da_fd ad) s s'"
    and write_frame: "da_write ad seg s = (u, s') \<Longrightarrow> da_fd ad < length (wrappers s) \<Longrightarrow> sk_frame (da_fd ad) s s'"
    and read_registers: "da_read ad s = (Inr x, s') \<Longrightarrow> da_fd ad < length (wrappers s) \<Longrightarrow>
      read_count (da_fd ad) s' = read_count (da_fd ad) s + 1"
    and read_out: "da_read ad s = (r, s') \<Longrightarrow> undisturbed k fd out \<Longrightarrow> out (kern s') = out (kern s)"
    and write_out: "da_write ad seg s = (u, s') \<Longrightarrow> undisturbed k fd out \<Longrightarrow> da_fd ad < length (wrappers s) \<Longrightarrow>
      fd_num (da_fd ad) s \<noteq> fd \<Longrightarrow> out (kern s') = out (kern s)"
    and read_harmless: "harmless (fst (da_read ad s))"
    and write_harmless: "harmless (fst (da_write ad seg s))"

subsection \<open>The exceptions of the operations\<close>

lemma harmless_simps [simp]:
  "harmless (Inr x)" "harmless (Inl (tagged_error c a n))" "harmless (Inl (length_error m))" "harmless (Inl (invalid_argument m))"
  "harmless (Inl (out_of_range m))" "harmless (Inl (unix_error a n))"
  by (simp_all add: harmless_def busy_wait_def short_write_def unix_error_def)

lemma harmless_runtime_error:
  "take 9 m \<noteq> ''EventLoop'' \<Longrightarrow> take 9 m \<noteq> ''TCPConnec'' \<Longrightarrow> harmless (Inl (runtime_error m))"
  by (auto simp: harmless_def busy_wait_def short_write_def)

lemma harmless_seq:
  "harmless (fst (m s)) \<Longrightarrow> (\<And>a s'. m s = (Inr a, s') \<Longrightarrow> harmless (fst (f a s'))) \<Longrightarrow> harmless (fst (seq m f s))"
  by (cases "m s") (auto simp: seq_def harmless_def split: sum.splits)

lemma harmless_chain: "harmless r \<Longrightarrow> (\<And>x. r = Inr x \<Longrightarrow> harmless (f x)) \<Longrightarrow> harmless (chain r f)"
  by (cases r) (simp_all add: harmless_def)

lemma harmless_system_call [simp]: "harmless (fst (system_call a c s))"
  by (auto simp: system_call_def SystemCall_def split: prod.split)

lemma harmless_read: "harmless (fst (FileDescriptor_read k d limit s))"
  unfolding FileDescriptor_read_def Let_def
  by (intro harmless_seq) (auto simp: prog_defs intro!: harmless_seq harmless_runtime_error)

lemma harmless_Address [simp]: "harmless (Address_raw a n)" "harmless (Address_ip gai ip p)"
  by (auto simp: Address_raw_def Address_ip_def Address_lookup_def intro!: harmless_runtime_error split: sum.split list.split)

lemma harmless_port [simp]: "harmless (ip_port gni a)" "harmless (port gni a)" "harmless (addr_to_string gni a)"
proof -
  show "harmless (ip_port gni a)" by (auto simp: ip_port_def stoi_def Let_def intro!: harmless_chain split: sum.split prod.split)
  then show "harmless (port gni a)" "harmless (addr_to_string gni a)"
    by (auto simp: port_def addr_to_string_def intro!: harmless_chain)
qed

lemma harmless_ipv4 [simp]: "harmless (ipv4_numeric a)" "harmless (IPv4Header_serialize h)"
  by (auto simp: ipv4_numeric_def IPv4Header_serialize_def Let_def intro!: harmless_runtime_error)

lemma harmless_case:
  "harmless r \<Longrightarrow> (\<And>x. r = Inr x \<Longrightarrow> harmless (f x)) \<Longrightarrow> harmless (case r of Inl e \<Rightarrow> Inl e | Inr x \<Rightarrow> f x)"
  by (cases r) (simp_all add: harmless_def)

lemma harmless_serialize [simp]:
  "harmless (TCPHeader_serialize h)" "harmless (TCPSegment_serialize seg c)" "harmless (IPv4Datagram_serialize dgram)"
  "harmless (BufferList_to_Buffer bl)"
proof -
  show "harmless (TCPHeader_serialize h)" for h by (simp add: TCPHeader_serialize_def Let_def harmless_runtime_error)
  then show "harmless (TCPSegment_serialize seg c)" by (auto simp: TCPSegment_serialize_def Let_def intro!: harmless_case)
  show "harmless (IPv4Datagram_serialize dgram)"
    by (auto simp: IPv4Datagram_serialize_def Let_def intro!: harmless_case harmless_runtime_error)
  show "harmless (BufferList_to_Buffer bl)"
    by (auto simp: BufferList_to_Buffer_def intro!: harmless_runtime_error split: list.split)
qed

lemma harmless_wrap: "harmless (wrap_tcp_in_ip gni seg ad)" "harmless (tun_write gni seg ad)" "harmless (udp_write gni seg ad)"
proof -
  show w: "harmless (wrap_tcp_in_ip gni seg ad)" by (auto simp: wrap_tcp_in_ip_def Let_def intro!: harmless_chain)
  show "harmless (tun_write gni seg ad)" unfolding tun_write_def using w by (auto intro!: harmless_chain)
  show "harmless (udp_write gni seg ad)" by (auto simp: udp_write_def Let_def intro!: harmless_chain)
qed

lemma harmless_tun_read: "harmless (tun_read gai gni bytes ad)"
proof -
  have i: "harmless (ip_for_us h ad)" for h by (auto simp: ip_for_us_def intro!: harmless_chain)
  have a: "harmless (adopt_peer gai h th p ad)" for h th p by (auto simp: adopt_peer_def intro!: harmless_chain)
  have "harmless (unwrap_tcp_in_ip gai gni d ad)" for d
    unfolding unwrap_tcp_in_ip_def by (auto simp: Let_def intro!: harmless_chain i a split: prod.split)
  then show ?thesis by (simp add: tun_read_def case_prod_beta Let_def)
qed

lemma remove_prefix_harmless: "harmless (BufferViewList_remove_prefix vs n)"
  by (induction vs n rule: BufferViewList_remove_prefix.induct) auto

lemma harmless_write_loop: "harmless (fst (write_loop k d write_all buffer t s))"
proof (induction k d write_all buffer t s rule: write_loop.induct)
  case (1 k d write_all buffer t s)
  obtain rc s1 where c: "system_call ''writev'' (\<lambda>s. k_writev k (fd_num d s) buffer) s = (rc, s1)" by fastforce
  have h: "harmless rc" using harmless_system_call [of "''writev''" "\<lambda>s. k_writev k (fd_num d s) buffer" s] c by simp
  note IH = "1.IH" [OF c [symmetric] _ _ _ _ refl _ refl]
  show ?case
  proof (cases rc)
    case (Inl e)
    then show ?thesis using h c by (simp add: write_loop.simps [of k d] harmless_def)
  next
    case (Inr x)
    obtain v where x: "x = (v, ())" by (cases x) simp
    show ?thesis
      using c Inr x IH remove_prefix_harmless [of buffer "word_of_int v"]
      unfolding write_loop.simps [of k d write_all buffer t s]
      by (auto simp: Let_def harmless_runtime_error harmless_def busy_wait_def short_write_def split: sum.splits)
  qed
qed

lemma harmless_write: "harmless (fst (FileDescriptor_write k d buffer write_all s))"
  by (simp add: FileDescriptor_write_def harmless_write_loop)

lemma harmless_failures:
  "system_call a c s = (Inl e, s') \<Longrightarrow> harmless (Inl e)" "Address_raw b n = Inl e \<Longrightarrow> harmless (Inl e)"
  using harmless_system_call [of a c s] harmless_Address(1) [of b n] by (simp_all add: harmless_def)

lemma harmless_udp: "harmless (fst (UDPSocket_recv k d n s))" "harmless (fst (UDPSocket_sendto k d a b s))"
  unfolding UDPSocket_recv_def UDPSocket_sendto_def sendmsg_helper_def
  by (auto simp: prog_defs harmless_runtime_error split: prod.split sum.split intro: harmless_failures)

subsection \<open>The adapters keep the promise\<close>

lemma tun_adapter_read_cases:
  assumes "da_read (tun_adapter k gai gni d) s = (r, s')"
  obtains rr s1 a where "FileDescriptor_read k d (- 1) s = (rr, s1)" "s' = s1\<lparr>sk_adapter := a\<rparr>" "\<forall>x. r = Inr x \<longrightarrow> (\<exists>y. rr = Inr y)"
proof -
  obtain rr s1 where c: "FileDescriptor_read k d (- 1) s = (rr, s1)" by fastforce
  have "da_read (tun_adapter k gai gni d) s = (case rr of Inl e \<Rightarrow> (Inl e, s1)
      | Inr bytes \<Rightarrow> (case tun_read gai gni bytes (sk_adapter s1) of Inl e \<Rightarrow> (Inl e, s1)
        | Inr (seg, a) \<Rightarrow> (Inr seg, s1\<lparr>sk_adapter := a\<rparr>)))"
    by (simp add: tun_adapter_def seq_def c)
  then have "(s' = s1 \<or> (\<exists>a. s' = s1\<lparr>sk_adapter := a\<rparr>)) \<and> (\<forall>x. r = Inr x \<longrightarrow> (\<exists>y. rr = Inr y))"
    using assms by (simp split: sum.splits prod.splits) blast+
  moreover have "s1 = s1\<lparr>sk_adapter := sk_adapter s1\<rparr>" by simp
  ultimately show thesis using that [OF c] by metis
qed

lemma tun_adapter_write_cases:
  assumes "da_write (tun_adapter k gai gni d) seg s = (u, s')"
  obtains "s' = s" | b rr where "FileDescriptor_write k d b True s = (rr, s')"
proof (cases "tun_write gni seg (sk_adapter s)")
  case (Inl e)
  then show thesis using assms that(1) by (simp add: tun_adapter_def seq_def lift_def)
next
  case (Inr p)
  obtain bl x where p: "p = (bl, x)" by fastforce
  obtain rr s1 where w: "FileDescriptor_write k d (BufferViewList_of bl) True s = (rr, s1)" by fastforce
  have "s' = s1" using assms Inr p w by (auto simp: tun_adapter_def seq_def lift_def ret_def split: sum.splits)
  then show thesis using w that(2) by blast
qed

lemma FileDescriptor_write_out:
  assumes "FileDescriptor_write k d b a s = (r, s')" and "d < length (wrappers s)" and "undisturbed k fd out" and "fd_num d s \<noteq> fd"
  shows "out (kern s') = out (kern s)"
  using assms(1) unfolding FileDescriptor_write_def
proof (rule write_loop_kern [where Q = "\<lambda>w. out w = out (kern s)", OF _ assms(2) refl])
  fix bufs w
  assume "out w = out (kern s)"
  then show "out (snd (k_writev k (fd_num d s) bufs w)) = out (kern s)" using assms(3,4) by (simp add: undisturbed_def)
qed

lemma tun_read_harmless: "tun_read gai gni bytes ad = Inl e \<Longrightarrow> harmless (Inl e)"
  using harmless_tun_read [of gai gni bytes ad] by (simp add: harmless_def)

interpretation tun: adapter_laws k "tun_adapter k gai gni d" for k gai gni d
proof
  have fd: "da_fd (tun_adapter k gai gni d) = d" by (simp add: tun_adapter_def)
  note f = FileDescriptor_read_frame FileDescriptor_write_frame sk_frame_of
  show "da_read (tun_adapter k gai gni d) s = (r, s') \<Longrightarrow> da_fd (tun_adapter k gai gni d) < length (wrappers s) \<Longrightarrow>
      sk_frame (da_fd (tun_adapter k gai gni d)) s s'" for s r s'
    unfolding fd by (erule tun_adapter_read_cases) (simp add: f)
  show "da_write (tun_adapter k gai gni d) seg s = (u, s') \<Longrightarrow> da_fd (tun_adapter k gai gni d) < length (wrappers s) \<Longrightarrow>
      sk_frame (da_fd (tun_adapter k gai gni d)) s s'" for seg s u s'
    unfolding fd by (erule tun_adapter_write_cases) (auto intro: f)
  show "da_read (tun_adapter k gai gni d) s = (Inr x, s') \<Longrightarrow> da_fd (tun_adapter k gai gni d) < length (wrappers s) \<Longrightarrow>
      read_count (da_fd (tun_adapter k gai gni d)) s' = read_count (da_fd (tun_adapter k gai gni d)) s + 1" for s x s'
    unfolding fd by (erule tun_adapter_read_cases) (auto dest: FileDescriptor_read_count(1) simp: read_count_def)
  show "da_read (tun_adapter k gai gni d) s = (r, s') \<Longrightarrow> undisturbed k fd out \<Longrightarrow> out (kern s') = out (kern s)" for s r s' fd out
    by (erule tun_adapter_read_cases) (auto dest: FileDescriptor_read_kern simp: undisturbed_def)
  show "da_write (tun_adapter k gai gni d) seg s = (u, s') \<Longrightarrow> undisturbed k fd out \<Longrightarrow>
      da_fd (tun_adapter k gai gni d) < length (wrappers s) \<Longrightarrow> fd_num (da_fd (tun_adapter k gai gni d)) s \<noteq> fd \<Longrightarrow>
      out (kern s') = out (kern s)" for seg s u s' fd out
    unfolding fd by (erule tun_adapter_write_cases) (auto intro: FileDescriptor_write_out)
  show "harmless (fst (da_read (tun_adapter k gai gni d) s))" for s
    by (auto simp: tun_adapter_def harmless_read intro!: harmless_seq split: sum.split prod.split intro: tun_read_harmless)
  show "harmless (fst (da_write (tun_adapter k gai gni d) seg s))" for seg s
    by (auto simp: tun_adapter_def lift_def ret_def harmless_wrap harmless_write intro!: harmless_seq)
qed

lemma UDPSocket_recv_cases:
  assumes "UDPSocket_recv k d n s = (r, s')"
  obtains rr s1 where "system_call ''recvfrom'' (\<lambda>s. k_recvfrom k (fd_num d s) n) s = (rr, s1)"
    "s' = s1 \<and> (\<exists>e. r = Inl e) \<or> s' = register_read d s1"
proof -
  obtain rr s1 where c: "system_call ''recvfrom'' (\<lambda>s. k_recvfrom k (fd_num d s) n) s = (rr, s1)" by fastforce
  have "s' = s1 \<and> (\<exists>e. r = Inl e) \<or> s' = register_read d s1"
    using assms unfolding UDPSocket_recv_def seq_def c by (auto simp: prog_defs split: sum.splits prod.splits if_splits)
  then show thesis using that c by blast
qed

lemma UDPSocket_sendto_cases:
  assumes "UDPSocket_sendto k d a b s = (r, s')"
  obtains rr s1 where "system_call ''sendmsg'' (\<lambda>s. k_sendmsg k (fd_num d s) (addr_bytes a) b) s = (rr, s1)"
    "s' = s1 \<or> s' = register_write d s1"
proof -
  obtain rr s1 where c: "system_call ''sendmsg'' (\<lambda>s. k_sendmsg k (fd_num d s) (addr_bytes a) b) s = (rr, s1)" by fastforce
  have "s' = s1 \<or> s' = register_write d s1"
    using assms unfolding UDPSocket_sendto_def sendmsg_helper_def seq_def c
    by (auto simp: prog_defs split: sum.splits prod.splits if_splits)
  then show thesis using that c by blast
qed

lemma udp_adapter_read_cases:
  assumes "da_read (udp_adapter k gni d) s = (r, s')"
  obtains rr s1 a where "UDPSocket_recv k d 65536 s = (rr, s1)" "s' = s1\<lparr>sk_adapter := a\<rparr>" "\<forall>x. r = Inr x \<longrightarrow> (\<exists>y. rr = Inr y)"
proof -
  obtain rr s1 where c: "UDPSocket_recv k d 65536 s = (rr, s1)" by fastforce
  have "da_read (udp_adapter k gni d) s = (case rr of Inl e \<Rightarrow> (Inl e, s1)
      | Inr datagram \<Rightarrow> (case udp_read datagram (sk_adapter s1) of (seg, a) \<Rightarrow> (Inr seg, s1\<lparr>sk_adapter := a\<rparr>)))"
    by (simp add: udp_adapter_def seq_def c)
  then have "(s' = s1 \<or> (\<exists>a. s' = s1\<lparr>sk_adapter := a\<rparr>)) \<and> (\<forall>x. r = Inr x \<longrightarrow> (\<exists>y. rr = Inr y))"
    using assms by (simp split: sum.splits prod.splits) blast+
  moreover have "s1 = s1\<lparr>sk_adapter := sk_adapter s1\<rparr>" by simp
  ultimately show thesis using that [OF c] by metis
qed

lemma udp_adapter_write_cases:
  assumes "da_write (udp_adapter k gni d) seg s = (u, s')"
  obtains "s' = s" | a b rr where "UDPSocket_sendto k d a b s = (rr, s')"
proof (cases "udp_write gni seg (sk_adapter s)")
  case (Inl e)
  then show thesis using assms that(1) by (simp add: udp_adapter_def seq_def lift_def)
next
  case (Inr p)
  obtain a bl x where "p = ((a, bl), x)" by (metis prod.exhaust)
  then have "UDPSocket_sendto k d a (BufferViewList_of bl) s = (u, s')"
    using assms Inr by (simp add: udp_adapter_def seq_def lift_def)
  then show thesis using that(2) by blast
qed

lemma UDPSocket_frame:
  "UDPSocket_recv k d n s = (r, s') \<Longrightarrow> d < length (wrappers s) \<Longrightarrow> frame d s s'"
  "UDPSocket_sendto k d a b s = (u, s') \<Longrightarrow> d < length (wrappers s) \<Longrightarrow> frame d s s'"
  "UDPSocket_recv k d n s = (Inr x, s') \<Longrightarrow> d < length (wrappers s) \<Longrightarrow> read_count d s' = read_count d s + 1"
proof -
  assume l: "d < length (wrappers s)"
  have f: "frame d s s1 \<and> frame d s (register_read d s1) \<and> frame d s (register_write d s1)" if "system_call a c s = (r, s1)"
    for a c r and s1 :: "('a, 'b) sys_scheme"
    using frame_system_call [OF that, of d] frame_register [of d s1] frame_length l frame_trans that by metis
  show "frame d s s'" if "UDPSocket_recv k d n s = (r, s')"
    using that by (rule UDPSocket_recv_cases) (use f in blast)
  show "frame d s s'" if "UDPSocket_sendto k d a b s = (u, s')"
    using that by (rule UDPSocket_sendto_cases) (use f in blast)
  show "read_count d s' = read_count d s + 1" if "UDPSocket_recv k d n s = (Inr x, s')"
    using that by (rule UDPSocket_recv_cases) (use l in \<open>auto dest: system_call_simps(1) simp: read_count_def register_read_def\<close>)
qed

interpretation udp: adapter_laws k "udp_adapter k gni d" for k gni d
proof
  have fd: "da_fd (udp_adapter k gni d) = d" by (simp add: udp_adapter_def)
  show "da_read (udp_adapter k gni d) s = (r, s') \<Longrightarrow> da_fd (udp_adapter k gni d) < length (wrappers s) \<Longrightarrow>
      sk_frame (da_fd (udp_adapter k gni d)) s s'" for s r s'
    unfolding fd by (erule udp_adapter_read_cases) (auto simp: UDPSocket_frame sk_frame_of)
  show "da_write (udp_adapter k gni d) seg s = (u, s') \<Longrightarrow> da_fd (udp_adapter k gni d) < length (wrappers s) \<Longrightarrow>
      sk_frame (da_fd (udp_adapter k gni d)) s s'" for seg s u s'
    unfolding fd by (erule udp_adapter_write_cases) (auto intro: UDPSocket_frame sk_frame_of)
  show "da_read (udp_adapter k gni d) s = (Inr x, s') \<Longrightarrow> da_fd (udp_adapter k gni d) < length (wrappers s) \<Longrightarrow>
      read_count (da_fd (udp_adapter k gni d)) s' = read_count (da_fd (udp_adapter k gni d)) s + 1" for s x s'
    unfolding fd by (erule udp_adapter_read_cases) (auto dest: UDPSocket_frame(3) simp: read_count_def)
  show "da_read (udp_adapter k gni d) s = (r, s') \<Longrightarrow> undisturbed k fd out \<Longrightarrow> out (kern s') = out (kern s)" for s r s' fd out
    by (erule udp_adapter_read_cases, erule UDPSocket_recv_cases) (auto dest!: system_call_simps(3) simp: undisturbed_def)
  show "da_write (udp_adapter k gni d) seg s = (u, s') \<Longrightarrow> undisturbed k fd out \<Longrightarrow>
      da_fd (udp_adapter k gni d) < length (wrappers s) \<Longrightarrow> fd_num (da_fd (udp_adapter k gni d)) s \<noteq> fd \<Longrightarrow>
      out (kern s') = out (kern s)" for seg s u s' fd out
    unfolding fd by (erule udp_adapter_write_cases, simp, erule UDPSocket_sendto_cases) (auto dest!: system_call_simps(3) simp: undisturbed_def)
  show "harmless (fst (da_read (udp_adapter k gni d) s))" for s
    by (auto simp: udp_adapter_def harmless_udp intro!: harmless_seq split: prod.split)
  show "harmless (fst (da_write (udp_adapter k gni d) seg s))" for seg s
    by (auto simp: udp_adapter_def lift_def harmless_wrap harmless_udp intro!: harmless_seq)
qed

section \<open>The rules drive the connection\<close>

definition socket_rules :: "'w kernel \<Rightarrow> getnameinfo \<Rightarrow> ('w, 'a) datagram_adapter \<Rightarrow> nat \<Rightarrow> ('w, 'a) sk_rules" where
  "socket_rules k gni ad td =
     [\<lparr>rule_fd = da_fd ad, direction = In, callback = rule1 gni ad td, interest = \<lambda>s. active (tcp_of s), cancel = ret ()\<rparr>,
      \<lparr>rule_fd = td, direction = In, callback = rule2 k gni ad td, interest = interest2, cancel = change cancel2\<rparr>,
      \<lparr>rule_fd = td, direction = Out, callback = rule3 k gni ad td, interest = interest3, cancel = ret ()\<rparr>,
      \<lparr>rule_fd = da_fd ad, direction = Out, callback = rule4 ad, interest = \<lambda>s. cn_segments_out (tcp_of s) \<noteq> [], cancel = ret ()\<rparr>]"

lemma initialize_rules: "fst (initialize_TCP k gni ad c random (rules, s)) = rules @ socket_rules k gni ad (sk_thread_data s)"
  by (simp add: initialize_TCP_def add_rule_def duplicate_def socket_rules_def Let_def)

text \<open>
  The state of a socket that was given a connection \<open>c0\<close>: the connection has done operations that its interface has, and what
  the descriptor of the owner was given since is what those operations delivered.
\<close>

definition sk_env :: "'w kernel \<Rightarrow> ('w, 'a) datagram_adapter \<Rightarrow> nat \<Rightarrow> int \<Rightarrow> ('w \<Rightarrow> byte list) \<Rightarrow> ('w, 'a) sponge \<Rightarrow> bool" where
  "sk_env k ad td fd out s \<longleftrightarrow> writer k fd out \<and> undisturbed k fd out \<and> da_fd ad < length (wrappers s) \<and> td < length (wrappers s)
     \<and> fd_num td s = fd \<and> fd_num (da_fd ad) s \<noteq> fd \<and> sk_tcp s \<noteq> None"

definition sk_inv ::
    "'w kernel \<Rightarrow> ('w, 'a) datagram_adapter \<Rightarrow> nat \<Rightarrow> int \<Rightarrow> ('w \<Rightarrow> byte list) \<Rightarrow> TCPConnection \<Rightarrow> byte list \<Rightarrow> ('w, 'a) sponge \<Rightarrow> bool" where
  "sk_inv k ad td fd out c0 out0 s \<longleftrightarrow> sk_env k ad td fd out s
     \<and> (\<exists>ops. tcp_of s = run cn_step ops c0 \<and> out (kern s) = out0 @ history cn_delivers cn_step ops c0)"

definition stays :: "('w, 'a) sponge \<Rightarrow> ('w, 'a) sponge \<Rightarrow> bool" where
  "stays s s' \<longleftrightarrow> length (wrappers s') = length (wrappers s) \<and> (\<forall>e. fd_num e s' = fd_num e s)"

lemma on_tcp_simps [simp]: "kern (on_tcp f s) = kern s" "wrappers (on_tcp f s) = wrappers s"
  by (simp_all add: on_tcp_def)

lemma stays_simps [simp]:
  "stays s s" "stays s (on_tcp f s)" "stays s (s\<lparr>kern := w\<rparr>)" "stays s (s\<lparr>sk_adapter := a\<rparr>)" "stays s (s\<lparr>sk_fully_acked := b\<rparr>)"
  "stays s (s\<lparr>sk_outbound_shutdown := b\<rparr>)" "stays s (s\<lparr>sk_inbound_shutdown := b\<rparr>)"
  by (simp_all add: stays_def on_tcp_def fd_num_def)

lemma stays_frame: "sk_frame d s s' \<Longrightarrow> stays s s'" "frame d s s' \<Longrightarrow> stays s s'"
proof -
  have "fd_num e s' = fd_num e s" if "sk_frame d s s'" for e
    using that by (cases "e = d") (simp_all add: sk_frame_def fd_num_def)
  then have *: "sk_frame d s s' \<Longrightarrow> stays s s'" by (auto simp: stays_def sk_frame_def)
  then show "sk_frame d s s' \<Longrightarrow> stays s s'" "frame d s s' \<Longrightarrow> stays s s'" using sk_frame_of by blast+
qed

lemma sk_env_stays: "sk_env k ad td fd out s \<Longrightarrow> stays s s' \<Longrightarrow> sk_tcp s' \<noteq> None \<Longrightarrow> sk_env k ad td fd out s'"
  by (auto simp: sk_env_def stays_def)

lemma history_append:
  "history f step (xs @ ys) s = history f step xs s @ history f step ys (run step xs s)"
  by (induction xs arbitrary: s) auto

lemma sk_inv_op:
  assumes "sk_inv k ad td fd out c0 out0 s" and "stays s s'" and "sk_tcp s' = Some (cn_step e (tcp_of s))"
    and "out (kern s') = out (kern s) @ cn_delivers e (tcp_of s)"
  shows "sk_inv k ad td fd out c0 out0 s'"
proof -
  obtain ops where "tcp_of s = run cn_step ops c0" "out (kern s) = out0 @ history cn_delivers cn_step ops c0"
    using assms(1) by (auto simp: sk_inv_def)
  then have "tcp_of s' = run cn_step (ops @ [e]) c0 \<and> out (kern s') = out0 @ history cn_delivers cn_step (ops @ [e]) c0"
    using assms(3,4) by (simp add: tcp_of_def run_append history_append)
  then show ?thesis using assms sk_env_stays unfolding sk_inv_def by (metis option.distinct(1))
qed

lemma sk_inv_same:
  assumes "sk_inv k ad td fd out c0 out0 s" and "stays s s'" and "sk_tcp s' = sk_tcp s" and "out (kern s') = out (kern s)"
  shows "sk_inv k ad td fd out c0 out0 s'"
  using assms sk_env_stays [of k ad td fd out s s'] by (auto simp: sk_inv_def sk_env_def tcp_of_def)

lemma sk_inv_on_tcp:
  assumes "sk_inv k ad td fd out c0 out0 s" and "f (tcp_of s) = cn_step e (tcp_of s)" and "cn_delivers e (tcp_of s) = []"
  shows "sk_inv k ad td fd out c0 out0 (on_tcp f s)"
proof (rule sk_inv_op [OF assms(1)])
  show "sk_tcp (on_tcp f s) = Some (cn_step e (tcp_of s))"
    using assms(1,2) by (auto simp: sk_inv_def sk_env_def on_tcp_def tcp_of_def)
qed (use assms(3) in simp_all)

lemma sk_inv_flags [simp]:
  "sk_inv k ad td fd out c0 out0 (s\<lparr>sk_fully_acked := b\<rparr>) = sk_inv k ad td fd out c0 out0 s"
  "sk_inv k ad td fd out c0 out0 (s\<lparr>sk_outbound_shutdown := b\<rparr>) = sk_inv k ad td fd out c0 out0 s"
  "sk_inv k ad td fd out c0 out0 (s\<lparr>sk_inbound_shutdown := b\<rparr>) = sk_inv k ad td fd out c0 out0 s"
  "sk_inv k ad td fd out c0 out0 (s\<lparr>sk_adapter := a\<rparr>) = sk_inv k ad td fd out c0 out0 s"
  by (simp_all add: sk_inv_def sk_env_def fd_num_def tcp_of_def)

lemma sk_inv_env:
  assumes "sk_inv k ad td fd out c0 out0 s"
  shows "writer k fd out" "undisturbed k fd out" "da_fd ad < length (wrappers s)" "td < length (wrappers s)"
    "fd_num td s = fd" "fd_num (da_fd ad) s \<noteq> fd" "sk_tcp s \<noteq> None"
  using assms by (auto simp: sk_inv_def sk_env_def)

lemma peer_text_state: "peer_text gni ad s = (r, s') \<Longrightarrow> s' = s"
  by (simp add: peer_text_def)

lemma FileDescriptor_destroy_frame:
  assumes "d < length (wrappers s)"
  shows "frame d s (FileDescriptor_destroy k d s)"
proof -
  have c: "frame d s (FDWrapper_destroy k d s)" if "d < length (wrappers s)" for s :: "('a, 'b) sys_scheme"
  proof -
    obtain rc s1 where c: "system_call ''close'' (\<lambda>s. k_close k (fd_num d s)) s = (rc, s1)" by fastforce
    have "frame d s1 (on_wrapper d (\<lambda>w. w\<lparr>fdw_eof := True, fdw_closed := True\<rparr>) s1)"
      using frame_length [OF frame_system_call [OF c, of d]] that by (intro frame_on_wrapper) simp_all
    then show ?thesis
      using frame_system_call [OF c, of d] frame_trans
      by (auto simp: FDWrapper_destroy_def FDWrapper_close_def seq_def c change_def split: sum.split)
  qed
  show ?thesis
    using assms frame_on_wrapper [of d s "\<lambda>w. w\<lparr>fdw_use_count := fdw_use_count w - 1\<rparr>"]
      frame_trans [OF _ c [of "on_wrapper d (\<lambda>w. w\<lparr>fdw_use_count := fdw_use_count w - 1\<rparr>) s"]]
    by (simp add: FileDescriptor_destroy_def Let_def)
qed

lemma FDWrapper_close_kern: "kern (snd (FDWrapper_close k d s)) = snd (k_close k (fd_num d s) (kern s))"
proof -
  obtain rc s1 where c: "system_call ''close'' (\<lambda>s. k_close k (fd_num d s)) s = (rc, s1)" by fastforce
  then show ?thesis
    using system_call_simps(3) [OF c] by (auto simp: FDWrapper_close_def seq_def change_def split: sum.split)
qed

lemma FileDescriptor_destroy_out:
  "undisturbed k fd out \<Longrightarrow> out (kern (FileDescriptor_destroy k d s)) = out (kern s)"
  by (simp add: FileDescriptor_destroy_def FDWrapper_destroy_def FDWrapper_close_kern Let_def undisturbed_def)

lemma sk_inv_destroy:
  assumes "sk_inv k ad td fd out c0 out0 s" and "d < length (wrappers s)"
  shows "sk_inv k ad td fd out c0 out0 (FileDescriptor_destroy k d s)"
  using FileDescriptor_destroy_frame [OF assms(2), of k] FileDescriptor_destroy_out sk_inv_env(2) [OF assms(1)]
  by (intro sk_inv_same [OF assms(1)]) (auto intro: stays_frame dest: sk_frame_of simp: sk_frame_def)

lemma undisturbedD:
  assumes "undisturbed k fd out"
  shows "k_poll k ps t w = (x, w') \<Longrightarrow> out w' = out w" "k_timestamp_ms k w = (y, w') \<Longrightarrow> out w' = out w"
  using assms unfolding undisturbed_def by (metis snd_conv)+

lemma sk_inv_kern: "sk_inv k ad td fd out c0 out0 s \<Longrightarrow> out w = out (kern s) \<Longrightarrow> sk_inv k ad td fd out c0 out0 (s\<lparr>kern := w\<rparr>)"
  by (erule sk_inv_same) simp_all

lemma sk_inv_end: "sk_inv k ad td fd out c0 out0 s \<Longrightarrow> sk_inv k ad td fd out c0 out0 (on_tcp end_input_stream s)"
  by (erule sk_inv_on_tcp [where e = CEnd]) simp_all

lemma sk_inv_cancel2: "sk_inv k ad td fd out c0 out0 s \<Longrightarrow> sk_inv k ad td fd out c0 out0 (cancel2 s)"
  by (simp add: cancel2_def sk_inv_end)

lemma rule2_keeps:
  assumes i: "sk_inv k ad td fd out c0 out0 s" and r: "rule2 k gni ad td s = (r, s')"
  shows "sk_inv k ad td fd out c0 out0 s'"
proof -
  note e = sk_inv_env [OF i]
  have k: "sk_inv k ad td fd out c0 out0 s1" if "FileDescriptor_read k td n s = (x, s1)" for n x s1
    using FileDescriptor_read_frame [OF that e(4)] FileDescriptor_read_kern [OF that] e(2)
    by (intro sk_inv_same [OF i]) (auto intro: stays_frame dest: sk_frame_of simp: sk_frame_def undisturbed_def)
  from r show ?thesis unfolding rule2_def
  proof (cases rule: seqE)
    case (ok data s1)
    have "sk_inv k ad td fd out c0 out0 (on_tcp (\<lambda>c. fst (cn_write data c)) s1)"
      by (rule sk_inv_on_tcp [OF k [OF ok(1)], where e = "CWrite data"]) simp_all
    then show ?thesis
      using ok(2) sk_inv_end by (auto simp: Let_def prog_defs peer_text_def split: if_splits sum.splits)
  qed (use k in blast)
qed

text \<open>Popping what was written is reading it from the connection.\<close>

lemma CRead_pop:
  assumes "v \<le> buffer_size (inbound_stream c)"
  shows "cn_step (CRead v) c = on_inbound (\<lambda>b. pop_output b v) c" "cn_delivers (CRead v) c = peek_output (inbound_stream c) v"
proof -
  have "ByteStream_read (inbound_stream c) v = (pop_output (inbound_stream c) v, peek_output (inbound_stream c) v)"
    using leD [OF assms] by (simp add: ByteStream_read_def buffer_size_def Let_def)
  then show "cn_step (CRead v) c = on_inbound (\<lambda>b. pop_output b v) c" "cn_delivers (CRead v) c = peek_output (inbound_stream c) v"
    by (simp_all add: on_inbound_def inbound_stream_def rcv_stream_out_def)
qed

lemma owner_write:
  assumes i: "sk_inv k ad td fd out c0 out0 s" and n: "n = min 65536 (buffer_size (inbound_stream (tcp_of s)))"
    and w: "FileDescriptor_write k td [peek_output (inbound_stream (tcp_of s)) n] False s = (x, s1)"
  shows "\<And>e. x = Inl e \<Longrightarrow> sk_inv k ad td fd out c0 out0 s1"
    and "\<And>v. x = Inr v \<Longrightarrow> sk_inv k ad td fd out c0 out0 (on_tcp (on_inbound (\<lambda>b. pop_output b v)) s1)"
proof -
  let ?b = "peek_output (inbound_stream (tcp_of s)) n"
  note e = sk_inv_env [OF i]
  have n': "unat n \<le> 65536" "n \<le> buffer_size (inbound_stream (tcp_of s))" using n by (simp_all add: min_def word_le_nat_alt)
  have b: "length ?b \<le> unat n" by (simp add: peek_output_def substr_0)
  have f: "frame td s s1" using FileDescriptor_write_frame [OF w e(4)] .
  have "writer k (fd_num td s) out" "length (concat [?b]) < 2 ^ 63" using e b n' by simp_all
  from write_loop_out [OF this e(4) w [unfolded FileDescriptor_write_def]] obtain m where
    m: "m \<le> length ?b" "out (kern s1) = out (kern s) @ take m ?b" "\<forall>v. x = Inr v \<longrightarrow> v = of_nat m" "\<forall>e. x = Inl e \<longrightarrow> m = 0" by auto
  have t: "sk_tcp s1 = sk_tcp s" using f by (simp add: frame_def confined_sponge)
  show "sk_inv k ad td fd out c0 out0 s1" if "x = Inl e" for e
    using that m by (intro sk_inv_same [OF i stays_frame(2) [OF f] t]) simp
  show "sk_inv k ad td fd out c0 out0 (on_tcp (on_inbound (\<lambda>b. pop_output b v)) s1)" if "x = Inr v" for v
  proof -
    have u: "unat v = m" using that m(1,3) b n'(1) by (simp add: unat_of_nat)
    then have v: "v \<le> buffer_size (inbound_stream (tcp_of s))"
      using m(1) b n'(2) by (meson order_trans word_le_nat_alt)
    have "take m ?b = peek_output (inbound_stream (tcp_of s)) v"
      using u m(1) b by (simp add: peek_output_def substr_0 min_def)
    then show ?thesis
      using m(2) t e(7) CRead_pop [OF v] stays_frame(2) [OF f]
      by (intro sk_inv_op [OF i, where e = "CRead v"]) (auto simp: stays_def fd_num_def on_tcp_def tcp_of_def simp del: cn_step.simps cn_delivers.simps)
  qed
qed

lemma Socket_shutdown_kern:
  assumes "Socket_shutdown k d how s = (r, s')"
  shows "kern s' = snd (k_shutdown k (fd_num d s) how (kern s))"
proof -
  obtain rc s1 where c: "system_call ''shutdown'' (\<lambda>s. k_shutdown k (fd_num d s) how) s = (rc, s1)" by fastforce
  then have "kern s' = kern s1"
    using assms by (auto simp: Socket_shutdown_def seq_def change_def raise_def split: sum.splits if_splits)
  then show ?thesis using system_call_simps(3) [OF c] by simp
qed

lemma sk_inv_shutdown:
  assumes "sk_inv k ad td fd out c0 out0 s" and "Socket_shutdown k d how s = (x, s')" and "d < length (wrappers s)"
  shows "sk_inv k ad td fd out c0 out0 s'"
  using Socket_shutdown_frame [OF assms(2,3)] Socket_shutdown_kern [OF assms(2)] sk_inv_env(2) [OF assms(1)]
  by (intro sk_inv_same [OF assms(1)]) (auto intro: stays_frame simp: frame_def confined_sponge undisturbed_def)

lemma rule3_keeps:
  assumes i: "sk_inv k ad td fd out c0 out0 s" and r: "rule3 k gni ad td s = (r, s')"
  shows "sk_inv k ad td fd out c0 out0 s'"
proof -
  let ?n = "min 65536 (buffer_size (inbound_stream (tcp_of s)))"
  from r show ?thesis unfolding rule3_def Let_def
  proof (cases rule: seqE)
    case (fail e)
    then show ?thesis using owner_write(1) [OF i refl] by blast
  next
    case (ok v s1)
    let ?s = "on_tcp (on_inbound (\<lambda>b. pop_output b v)) s1"
    have i2: "sk_inv k ad td fd out c0 out0 ?s" using owner_write(2) [OF i refl ok(1)] by blast
    have sh: "sk_inv k ad td fd out c0 out0 s3" if "Socket_shutdown k td SHUT_WR ?s = (x, s3)" for x s3
      using sk_inv_shutdown [OF i2 that] sk_inv_env(4) [OF i2] by blast
    show ?thesis
      using ok(2) i2 sh unfolding seq_def change_def peer_text_def ret_def
      by (auto split: if_splits sum.splits prod.splits)
  qed
qed

text \<open>The read and write rules register what they do with the descriptor.\<close>

lemma rule2_registers:
  assumes "rule2 k gni ad td s = (Inr u, s')" and "td < length (wrappers s)"
  shows "read_count td s' = read_count td s + 1"
  using assms(1) unfolding rule2_def
proof (cases rule: seqE)
  case (ok data s1)
  have "wrappers s' = wrappers s1"
    using ok(2) by (auto simp: Let_def prog_defs peer_text_def split: if_splits sum.splits)
  then show ?thesis using FileDescriptor_read_count(1) [OF ok(1) assms(2)] by (simp add: read_count_def)
qed auto

lemma rule3_registers:
  assumes "rule3 k gni ad td s = (Inr u, s')" and "td < length (wrappers s)"
  shows "write_count td s' \<noteq> write_count td s"
  using assms(1) unfolding rule3_def Let_def
proof (cases rule: seqE)
  case (ok v s1)
  let ?s = "on_tcp (on_inbound (\<lambda>b. pop_output b v)) s1"
  have w: "write_count td ?s = write_count td s + 1" "td < length (wrappers ?s)"
    using FileDescriptor_write_once [OF ok(1) assms(2)] frame_length [OF FileDescriptor_write_frame [OF ok(1) assms(2)]] assms(2)
    by (simp_all add: write_count_def)
  have "wrappers s' = wrappers ?s \<or> (\<exists>y s2. Socket_shutdown k td SHUT_WR ?s = (Inr y, s2) \<and> wrappers s' = wrappers s2)"
    using ok(2) unfolding seq_def change_def peer_text_def ret_def by (auto split: if_splits sum.splits prod.splits)
  then have "write_count td s' = write_count td ?s \<or> write_count td s' = write_count td ?s + 1"
    using Socket_shutdown_wr_count [OF _ w(2)] by (auto simp: write_count_def)
  then show ?thesis using w(1) by (auto simp: add.assoc)
qed auto

lemma harmless_peer: "harmless (fst (peer_text gni ad s))"
  by (simp add: peer_text_def)

lemma rule2_harmless: "td < length (wrappers s) \<Longrightarrow> harmless (fst (rule2 k gni ad td s))"
proof -
  assume l: "td < length (wrappers s)"
  let ?n = "remaining_outbound_capacity (tcp_of s)"
  have "snd (cn_write data (tcp_of s1)) = sz data" if r: "FileDescriptor_read k td ?n s = (Inr data, s1)" for data s1
  proof -
    have "tcp_of s1 = tcp_of s" using frame_tcp [OF FileDescriptor_read_frame [OF r l]] .
    moreover have "length data \<le> unat ?n" using FileDescriptor_read_count(2) [OF r l] .
    then have "\<not> ?n < sz data"
      by (simp add: not_less sz_def word_le_nat_alt unat_of_nat)
    ultimately show ?thesis
      by (simp add: cn_write_def ByteStream_write_def remaining_outbound_capacity_def remaining_capacity_def Let_def)
  qed
  then show ?thesis unfolding rule2_def
    by (intro harmless_seq [OF harmless_read]) (auto simp: Let_def harmless_peer change_def ret_def intro!: harmless_seq)
qed

lemma rule3_harmless: "harmless (fst (rule3 k gni ad td s))"
proof -
  have "harmless (fst (Socket_shutdown k td SHUT_WR s))" for s :: "('a, 'b) sponge"
    unfolding Socket_shutdown_def by (intro harmless_seq) (simp_all add: SHUT_WR_def SHUT_RD_def change_def)
  then show ?thesis unfolding rule3_def Let_def
    by (intro harmless_seq [OF harmless_write]) (auto simp: harmless_peer change_def ret_def intro!: harmless_seq)
qed

context adapter_laws
begin

lemma adapter_keeps:
  assumes "sk_inv k ad td fd out c0 out0 s"
  shows "da_read ad s = (r, s') \<Longrightarrow> sk_inv k ad td fd out c0 out0 s'" "da_write ad seg s = (u, s') \<Longrightarrow> sk_inv k ad td fd out c0 out0 s'"
proof -
  note e = sk_inv_env [OF assms]
  have *: "sk_inv k ad td fd out c0 out0 s'" if "sk_frame (da_fd ad) s s'" "out (kern s') = out (kern s)" for s'
    using that by (intro sk_inv_same [OF assms stays_frame(1) [OF that(1)]]) (simp_all add: sk_frame_def)
  show "da_read ad s = (r, s') \<Longrightarrow> sk_inv k ad td fd out c0 out0 s'" using * read_frame [OF _ e(3)] read_out [OF _ e(2)] by blast
  show "da_write ad seg s = (u, s') \<Longrightarrow> sk_inv k ad td fd out c0 out0 s'" using * write_frame [OF _ e(3)] write_out [OF _ e(2,3,6)] by blast
qed

lemma rule1_keeps:
  assumes i: "sk_inv k ad td fd out c0 out0 s" and r: "rule1 gni ad td s = (r, s')"
  shows "sk_inv k ad td fd out c0 out0 s'"
  using r unfolding rule1_def
proof (cases rule: seqE)
  case (fail e)
  then show ?thesis using adapter_keeps(1) [OF i] by blast
next
  case (ok seg s1)
  note i1 = adapter_keeps(1) [OF i ok(1)]
  have "sk_inv k ad td fd out c0 out0 ((case seg of None \<Rightarrow> id | Some g \<Rightarrow> on_tcp (cn_segment_received g)) s1)"
    using i1 sk_inv_on_tcp [OF i1, where e = "CReceive (the seg)"] by (cases seg) simp_all
  then show ?thesis using ok(2) by (auto simp: prog_defs peer_text_def split: if_splits sum.splits)
qed

lemma send_segments_keeps:
  "sk_inv k ad td fd out c0 out0 s \<Longrightarrow> send_segments ad segs s = (r, s') \<Longrightarrow> sk_inv k ad td fd out c0 out0 s'"
proof (induction segs arbitrary: s)
  case (Cons seg segs)
  from Cons.prems(2) show ?case unfolding send_segments.simps
  proof (cases rule: seqE)
    case (fail e)
    then show ?thesis using adapter_keeps(2) [OF Cons.prems(1)] by blast
  next
    case (ok x s1)
    note i1 = adapter_keeps(2) [OF Cons.prems(1) ok(1)]
    have "sk_inv k ad td fd out c0 out0 (on_tcp (\<lambda>c. c\<lparr>cn_segments_out := tl (cn_segments_out c)\<rparr>) s1)"
      by (rule sk_inv_on_tcp [OF i1, where e = CSend]) simp_all
    then show ?thesis using Cons.IH ok(2) by (simp add: seq_def change_def)
  qed
qed (simp add: ret_def)

lemma send_segments_empties:
  "sk_tcp s = Some c \<Longrightarrow> send_segments ad segs s = (Inr x, s') \<Longrightarrow> da_fd ad < length (wrappers s) \<Longrightarrow> cn_segments_out c = segs \<Longrightarrow>
     cn_segments_out (tcp_of s') = []"
proof (induction segs arbitrary: s c)
  case Nil
  then show ?case by (simp add: ret_def tcp_of_def)
next
  case (Cons seg segs)
  from Cons.prems(2) obtain s1 where w: "da_write ad seg s = (Inr (), s1)"
    and n: "send_segments ad segs (on_tcp (\<lambda>c. c\<lparr>cn_segments_out := tl (cn_segments_out c)\<rparr>) s1) = (Inr x, s')"
    by (auto simp: change_def elim!: seqE)
  have f: "sk_frame (da_fd ad) s s1" using write_frame [OF w Cons.prems(3)] .
  have "sk_tcp (on_tcp (\<lambda>c. c\<lparr>cn_segments_out := tl (cn_segments_out c)\<rparr>) s1) = Some (c\<lparr>cn_segments_out := segs\<rparr>)"
    using f Cons.prems(1,4) by (simp add: sk_frame_def on_tcp_def)
  from Cons.IH [OF this n] show ?case using f Cons.prems(3) by (simp add: sk_frame_def)
qed

lemma rule1_registers:
  assumes "rule1 gni ad td s = (Inr u, s')" and "da_fd ad < length (wrappers s)"
  shows "read_count (da_fd ad) s' = read_count (da_fd ad) s + 1"
  using assms(1) unfolding rule1_def
proof (cases rule: seqE)
  case (ok seg s1)
  have "wrappers s' = wrappers s1"
    using ok(2) by (auto simp: prog_defs peer_text_def split: if_splits sum.splits option.splits)
  then show ?thesis using read_registers [OF ok(1) assms(2)] by (simp add: read_count_def)
qed auto

lemma rules_harmless:
  assumes "rule \<in> set (socket_rules k gni ad td)" and "td < length (wrappers s)"
  shows "harmless (fst (callback rule s))" "harmless (fst (cancel rule s))"
proof -
  have "harmless (fst (rule1 gni ad td s))"
    unfolding rule1_def by (intro harmless_seq [OF read_harmless]) (auto simp: harmless_peer change_def intro!: harmless_seq)
  moreover have "harmless (fst (send_segments ad segs s))" for segs s
    by (induction segs arbitrary: s) (auto simp: ret_def change_def write_harmless intro!: harmless_seq)
  ultimately show "harmless (fst (callback rule s))"
    using assms rule2_harmless rule3_harmless by (auto simp: socket_rules_def rule4_def)
  show "harmless (fst (cancel rule s))" using assms(1) by (auto simp: socket_rules_def ret_def change_def)
qed

end

sublocale adapter_laws \<subseteq> ev: serviced_client k "set (socket_rules k gni ad td)" "sk_inv k ad td fd out c0 out0" for gni td fd out c0 out0
proof
  fix r s res s'
  assume r: "r \<in> set (socket_rules k gni ad td)" and i: "sk_inv k ad td fd out c0 out0 s"
  show "callback r s = (res, s') \<Longrightarrow> sk_inv k ad td fd out c0 out0 s'"
    using r rule1_keeps [OF i] rule2_keeps [OF i] rule3_keeps [OF i] send_segments_keeps [OF i]
    by (auto simp: socket_rules_def rule4_def)
  show "cancel r s = (res, s') \<Longrightarrow> sk_inv k ad td fd out c0 out0 s'"
    using r sk_inv_cancel2 [OF i] i by (auto simp: socket_rules_def ret_def change_def)
  show "sk_inv k ad td fd out c0 out0 (FileDescriptor_destroy k (rule_fd r) s)"
    using r sk_inv_env(3,4) [OF i] sk_inv_destroy [OF i] by (auto simp: socket_rules_def)
next
  show "sk_inv k ad td fd out c0 out0 s \<Longrightarrow> k_poll k ps t (kern s) = (x, w) \<Longrightarrow> sk_inv k ad td fd out c0 out0 (s\<lparr>kern := w\<rparr>)" for s ps t x w
    using undisturbedD(1) [OF sk_inv_env(2)] by (intro sk_inv_kern) blast+
next
  fix r s s'
  assume r: "r \<in> set (socket_rules k gni ad td)" and i: "sk_inv k ad td fd out c0 out0 s" and c: "callback r s = (Inr (), s')"
    and n: "service_count r s' = service_count r s"
  note e = sk_inv_env [OF i]
  obtain c where t: "sk_tcp s = Some c" using e(7) by blast
  show "\<not> interest r s'"
    using r c n rule1_registers [OF _ e(3)] rule2_registers [OF _ e(4)] rule3_registers [OF _ e(4)]
      send_segments_empties [OF t _ e(3) refl]
    by (auto simp: socket_rules_def service_count_def rule4_def tcp_of_def t)
qed

context adapter_laws
begin

lemma round_harmless:
  assumes "set rules \<subseteq> set (socket_rules k gni ad td)" and "sk_inv k ad td fd out c0 out0 s"
    and "wait_next_event k t rules s = (res, rules', s')"
  shows "harmless res"
proof (cases res)
  case (Inl e)
  have "e = polled_error \<or> (\<exists>r \<in> set (socket_rules k gni ad td). \<exists>s. sk_inv k ad td fd out c0 out0 s
      \<and> (fst (callback r s) = Inl e \<or> fst (cancel r s) = Inl e))"
    using ev.wait_raises [OF assms(1,2) assms(3) [unfolded Inl]] unfolding ev.raised_def by blast
  moreover have "harmless (Inl polled_error)" by (simp add: harmless_def polled_error_def busy_wait_def short_write_def)
  ultimately show ?thesis using rules_harmless Inl sk_inv_env(4) unfolding harmless_def by (metis Inl_inject)
qed simp

lemma tcp_loop_keeps:
  "tcp_loop_from k' ad' aborted condition t rules s = Some y \<Longrightarrow> k' = k \<Longrightarrow> ad' = ad \<Longrightarrow>
     set rules \<subseteq> set (socket_rules k gni ad td) \<Longrightarrow> sk_inv k ad td fd out c0 out0 s \<Longrightarrow>
     sk_inv k ad td fd out c0 out0 (snd (snd y)) \<and> harmless (fst y)"
proof (induction rule: tcp_loop_from.raw_induct [rotated, consumes 1, case_names step])
  case (step loop k' ad' aborted condition t rules s y)
  show ?case
  proof (cases "condition s")
    case True
    obtain res rules' s' where w: "wait_next_event k 10 rules s = (res, rules', s')" by (metis prod.exhaust)
    note kept = ev.wait_keeps [OF step.prems(3,4) w] and h = round_harmless [OF step.prems(3,4) w]
    obtain now w' where n: "k_timestamp_ms k (kern s') = (now, w')" by fastforce
    have tick: "sk_inv k ad td fd out c0 out0 (on_tcp (cn_tick ms) (s'\<lparr>kern := w'\<rparr>))" for ms
      by (rule sk_inv_on_tcp [where e = "CTick ms", OF sk_inv_kern [OF kept(1)]])
        (use undisturbedD(2) [OF sk_inv_env(2) [OF kept(1)] n] in simp_all)
    show ?thesis
    proof (cases res)
      case (Inl e)
      then show ?thesis using step.prems step.hyps True w kept h by (auto simp: harmless_def)
    next
      case (Inr r)
      show ?thesis
      proof (cases "r = Exit \<or> aborted (kern s')")
        case True
        then show ?thesis using step.prems step.hyps \<open>condition s\<close> w kept Inr by auto
      next
        case False
        then show ?thesis
          using step.prems step.hyps \<open>condition s\<close> w kept Inr n tick step.IH by (simp add: Let_def split: if_splits)
      qed
    qed
  next
    case False
    then show ?thesis using step.prems step.hyps by auto
  qed
qed

end

section \<open>Properties\<close>

text \<open>
  What a socket with the connection \<open>c0\<close> has done by the state \<open>s'\<close>: operations of the interface of the connection, whose
  deliveries, and nothing else, have been passed to the owner; and it has not found its own loop to be wrong.
\<close>

definition sk_result :: "TCPConnection \<Rightarrow> ('w \<Rightarrow> byte list) \<Rightarrow> ('w, 'a) sponge \<Rightarrow> exn + 'r \<Rightarrow> ('w, 'a) sponge \<Rightarrow> bool" where
  "sk_result c0 out s res s' \<longleftrightarrow>
     (\<exists>ops. tcp_of s' = run cn_step ops c0 \<and> out (kern s') = out (kern s) @ history cn_delivers cn_step ops c0)
     \<and> res \<noteq> Inl busy_wait \<and> res \<noteq> Inl short_write"

lemma sk_result_of_inv:
  "sk_inv k ad td fd out c0 (out (kern s)) s' \<Longrightarrow> harmless res \<Longrightarrow> sk_result c0 out s res s'"
  by (simp add: sk_inv_def sk_result_def harmless_def)

text \<open>
  C12. The socket on a TUN device is a refinement of the connection it owns. Whatever the device, the owner and the system do, a
  round of its event loop, and its whole loop when that ends, performs only operations of the connection's interface; the bytes
  written to the owner's descriptor are exactly those the connection delivered, in order, also when the
  descriptor takes only part of them. The loop never stops with a busy wait, nor because the
  connection accepts less than it advertised.
\<close>

theorem socket_refines_connection:
  fixes gai gni
  assumes "writer k fd out" and "undisturbed k fd out" and "tun < length (wrappers s)" and "td < length (wrappers s)"
    and "fd_num td s = fd" and "fd_num tun s \<noteq> fd" and "sk_tcp s = Some c0"
  defines "ad \<equiv> tun_adapter k gai gni tun"
  shows "(case wait_next_event k t (socket_rules k gni ad td) s of (res, _, s') \<Rightarrow> sk_result c0 out s res s')
    \<and> (case tcp_loop k ad aborted condition (socket_rules k gni ad td) s of
         None \<Rightarrow> True | Some (res, _, s') \<Rightarrow> sk_result c0 out s res s')"
proof -
  have "da_fd ad = tun" by (simp add: ad_def tun_adapter_def)
  then have i: "sk_inv k ad td fd out c0 (out (kern s)) s"
    using assms by (auto simp: sk_inv_def sk_env_def tcp_of_def intro: exI [of _ "[]"])
  have "sk_result c0 out s res s'" if "wait_next_event k t (socket_rules k gni ad td) s = (res, rules', s')" for res rules' s'
    using tun.ev.wait_keeps(1) [OF order_refl i [unfolded ad_def] that [unfolded ad_def]]
      tun.round_harmless [OF order_refl i [unfolded ad_def] that [unfolded ad_def]] by (rule sk_result_of_inv)
  moreover have "sk_result c0 out s res s'" if "tcp_loop k ad aborted condition (socket_rules k gni ad td) s = Some (res, rules', s')"
    for res rules' s'
  proof -
    obtain now w where n: "k_timestamp_ms k (kern s) = (now, w)" by fastforce
    have i': "sk_inv k ad td fd out c0 (out (kern s)) (s\<lparr>kern := w\<rparr>)" using sk_inv_kern [OF i] undisturbedD(2) [OF assms(2) n] by simp
    have l: "tcp_loop_from k ad aborted condition now (socket_rules k gni ad td) (s\<lparr>kern := w\<rparr>) = Some (res, rules', s')"
      using that n by (simp add: tcp_loop_def)
    show ?thesis
      using tun.tcp_loop_keeps [OF l [unfolded ad_def] refl refl order_refl i' [unfolded ad_def]] by (auto intro: sk_result_of_inv)
  qed
  ultimately show ?thesis by (auto split: prod.split option.split)
qed

text \<open>A system where the owner's descriptor takes at most two bytes at a time and only it is ready.\<close>

definition pipe_kernel :: "byte list kernel" where
  "pipe_kernel = failing_kernel\<lparr>
     k_writev := \<lambda>fd bufs w. if fd = 5 then ((int (min 2 (length (concat bufs))), 0, ()), w @ take 2 (concat bufs)) else ((- 1, 5, ()), w),
     k_poll := \<lambda>ps t w. ((1, 0, \<lambda>i. if i = 2 then POLLOUT else 0), w)\<rparr>"

lemma pipe_writer: "writer pipe_kernel 5 id" "undisturbed pipe_kernel 5 id"
  by (auto simp: pipe_kernel_def failing_kernel_def writer_def undisturbed_def min_def)

definition wit_connection :: TCPConnection where
  "wit_connection = on_inbound (\<lambda>b. fst (ByteStream_write b [7, 8, 9])) (TCPConnection_new TCPConfig_new 7)"

definition wit_sponge :: "(byte list, FdAdapterBase) sponge" where
  "wit_sponge = \<lparr>wrappers = [wit_wrapper 5, wit_wrapper 6], kern = [], sk_owner = 0, sk_thread_data = 0, sk_adapter = wit_ad 1 2 3 4,
     sk_tcp = Some wit_connection, sk_inbound_shutdown = False, sk_outbound_shutdown = False, sk_fully_acked = False\<rparr>"

theorem socket_refines_connection_witness:
  "case wait_next_event pipe_kernel 10 (socket_rules pipe_kernel numeric_gni (tun_adapter pipe_kernel numeric_gai numeric_gni 1) 0)
     wit_sponge of (res, _, s') \<Rightarrow> sk_result wit_connection id wit_sponge res s'"
proof -
  have "1 < length (wrappers wit_sponge)" "0 < length (wrappers wit_sponge)" "fd_num 0 wit_sponge = 5" "fd_num 1 wit_sponge \<noteq> 5"
    "sk_tcp wit_sponge = Some wit_connection"
    by (simp_all add: wit_sponge_def wit_wrapper_def fd_num_def)
  from socket_refines_connection [OF pipe_writer this] show ?thesis by (rule conjunct1)
qed

subsection \<open>What ends the loop without an exception\<close>

text \<open>No signal interrupts \<open>poll\<close>.\<close>

definition uninterrupted :: "'w kernel \<Rightarrow> bool" where
  "uninterrupted k \<longleftrightarrow> (\<forall>ps t w r errno ev w'. k_poll k ps t w = ((r, errno, ev), w') \<longrightarrow> to_int r < 0 \<longrightarrow> errno \<noteq> EINTR)"

lemma wait_exit:
  assumes "uninterrupted k" and "wait_next_event k t rules s = (Inr Exit, rules', s')"
  obtains ps where "setup_polls k rules s = (Inr (ps, False), rules', s')"
proof (cases "setup_polls k rules s")
  case (fields x rules1 s1)
  obtain ps b where x: "x = Inr (ps, b)"
    using assms(2) fields by (cases x) (auto simp: wait_next_event_def)
  obtain q errno ev w where p: "k_poll k ps t (kern s1) = ((q, errno, ev), w)" by (metis prod.exhaust)
  have "SystemCall ''poll'' (to_int q) errno 0 \<noteq> Inl (unix_error ''poll'' EINTR)"
    using assms(1) p unfolding uninterrupted_def SystemCall_def unix_error_def by (metis Inl_inject Inr_not_Inl exn.inject(5) not_less)
  then have "\<not> b"
    using assms(2) fields x p by (auto simp: wait_next_event_def Let_def split: if_splits prod.splits sum.splits)
  then show thesis using that assms(2) fields x by (simp add: wait_next_event_def)
qed

text \<open>Dropping a rule of the socket does not make its connection active again.\<close>

lemma destroy_tcp: "tcp_of (FileDescriptor_destroy k d s) = tcp_of s"
  by (simp add: tcp_of_def FileDescriptor_destroy_def FDWrapper_destroy_def FDWrapper_close_def seq_def change_def system_call_def on_wrapper_def
      Let_def split: prod.splits sum.splits)

lemma drop_inactive:
  assumes "r \<in> set (socket_rules k gni ad td)" and "\<not> active (tcp_of s)" and "drop_rule k r s = (res, s')"
  shows "\<not> active (tcp_of s')"
proof -
  have "\<not> active (tcp_of (cancel2 s))"
  proof (cases "sk_tcp s")
    case (Some c)
    then have "\<not> active (end_input_stream c)"
      using assms(2) inactive_sys.step_inv [of c CEnd] by (simp add: tcp_of_def)
    then show ?thesis using Some by (simp add: cancel2_def on_tcp_def tcp_of_def)
  qed (use assms(2) in \<open>simp add: cancel2_def on_tcp_def tcp_of_def\<close>)
  then show ?thesis
    using assms by (auto simp: socket_rules_def drop_rule_def seq_def ret_def change_def destroy_tcp)
qed

lemma setup_inactive:
  "set rules \<subseteq> set (socket_rules k gni ad td) \<Longrightarrow> \<not> active (tcp_of s) \<Longrightarrow> setup_polls k rules s = (res, rules', s') \<Longrightarrow> \<not> active (tcp_of s')"
proof (induction rules arbitrary: s res rules')
  case (Cons r rs)
  then have r: "set rs \<subseteq> set (socket_rules k gni ad td)" "r \<in> set (socket_rules k gni ad td)" by simp_all
  from Cons.prems(3) show ?case
    by (cases rule: setup_polls_cases) (use Cons.IH Cons.prems(2) r drop_inactive in blast)+
qed simp

text \<open>With nothing to poll, the rule that reads from the adapter is gone or the connection is inactive.\<close>

lemma setup_idle:
  "set rules \<subseteq> set (socket_rules k gni ad td) \<Longrightarrow> setup_polls k rules s = (Inr (ps, False), rules', s') \<Longrightarrow>
   hd (socket_rules k gni ad td) \<in> set rules' \<Longrightarrow> \<not> active (tcp_of s')"
proof (induction rules arbitrary: s ps rules')
  case (Cons r rs)
  then have r: "set rs \<subseteq> set (socket_rules k gni ad td)" "r \<in> set (socket_rules k gni ad td)" by simp_all
  from Cons.prems(2) show ?case
  proof (cases rule: setup_polls_cases)
    case (dropped s1)
    then show ?thesis using Cons.IH [OF r(1)] Cons.prems(3) by blast
  next
    case (kept res1 rs')
    then obtain ps' where k: "res1 = Inr (ps', False)" "\<not> interest r s" by (cases res1) (auto split: prod.splits)
    show ?thesis
    proof (cases "r = hd (socket_rules k gni ad td)")
      case True
      then have "\<not> active (tcp_of s)" using k(2) by (simp add: socket_rules_def)
      then show ?thesis using setup_inactive [OF r(1) _ kept(1)] by blast
    next
      case False
      then show ?thesis using Cons.IH [OF r(1)] kept k(1) Cons.prems(3) by auto
    qed
  qed auto
qed simp

lemma tcp_loop_ends:
  "tcp_loop_from k ad aborted condition t rules s = Some y \<Longrightarrow> uninterrupted k \<Longrightarrow> set rules \<subseteq> set (socket_rules k gni ad td) \<Longrightarrow>
     (\<forall>e. fst y \<noteq> Inl e) \<Longrightarrow>
     \<not> condition (snd (snd y)) \<or> aborted (kern (snd (snd y))) \<or> \<not> active (tcp_of (snd (snd y)))
     \<or> hd (socket_rules k gni ad td) \<notin> set (fst (snd y))"
proof (induction rule: tcp_loop_from.raw_induct [rotated, consumes 1, case_names step])
  case (step loop k ad aborted condition t rules s y)
  obtain res rules' s' where w: "wait_next_event k 10 rules s = (res, rules', s')" by (metis prod.exhaust)
  obtain now w' where n: "k_timestamp_ms k (kern s') = (now, w')" by fastforce
  have sub: "set rules' \<subseteq> set (socket_rules k gni ad td)"
    using wait_next_event_subseq [OF w] step.prems(2) subseq_subset by blast
  consider "\<not> condition s" | e where "condition s" "res = Inl e" | "condition s" "res = Inr Exit"
    | r where "condition s" "res = Inr r" "r \<noteq> Exit" by (cases res) auto
  then show ?case
  proof cases
    case 1
    then show ?thesis using step.hyps by auto
  next
    case 2
    then show ?thesis using step.hyps step.prems w by auto
  next
    case 3
    from wait_exit [OF step.prems(1) w [unfolded 3(2)]] obtain ps where "setup_polls k rules s = (Inr (ps, False), rules', s')" by blast
    from setup_idle [OF step.prems(2) this] show ?thesis using step.hyps 3 w by auto
  next
    case r: (4 r)
    show ?thesis
    proof (cases "aborted (kern s')")
      case True
      then show ?thesis using step.hyps r w by auto
    next
      case False
      then show ?thesis using step.hyps step.prems step.IH sub r w n by (simp add: Let_def split: if_splits)
    qed
  qed
qed

lemma initialize_rules_new:
  "initialize_TCP k gni ad c random ([], s) = (rules, s') \<Longrightarrow> set rules \<subseteq> set (socket_rules k gni ad (sk_thread_data s))"
  using initialize_rules [of k gni ad c random "[]" s] by simp

lemma in_state_active: "in_state st s \<Longrightarrow> st \<noteq> CLOSED \<Longrightarrow> st \<noteq> RESET \<Longrightarrow> active (tcp_of s)"
  by (cases st) (auto simp: in_state_def TCPState_eq_def cn_state_def TCPState_make_def)

lemma tcp_loop_waits:
  assumes "tcp_loop k ad aborted (\<lambda>s. \<exists>st \<in> pending. in_state st s) rules s = Some (Inr (), rules', s')" and "uninterrupted k"
    and "set rules \<subseteq> set (socket_rules k gni ad td)" and "CLOSED \<notin> pending" and "RESET \<notin> pending"
  shows "(\<forall>st \<in> pending. \<not> in_state st s') \<or> aborted (kern s') \<or> hd (socket_rules k gni ad td) \<notin> set rules'"
proof -
  from assms(1) obtain now s1 where "tcp_loop_from k ad aborted (\<lambda>s. \<exists>st \<in> pending. in_state st s) now rules s1 = Some (Inr (), rules', s')"
    by (auto simp: tcp_loop_def Let_def split: prod.splits)
  from tcp_loop_ends [OF this assms(2,3)]
  have "\<not> (\<exists>st \<in> pending. in_state st s') \<or> aborted (kern s') \<or> \<not> active (tcp_of s') \<or> hd (socket_rules k gni ad td) \<notin> set rules'"
    by simp
  then show ?thesis using in_state_active [of _ s'] assms(4,5) by blast
qed

text \<open>
  C36. \<open>connect\<close> and \<open>listen_and_accept\<close> wait. On a socket without a connection, in a system where no signal interrupts \<open>poll\<close>: when \<open>connect\<close> returns
  without an exception its connection has left SYN\_SENT, when \<open>listen_and_accept\<close> does it has left LISTEN, SYN\_RCVD and SYN\_SENT,
  unless the owner has asked to abort or the rule that reads from the adapter has been cancelled because the device was closed, at its end or hung up.
\<close>

theorem connect_and_accept_wait:
  fixes gni and ad :: "('w, 'a) datagram_adapter" and rules' :: "('w, 'a) sk_rules" and s s' :: "('w, 'a) sponge"
  assumes "uninterrupted k"
  defines "device \<equiv> hd (socket_rules k gni ad (sk_thread_data s))"
  shows "(sk_connect k gni ad aborted random c_tcp c_ad [] s = Some (Inr (), rules', s') \<longrightarrow>
      \<not> in_state SYN_SENT s' \<or> aborted (kern s') \<or> device \<notin> set rules')
    \<and> (listen_and_accept k gni ad aborted random c_tcp c_ad [] s = Some (Inr (), rules', s') \<longrightarrow>
      \<not> in_state LISTEN s' \<and> \<not> in_state SYN_RCVD s' \<and> \<not> in_state SYN_SENT s' \<or> aborted (kern s') \<or> device \<notin> set rules')"
proof (intro conjI impI)
  obtain rules0 s0 where init: "initialize_TCP k gni ad c_tcp random ([], s) = (rules0, s0)" by fastforce
  note sub = initialize_rules_new [OF init]
  assume "sk_connect k gni ad aborted random c_tcp c_ad [] s = Some (Inr (), rules', s')"
  then obtain s1 where "tcp_loop k ad aborted (in_state SYN_SENT) rules0 s1 = Some (Inr (), rules', s')"
    using init by (auto simp: sk_connect_def Let_def split: if_splits sum.splits)
  then show "\<not> in_state SYN_SENT s' \<or> aborted (kern s') \<or> device \<notin> set rules'"
    using tcp_loop_waits [of k ad aborted "{SYN_SENT}" rules0 s1 rules' s', OF _ assms(1) sub] by (simp add: device_def)
next
  obtain rules0 s0 where init: "initialize_TCP k gni ad c_tcp random ([], s) = (rules0, s0)" by fastforce
  note sub = initialize_rules_new [OF init]
  assume "listen_and_accept k gni ad aborted random c_tcp c_ad [] s = Some (Inr (), rules', s')"
  then obtain s1 where "tcp_loop k ad aborted (\<lambda>s. in_state LISTEN s \<or> in_state SYN_RCVD s \<or> in_state SYN_SENT s) rules0 s1
      = Some (Inr (), rules', s')"
    using init by (auto simp: listen_and_accept_def Let_def split: if_splits option.splits sum.splits)
  then show "\<not> in_state LISTEN s' \<and> \<not> in_state SYN_RCVD s' \<and> \<not> in_state SYN_SENT s' \<or> aborted (kern s') \<or> device \<notin> set rules'"
    using tcp_loop_waits [of k ad aborted "{LISTEN, SYN_RCVD, SYN_SENT}" rules0 s1 rules' s', OF _ assms(1) sub] by (simp add: device_def)
qed

text \<open>
  A system in which every polled descriptor has been hung up, and a socket whose owner has nothing to send: \<open>connect\<close> returns, because the device
  is gone.
\<close>

definition hup_kernel :: "byte list kernel" where
  "hup_kernel = failing_kernel\<lparr>k_poll := \<lambda>ps t w. ((1, 0, \<lambda>_. POLLHUP), w)\<rparr>"

lemma hup_poll: "k_poll hup_kernel ps t w = ((1, 0, \<lambda>_. POLLHUP), w)" "k_timestamp_ms hup_kernel w = (0, w)"
  by (simp_all add: hup_kernel_def failing_kernel_def)

definition idle_inbound :: "TCPConnection \<Rightarrow> bool" where
  "idle_inbound c \<longleftrightarrow> buffer_empty (inbound_stream c) \<and> \<not> input_ended (inbound_stream c) \<and> \<not> stream_error (inbound_stream c)"

lemma hup_round:
  fixes s :: "(byte list, 'a) sponge"
  assumes "sk_tcp s = Some c" "active c" "cn_segments_out c \<noteq> []" "idle_inbound c" "sk_outbound_shutdown s"
    "\<not> fd_eof (da_fd ad) s" "\<not> fd_closed (da_fd ad) s" "\<not> fd_eof td s" "\<not> fd_closed td s" "da_fd ad \<noteq> td" "da_fd ad < length (wrappers s)"
  shows "\<exists>s'. wait_next_event hup_kernel 10 (socket_rules hup_kernel gni ad td) s = (Inr Success, take 2 (tl (socket_rules hup_kernel gni ad td)), s')
    \<and> sk_tcp s' = Some c \<and> sk_outbound_shutdown s' \<and> \<not> fd_eof td s' \<and> \<not> fd_closed td s'"
proof -
  define s1 where "s1 = FileDescriptor_destroy hup_kernel (da_fd ad) s"
  define s2 where "s2 = FileDescriptor_destroy hup_kernel (da_fd ad) s1"
  have f1: "frame (da_fd ad) s s1" unfolding s1_def using assms(11) by (rule FileDescriptor_destroy_frame)
  have "frame (da_fd ad) s1 s2" unfolding s2_def using assms(11) frame_length [OF f1] by (intro FileDescriptor_destroy_frame) simp
  with f1 have f: "frame (da_fd ad) s s2" by (rule frame_trans)
  have "sk_tcp s2 = Some c \<and> sk_outbound_shutdown s2 \<and> \<not> fd_eof td s2 \<and> \<not> fd_closed td s2"
    using f assms(1,5,8,9,10) confined_sponge [of s s2] by (simp add: frame_def fd_eof_def fd_closed_def)
  moreover have "wait_next_event hup_kernel 10 (socket_rules hup_kernel gni ad td) s
      = (Inr Success, take 2 (tl (socket_rules hup_kernel gni ad td)), s2)"
    using assms
    by (simp add: wait_next_event_def socket_rules_def interest2_def interest3_def tcp_of_def ByteStream_eof_def Let_def to_int_def idle_inbound_def
        SystemCall_def set_revents_def hup_poll POLLHUP_def POLLIN_def POLLOUT_def POLLERR_def POLLNVAL_def drop_rule_def seq_def
        ret_def change_def flip: s1_def s2_def)
  ultimately show ?thesis by blast
qed

lemma hup_exit:
  assumes "sk_tcp s = Some c" "idle_inbound c" "sk_outbound_shutdown s" "\<not> fd_eof td s" "\<not> fd_closed td s"
  shows "wait_next_event k 10 (take 2 (tl (socket_rules k gni ad td))) s = (Inr Exit, take 2 (tl (socket_rules k gni ad td)), s)"
  using assms by (simp add: wait_next_event_def socket_rules_def interest2_def interest3_def tcp_of_def ByteStream_eof_def idle_inbound_def Let_def)

definition wit_config :: TCPConfig where
  "wit_config = TCPConfig_new\<lparr>fixed_isn := Some (WrappingInt32 5)\<rparr>"

lemma wit_calling:
  "active (connect (TCPConnection_new wit_config 7))" "cn_segments_out (connect (TCPConnection_new wit_config 7)) \<noteq> []"
  "idle_inbound (connect (TCPConnection_new wit_config 7))" "idle_inbound (cn_tick 0 (connect (TCPConnection_new wit_config 7)))"
  by (simp_all add: wit_config_def cn_eval idle_inbound_def inbound_stream_def stream_error_def buffer_empty_def sz_def cn_tick_def snd_tick_def passTime_def
      consecutive_retransmissions_def TIMEOUT_DFLT_def MAX_RETX_ATTEMPTS_def)


lemma hup_loop:
  fixes s :: "(byte list, 'a) sponge"
  assumes "sk_tcp s = Some (connect (TCPConnection_new wit_config 7))" "in_state SYN_SENT s" "sk_outbound_shutdown s"
    "\<not> fd_eof (da_fd ad) s" "\<not> fd_closed (da_fd ad) s" "\<not> fd_eof td s" "\<not> fd_closed td s" "da_fd ad \<noteq> td" "da_fd ad < length (wrappers s)"
  shows "\<exists>rules' s'. tcp_loop hup_kernel ad (\<lambda>_. False) (in_state SYN_SENT) (socket_rules hup_kernel gni ad td) s = Some (Inr (), rules', s')"
proof -
  let ?c = "connect (TCPConnection_new wit_config 7)" and ?rest = "take 2 (tl (socket_rules hup_kernel gni ad td))"
  obtain s1 where w: "wait_next_event hup_kernel 10 (socket_rules hup_kernel gni ad td) s = (Inr Success, ?rest, s1)"
    and s1: "sk_tcp s1 = Some ?c" "sk_outbound_shutdown s1" "\<not> fd_eof td s1" "\<not> fd_closed td s1"
    using hup_round [OF assms(1) wit_calling(1-3) assms(3-9)] by blast
  define s2 where "s2 = (on_tcp (cn_tick 0) s1)\<lparr>sk_adapter := da_tick ad 0 (sk_adapter s1)\<rparr>"
  have s2: "sk_tcp s2 = Some (cn_tick 0 ?c)" "sk_outbound_shutdown s2" "\<not> fd_eof td s2" "\<not> fd_closed td s2"
    using s1 by (simp_all add: s2_def on_tcp_def fd_eof_def fd_closed_def)
  have "tcp_loop hup_kernel ad (\<lambda>_. False) (in_state SYN_SENT) (socket_rules hup_kernel gni ad td) s
      = tcp_loop_from hup_kernel ad (\<lambda>_. False) (in_state SYN_SENT) 0 ?rest s2"
    unfolding tcp_loop_def using assms(2) w s1(1) wit_calling(1)
    by (subst tcp_loop_from.simps) (simp add: hup_poll tcp_of_def s2_def on_tcp_def)
  also have "\<dots> = Some (Inr (), ?rest, s2)"
    using hup_exit [OF s2(1) wit_calling(4) s2(2-4), of hup_kernel gni ad] by (subst tcp_loop_from.simps) simp
  finally show ?thesis by blast
qed

theorem connect_and_accept_wait_witness:
  "\<exists>rules' s'. sk_connect hup_kernel numeric_gni (tun_adapter hup_kernel numeric_gai numeric_gni 1) (\<lambda>_. False) 7 wit_config
       (ad_cfg (wit_ad 1 2 3 4)) [] (wit_sponge\<lparr>sk_tcp := None, sk_outbound_shutdown := True\<rparr>) = Some (Inr (), rules', s')
     \<and> (\<not> in_state SYN_SENT s' \<or> hd (socket_rules hup_kernel numeric_gni (tun_adapter hup_kernel numeric_gai numeric_gni 1) 0) \<notin> set rules')"
proof -
  let ?s = "wit_sponge\<lparr>sk_tcp := None, sk_outbound_shutdown := True\<rparr>" and ?ad = "tun_adapter hup_kernel numeric_gai numeric_gni 1"
  let ?c = "connect (TCPConnection_new wit_config 7)"
  obtain rules0 s0 where init: "initialize_TCP hup_kernel numeric_gni ?ad wit_config 7 ([], ?s) = (rules0, s0)" by fastforce
  have r: "rules0 = socket_rules hup_kernel numeric_gni ?ad 0"
    using initialize_rules [of hup_kernel numeric_gni ?ad wit_config 7 "[]" ?s] init by (simp add: wit_sponge_def)
  define s1 where "s1 = on_tcp connect (s0\<lparr>sk_adapter := da_set_config ?ad (ad_cfg (wit_ad 1 2 3 4)) (sk_adapter s0)\<rparr>)"
  have d: "da_fd (tun_adapter hup_kernel numeric_gai numeric_gni t) = t" for t by (simp add: tun_adapter_def)
  have s1: "sk_tcp s1 = Some ?c" "sk_outbound_shutdown s1" "\<not> fd_eof (da_fd ?ad) s1" "\<not> fd_closed (da_fd ?ad) s1"
    "\<not> fd_eof 0 s1" "\<not> fd_closed 0 s1" "da_fd ?ad \<noteq> 0" "da_fd ?ad < length (wrappers s1)"
    using init unfolding d
    by (auto simp: s1_def initialize_TCP_def add_rule_def duplicate_def on_wrapper_def on_tcp_def wit_sponge_def wit_wrapper_def fd_eof_def fd_closed_def d
        Let_def)
  have st: "in_state SYN_SENT s1"
    using s1(1) opened_state(1) [OF connect_step(1) [of wit_config 7]] by (simp add: in_state_def tcp_of_def TCPState_eq_iff)
  have "addr_to_string numeric_gni (destination (ad_cfg (wit_ad 1 2 3 4))) = Inr (inet_ntoa 3 @ '':'' @ to_string (unat (4 :: u16)))"
    by (simp add: wit_ad_def addr_to_string_def resolver_laws(2) [OF numeric_resolver_exists])
  then have "sk_connect hup_kernel numeric_gni ?ad (\<lambda>_. False) 7 wit_config (ad_cfg (wit_ad 1 2 3 4)) [] ?s
      = tcp_loop hup_kernel ?ad (\<lambda>_. False) (in_state SYN_SENT) rules0 s1"
    using init st by (simp add: sk_connect_def Let_def s1_def)
  then obtain rules' s' where
    e: "sk_connect hup_kernel numeric_gni ?ad (\<lambda>_. False) 7 wit_config (ad_cfg (wit_ad 1 2 3 4)) [] ?s = Some (Inr (), rules', s')"
    using hup_loop [OF s1(1) st s1(2-8)] unfolding r by metis
  have "uninterrupted hup_kernel" by (simp add: uninterrupted_def hup_poll to_int_def)
  from connect_and_accept_wait [OF this, of numeric_gni ?ad "\<lambda>_. False" 7 wit_config "ad_cfg (wit_ad 1 2 3 4)" ?s] e
  show ?thesis by (auto simp: wit_sponge_def)
qed

section \<open>A reset that is not sent\<close>

text \<open>
  The header says that a connected socket that is destructed sends a RST. When the owner's destructor has set \<open>_abort\<close>, the loop ends and
  \<open>_tcp.reset()\<close> queues the RST in a connection that is then gone: the last thing that reaches the
  system is the shutdown of the owner's descriptor.
\<close>

lemma reset_not_sent:
  assumes "sk_tcp s \<noteq> None" and "tcp_loop k ad aborted (\<lambda>_. True) rules s = Some (Inr (), rules', s1)"
    and "sk_tcp s1 = Some c" and "active c" and "Socket_shutdown k (sk_owner s1) SHUT_RDWR s1 = (Inr (), s2)"
  shows "tcp_main k ad aborted rules s = Some (Inr (), rules', s2\<lparr>sk_tcp := None\<rparr>)"
    and "\<exists>seg \<in> set (cn_segments_out (TCPConnection_destroy c)). rst (header seg)"
proof -
  show "tcp_main k ad aborted rules s = Some (Inr (), rules', s2\<lparr>sk_tcp := None\<rparr>)"
    using assms by (simp add: tcp_main_def on_tcp_def)
  have "to_send (sender c) \<noteq> []" by (simp add: to_send_def)
  then show "\<exists>seg \<in> set (cn_segments_out (TCPConnection_destroy c)). rst (header seg)"
    using assms(4) by (cases "to_send (sender c)") (auto simp: TCPConnection_destroy_def sendseg_out stamp_def)
qed

end
