(* ===== verification/Stream_Copy.thy ===== *)
theory Stream_Copy
  imports Sponge_Socket
begin

text \<open>
  \<^verbatim>\<open>apps/bidirectional_stream_copy.cc\<close>: the loop of the applications, which copies standard input to a socket and the socket
  to standard output through two byte streams. The state extends that of the files by the local variables of the
  function. The two directions have the same text but for the descriptors and for how the end is passed on, so
  their rules are two definitions with the direction as argument.
\<close>

section \<open>Model\<close>

datatype way = Outbound | Inbound

record 'w copying = "'w sys" +
  cp_stream :: "way \<Rightarrow> ByteStream"
  cp_shutdown :: "way \<Rightarrow> bool"

definition max_copy_length :: u64 where
  "max_copy_length = 65536"

definition copy_buffer_size :: u64 where
  "copy_buffer_size = 1048576"

definition STDIN_FILENO :: int where "STDIN_FILENO = 0"
definition STDOUT_FILENO :: int where "STDOUT_FILENO = 1"

definition on_stream :: "way \<Rightarrow> (ByteStream \<Rightarrow> ByteStream) \<Rightarrow> 'w copying \<Rightarrow> 'w copying" where
  "on_stream w f s = s\<lparr>cp_stream := (cp_stream s)(w := f (cp_stream s w))\<rparr>"

fun opposite :: "way \<Rightarrow> way" where
  "opposite Outbound = Inbound"
| "opposite Inbound = Outbound"

text \<open>Rules 1 and 3: from a descriptor into the stream.\<close>

definition read_rule :: "'w kernel \<Rightarrow> way \<Rightarrow> nat \<Rightarrow> (unit, 'w copying) prog" where
  "read_rule k w d s =
     seq (FileDescriptor_read k d (remaining_capacity (cp_stream s w))) (\<lambda>data.
     seq (change (on_stream w (\<lambda>b. fst (ByteStream_write b data)))) (\<lambda>_.
       change (\<lambda>s. if fd_eof d s then on_stream w end_input s else s))) s"

definition read_interest :: "way \<Rightarrow> 'w copying \<Rightarrow> bool" where
  "read_interest w s \<longleftrightarrow> \<not> stream_error (cp_stream s w) \<and> 0 < remaining_capacity (cp_stream s w)
     \<and> \<not> stream_error (cp_stream s (opposite w))"

text \<open>Rules 2 and 4: from the stream to a descriptor; at the end of the stream the descriptor is finished.\<close>

definition write_rule :: "'w kernel \<Rightarrow> way \<Rightarrow> nat \<Rightarrow> (unit, 'w copying) prog \<Rightarrow> (unit, 'w copying) prog" where
  "write_rule k w d finishing s =
     (let bytes_to_write = min max_copy_length (buffer_size (cp_stream s w))
      in seq (FileDescriptor_write k d [peek_output (cp_stream s w) bytes_to_write] False) (\<lambda>bytes_written.
         seq (change (on_stream w (\<lambda>b. pop_output b bytes_written))) (\<lambda>_ s.
           if ByteStream_eof (cp_stream s w)
           then seq finishing (\<lambda>_. change (\<lambda>s. s\<lparr>cp_shutdown := (cp_shutdown s)(w := True)\<rparr>)) s
           else (Inr (), s))) s)"

definition write_interest :: "way \<Rightarrow> 'w copying \<Rightarrow> bool" where
  "write_interest w s \<longleftrightarrow> \<not> buffer_empty (cp_stream s w) \<or> ByteStream_eof (cp_stream s w) \<and> \<not> cp_shutdown s w"

text \<open>The four rules, in the order they are added.\<close>

definition add_copy_rules ::
    "'w kernel \<Rightarrow> nat \<Rightarrow> nat \<Rightarrow> nat \<Rightarrow> 'w copying \<Rightarrow> 'w copying Rule list \<times> 'w copying" where
  "add_copy_rules k input output socket s =
     add_rule output Out (write_rule k Inbound output (FileDescriptor_close k output)) (write_interest Inbound)
       (change (on_stream Inbound set_error))
     (add_rule socket In (read_rule k Inbound socket) (read_interest Inbound) (change (on_stream Inbound end_input))
     (add_rule socket Out (write_rule k Outbound socket (Socket_shutdown k socket SHUT_WR)) (write_interest Outbound)
       (change (on_stream Outbound set_error))
     (add_rule input In (read_rule k Outbound input) (read_interest Outbound) (change (on_stream Outbound end_input)) ([], s))))"

partial_function (option) copy_loop ::
    "'w kernel \<Rightarrow> 'w copying Rule list \<Rightarrow> 'w copying \<Rightarrow> ((exn + unit) \<times> 'w copying Rule list \<times> 'w copying) option" where
  "copy_loop k rules s =
     (case wait_next_event k (- 1) rules s of
        (Inl e, rules, s) \<Rightarrow> Some (Inl e, rules, s)
      | (Inr r, rules, s) \<Rightarrow> if r = Exit then Some (Inr (), rules, s) else copy_loop k rules s)"

text \<open>
  The variables of the function are made, the descriptors are set not to block; when the function is left, the
  descriptors it made and those of the rules are destroyed.
\<close>

definition copy_setup :: "'w kernel \<Rightarrow> nat \<Rightarrow> (nat \<times> nat, 'w copying) prog" where
  "copy_setup k socket =
     seq (FileDescriptor_new STDIN_FILENO) (\<lambda>input.
     seq (FileDescriptor_new STDOUT_FILENO) (\<lambda>output.
     seq (change (\<lambda>s. s\<lparr>cp_stream := \<lambda>_. ByteStream_new copy_buffer_size, cp_shutdown := \<lambda>_. False\<rparr>)) (\<lambda>_.
       or_destroy k input (or_destroy k output
         (seq (set_blocking k socket False) (\<lambda>_.
          seq (set_blocking k input False) (\<lambda>_.
          seq (set_blocking k output False) (\<lambda>_. ret (input, output)))))))))"

definition destroy_rules :: "'w kernel \<Rightarrow> 'w copying Rule list \<Rightarrow> 'w copying \<Rightarrow> 'w copying" where
  "destroy_rules k rules = fold (\<lambda>r. FileDescriptor_destroy k (rule_fd r)) rules"

definition bidirectional_stream_copy :: "'w kernel \<Rightarrow> nat \<Rightarrow> 'w copying \<Rightarrow> ((exn + unit) \<times> 'w copying) option" where
  "bidirectional_stream_copy k socket s =
     (case copy_setup k socket s of
        (Inl e, s) \<Rightarrow> Some (Inl e, s)
      | (Inr (input, output), s) \<Rightarrow>
          let (rules, s) = add_copy_rules k input output socket s
          in map_option (\<lambda>(res, rules, s).
               (res, destroy_rules k rules (FileDescriptor_destroy k input (FileDescriptor_destroy k output s))))
             (copy_loop k rules s))"

section \<open>What the system promises\<close>

text \<open>
  \<open>read\<close> on a descriptor fails with an error number, or stores at most as many bytes as were asked for; \<open>got\<close> is what
  it has handed out. An observation of the system is changed only by reading and writing certain descriptors.
\<close>

definition reader :: "'w kernel \<Rightarrow> int \<Rightarrow> ('w \<Rightarrow> byte list) \<Rightarrow> bool" where
  "reader k fd got \<longleftrightarrow> (\<forall>n w. case k_read k fd n w of ((r, errno, data), w') \<Rightarrow>
     - 1 \<le> r \<and> r \<le> uint n \<and> (r < 0 \<longrightarrow> errno \<noteq> 0) \<and> length data = nat r \<and> got w' = got w @ data)"

definition changed_by :: "'w kernel \<Rightarrow> int set \<Rightarrow> int set \<Rightarrow> ('w \<Rightarrow> 'b) \<Rightarrow> bool" where
  "changed_by k rd wr obs \<longleftrightarrow>
     (\<forall>f n w. f \<notin> rd \<longrightarrow> obs (snd (k_read k f n w)) = obs w) \<and> (\<forall>f b w. f \<notin> wr \<longrightarrow> obs (snd (k_writev k f b w)) = obs w)
     \<and> (\<forall>f w. obs (snd (k_close k f w)) = obs w) \<and> (\<forall>p t w. obs (snd (k_poll k p t w)) = obs w)
     \<and> (\<forall>f h w. obs (snd (k_shutdown k f h w)) = obs w)
     \<and> (\<forall>f w. obs (snd (k_getfl k f w)) = obs w) \<and> (\<forall>f x w. obs (snd (k_setfl k f x w)) = obs w)"

fun source_fd :: "int \<Rightarrow> way \<Rightarrow> int" where
  "source_fd fd Outbound = STDIN_FILENO"
| "source_fd fd Inbound = fd"

fun sink_fd :: "int \<Rightarrow> way \<Rightarrow> int" where
  "sink_fd fd Outbound = fd"
| "sink_fd fd Inbound = STDOUT_FILENO"

definition copy_system :: "'w kernel \<Rightarrow> int \<Rightarrow> (way \<Rightarrow> 'w \<Rightarrow> byte list) \<Rightarrow> (way \<Rightarrow> 'w \<Rightarrow> byte list) \<Rightarrow> bool" where
  "copy_system k fd got out \<longleftrightarrow> fd \<noteq> STDIN_FILENO \<and> fd \<noteq> STDOUT_FILENO
     \<and> (\<forall>w. reader k (source_fd fd w) (got w) \<and> changed_by k {source_fd fd w} {} (got w)
          \<and> writer k (sink_fd fd w) (out w) \<and> changed_by k {} {sink_fd fd w} (out w))"

section \<open>One call of read\<close>

lemma reader_result:
  assumes "reader k (fd_num d s) got" and "FileDescriptor_read k d limit s = (r, s')"
  obtains (error) e where "r = Inl e" "got (kern s') = got (kern s)"
    | (data) data where "r = Inr data" "got (kern s') = got (kern s) @ data" "length data \<le> unat limit"
proof -
  let ?n = "min READ_BUFFER_SIZE limit"
  obtain v errno bytes w' where c: "k_read k (fd_num d s) ?n (kern s) = ((v, errno, bytes), w')" by (metis prod.exhaust)
  have h: "- 1 \<le> v" "v \<le> uint ?n" "v < 0 \<longrightarrow> errno \<noteq> 0" "length bytes = nat v" "got w' = got (kern s) @ bytes"
    using assms(1) [unfolded reader_def, rule_format, of ?n "kern s"] c by simp_all
  have n: "uint ?n \<le> 1048576" "uint ?n \<le> uint limit" by (simp_all add: READ_BUFFER_SIZE_def min_def word_le_def word_less_def)
  have t: "to_int v = v" using h(1,2) n(1) by (intro to_int_id) linarith+
  have k: "kern s' = w'" using FileDescriptor_read_kern [OF assms(2)] c by simp
  have sc: "system_call ''read'' (\<lambda>s. k_read k (fd_num d s) ?n) s
      = (if v < 0 then Inl (unix_error ''read'' errno) else Inr (v, bytes), s\<lparr>kern := w'\<rparr>)"
    using c t h(3) by (simp add: system_call_def SystemCall_def)
  have sn: "sint ?n = uint ?n"
    using n(1) signed_take_bit_int_eq_self [of 63 "uint ?n"] unsigned_greater_eq [of ?n, where 'a = int] by (simp add: sint_uint)
  show thesis
  proof (cases "v < 0")
    case True
    then have "r = Inl (unix_error ''read'' errno)"
      using assms(2) sc by (simp add: FileDescriptor_read_def Let_def seq_def)
    then show thesis using error True h k by simp
  next
    case False
    have "r = Inr (resize (bytes @ replicate (unat ?n - length bytes) 0) (nat v))"
      using assms(2) sc False h(2) sn by (simp add: FileDescriptor_read_def Let_def prog_defs)
    moreover have "resize (bytes @ replicate (unat ?n - length bytes) 0) (nat v) = bytes" using h(4) by (simp add: resize_def)
    moreover have "length bytes \<le> unat limit" using h(2,4) n(2) nat_mono [of v "uint limit"] by simp
    ultimately show thesis using data h k by simp
  qed
qed

lemma write_loop_eof:
  "write_loop k d write_all buffer t s = (r, s') \<Longrightarrow> d < length (wrappers s) \<Longrightarrow> fd_eof e s' = fd_eof e s"
proof (induction k d write_all buffer t s arbitrary: r s' rule: write_loop.induct)
  case (1 k d write_all buffer t s)
  obtain rc s1 where c: "system_call ''writev'' (\<lambda>s. k_writev k (fd_num d s) buffer) s = (rc, s1)" by fastforce
  have w: "wrappers s1 = wrappers s" using system_call_simps [OF c] by simp
  have g: "fd_eof e s1 = fd_eof e s" "fd_eof e (register_write d s1) = fd_eof e s" "d < length (wrappers (register_write d s1))"
    using "1.prems"(2) w by (simp_all add: fd_eof_def register_write_def)
  note IH = "1.IH" [OF c [symmetric] _ _ _ _ refl _ refl _ _ g(3)]
  show ?case
    using "1.prems"(1) c g IH
    unfolding write_loop.simps [of k d write_all buffer t s]
    by (auto simp: Let_def split: sum.splits prod.splits if_splits)
qed

lemma FileDescriptor_write_eof:
  "FileDescriptor_write k d buffer write_all s = (r, s') \<Longrightarrow> d < length (wrappers s) \<Longrightarrow> fd_eof e s' = fd_eof e s"
  by (simp add: FileDescriptor_write_def write_loop_eof)

section \<open>Observations\<close>

lemma changed_by_ops:
  assumes "changed_by k rd wr obs"
  shows "FileDescriptor_read k d n s = (r, s') \<Longrightarrow> fd_num d s \<notin> rd \<Longrightarrow> obs (kern s') = obs (kern s)"
    and "FileDescriptor_write k d b a s = (x, s') \<Longrightarrow> d < length (wrappers s) \<Longrightarrow> fd_num d s \<notin> wr \<Longrightarrow> obs (kern s') = obs (kern s)"
    and "obs (kern (snd (FDWrapper_close k d s))) = obs (kern s)"
    and "obs (kern (FileDescriptor_destroy k d s)) = obs (kern s)"
    and "Socket_shutdown k d h s = (y, s') \<Longrightarrow> obs (kern s') = obs (kern s)"
    and "k_poll k ps t w = (z, w') \<Longrightarrow> obs w' = obs w"
proof -
  note c = assms [unfolded changed_by_def]
  show "FileDescriptor_read k d n s = (r, s') \<Longrightarrow> fd_num d s \<notin> rd \<Longrightarrow> obs (kern s') = obs (kern s)"
    using c by (simp add: FileDescriptor_read_kern)
  show "obs (kern s') = obs (kern s)"
    if w: "FileDescriptor_write k d b a s = (x, s')" and d: "d < length (wrappers s)" and n: "fd_num d s \<notin> wr"
    using w unfolding FileDescriptor_write_def
    by (rule write_loop_kern [where Q = "\<lambda>w. obs w = obs (kern s)", OF _ d refl]) (use c n in simp)
  show "obs (kern (snd (FDWrapper_close k d s))) = obs (kern s)" for s :: "('a, 'c) sys_scheme"
    using c by (simp add: FDWrapper_close_kern)
  then show "obs (kern (FileDescriptor_destroy k d s)) = obs (kern s)"
    by (simp add: FileDescriptor_destroy_def FDWrapper_destroy_def Let_def)
  show "Socket_shutdown k d h s = (y, s') \<Longrightarrow> obs (kern s') = obs (kern s)"
    using c by (simp add: Socket_shutdown_kern)
  show "k_poll k ps t w = (z, w') \<Longrightarrow> obs w' = obs w" using c by (metis snd_conv)
qed

definition same_fds :: "('w, 'x) sys_scheme \<Rightarrow> ('w, 'x) sys_scheme \<Rightarrow> bool" where
  "same_fds s s' \<longleftrightarrow> length (wrappers s') = length (wrappers s) \<and> (\<forall>e. fd_num e s' = fd_num e s)"

lemma same_fds_frame: "frame d s s' \<Longrightarrow> same_fds s s'"
  by (simp add: same_fds_def frame_length frame_fd_num)

lemma same_fds_simps [simp]:
  "same_fds s s" "same_fds s (on_stream w f s)" "same_fds s (s\<lparr>kern := x\<rparr>)" "same_fds s (s\<lparr>cp_shutdown := g\<rparr>)"
  by (simp_all add: same_fds_def on_stream_def fd_num_def)

lemma same_fds_trans: "same_fds s s' \<Longrightarrow> same_fds s' s'' \<Longrightarrow> same_fds s s''"
  by (simp add: same_fds_def)

lemma confined_copying: "confined s s' \<Longrightarrow> cp_stream s' = cp_stream s \<and> cp_shutdown s' = cp_shutdown s"
  by (cases s; cases s'; simp add: confined_def)

lemma on_stream_simps [simp]:
  "kern (on_stream w f s) = kern s" "wrappers (on_stream w f s) = wrappers s"
  "cp_stream (on_stream w f s) v = (if v = w then f (cp_stream s w) else cp_stream s v)" "cp_shutdown (on_stream w f s) = cp_shutdown s"
  by (simp_all add: on_stream_def)

section \<open>The invariant of the copy\<close>

text \<open>
  In each direction what has been read from the source is what has been written to the sink, followed by what the
  stream holds.
\<close>

definition copied :: "(way \<Rightarrow> 'w \<Rightarrow> byte list) \<Rightarrow> (way \<Rightarrow> 'w \<Rightarrow> byte list) \<Rightarrow> (way \<Rightarrow> byte list) \<Rightarrow> (way \<Rightarrow> byte list) \<Rightarrow> way \<Rightarrow> 'w copying \<Rightarrow> bool" where
  "copied got out got0 out0 w s \<longleftrightarrow> bs_inv (cp_stream s w)
     \<and> (\<exists>moved. got w (kern s) = got0 w @ moved @ bs_buf (cp_stream s w) \<and> out w (kern s) = out0 w @ moved)"

fun source_of :: "nat \<Rightarrow> nat \<Rightarrow> way \<Rightarrow> nat" where
  "source_of input socket Outbound = input"
| "source_of input socket Inbound = socket"

fun sink_of :: "nat \<Rightarrow> nat \<Rightarrow> way \<Rightarrow> nat" where
  "sink_of output socket Outbound = socket"
| "sink_of output socket Inbound = output"

definition copy_fds :: "int \<Rightarrow> nat \<Rightarrow> nat \<Rightarrow> nat \<Rightarrow> 'w copying \<Rightarrow> bool" where
  "copy_fds fd input output socket s \<longleftrightarrow> (\<forall>w. source_of input socket w < length (wrappers s) \<and> sink_of output socket w < length (wrappers s)
     \<and> fd_num (source_of input socket w) s = source_fd fd w \<and> fd_num (sink_of output socket w) s = sink_fd fd w)"

definition copy_inv ::
    "'w kernel \<Rightarrow> int \<Rightarrow> nat \<Rightarrow> nat \<Rightarrow> nat \<Rightarrow> (way \<Rightarrow> 'w \<Rightarrow> byte list) \<Rightarrow> (way \<Rightarrow> 'w \<Rightarrow> byte list)
     \<Rightarrow> (way \<Rightarrow> byte list) \<Rightarrow> (way \<Rightarrow> byte list) \<Rightarrow> 'w copying \<Rightarrow> bool" where
  "copy_inv k fd input output socket got out got0 out0 s \<longleftrightarrow> copy_system k fd got out \<and> copy_fds fd input output socket s
     \<and> (\<forall>w. copied got out got0 out0 w s)"

lemma copy_system_laws:
  assumes "copy_system k fd got out"
  shows "reader k (source_fd fd w) (got w)" "changed_by k {source_fd fd w} {} (got w)"
    "writer k (sink_fd fd w) (out w)" "changed_by k {} {sink_fd fd w} (out w)"
    "source_fd fd v = source_fd fd w \<longleftrightarrow> v = w" "sink_fd fd v = sink_fd fd w \<longleftrightarrow> v = w"
proof -
  show "reader k (source_fd fd w) (got w)" "changed_by k {source_fd fd w} {} (got w)"
    "writer k (sink_fd fd w) (out w)" "changed_by k {} {sink_fd fd w} (out w)"
    using assms unfolding copy_system_def by blast+
  have "fd \<noteq> STDIN_FILENO" "fd \<noteq> STDOUT_FILENO" using assms by (simp_all add: copy_system_def)
  then show "source_fd fd v = source_fd fd w \<longleftrightarrow> v = w" "sink_fd fd v = sink_fd fd w \<longleftrightarrow> v = w"
    by (cases v; cases w; simp)+
qed

lemma copied_same:
  assumes "copied got out got0 out0 w s" and "got w (kern s') = got w (kern s)" and "out w (kern s') = out w (kern s)"
    and "bs_buf (cp_stream s' w) = bs_buf (cp_stream s w)" and "bs_inv (cp_stream s' w)"
  shows "copied got out got0 out0 w s'"
  using assms by (simp add: copied_def)

lemma copy_inv_same:
  assumes "copy_inv k fd i ou so got out got0 out0 s" and "same_fds s s'"
    and "\<And>w. got w (kern s') = got w (kern s)" and "\<And>w. out w (kern s') = out w (kern s)"
    and "\<And>w. bs_buf (cp_stream s' w) = bs_buf (cp_stream s w) \<and> (bs_inv (cp_stream s w) \<longrightarrow> bs_inv (cp_stream s' w))"
  shows "copy_inv k fd i ou so got out got0 out0 s'"
  using assms by (auto simp: copy_inv_def copy_fds_def same_fds_def copied_def)

lemma copied_read:
  assumes "copied got out got0 out0 w s" and "got w (kern s') = got w (kern s) @ data" and "out w (kern s') = out w (kern s)"
    and "cp_stream s' w = fst (ByteStream_write (cp_stream s w) data)" and "length data \<le> unat (remaining_capacity (cp_stream s w))"
  shows "copied got out got0 out0 w s'"
proof -
  have b: "bs_inv (cp_stream s w)" using assms(1) by (simp add: copied_def)
  have f: "fits data" using assms(5) unat_u64_less [of "remaining_capacity (cp_stream s w)"] by (simp add: fits_def)
  have "bs_buf (cp_stream s' w) = bs_buf (cp_stream s w) @ data"
    using assms(4,5) b f write_buf [OF b f] by (simp add: room_def)
  then show ?thesis using assms bs_inv_write [OF b f] by (auto simp: copied_def)
qed

lemma copied_write:
  assumes "copied got out got0 out0 w s" and "got w (kern s') = got w (kern s)"
    and "out w (kern s') = out w (kern s) @ take m (bs_buf (cp_stream s w))" and "unat n = m" "m \<le> length (bs_buf (cp_stream s w))"
    and "cp_stream s' w = pop_output (cp_stream s w) n"
  shows "copied got out got0 out0 w s'"
proof -
  obtain moved where m: "got w (kern s) = got0 w @ moved @ bs_buf (cp_stream s w)" "out w (kern s) = out0 w @ moved"
    and b: "bs_inv (cp_stream s w)" using assms(1) by (auto simp: copied_def)
  have "got w (kern s') = got0 w @ (moved @ take m (bs_buf (cp_stream s w))) @ bs_buf (cp_stream s' w)"
    using assms m by simp
  then show ?thesis using assms m bs_inv_pop [OF b, of n] unfolding copied_def by (metis append.assoc)
qed

lemma copy_inv_laws:
  assumes "copy_inv k fd i ou so got out got0 out0 s"
  shows "copy_system k fd got out" "source_of i so w < length (wrappers s)" "sink_of ou so w < length (wrappers s)"
    "fd_num (source_of i so w) s = source_fd fd w" "fd_num (sink_of ou so w) s = sink_fd fd w" "copied got out got0 out0 w s"
  using assms by (auto simp: copy_inv_def copy_fds_def)

lemma copy_invI:
  assumes "copy_inv k fd i ou so got out got0 out0 s" and "same_fds s s'" and "\<And>w. copied got out got0 out0 w s'"
  shows "copy_inv k fd i ou so got out got0 out0 s'"
  using assms by (auto simp: copy_inv_def copy_fds_def same_fds_def)

lemma copy_inv_flags:
  assumes "copy_inv k fd i ou so got out got0 out0 s"
  shows "copy_inv k fd i ou so got out got0 out0 (on_stream w end_input s)" "copy_inv k fd i ou so got out got0 out0 (on_stream w set_error s)"
    "copy_inv k fd i ou so got out got0 out0 (s\<lparr>cp_shutdown := g\<rparr>)"
  by (rule copy_inv_same [OF assms]; simp)+

lemma read_rule_keeps:
  assumes i: "copy_inv k fd i ou so got out got0 out0 s" and r: "read_rule k w (source_of i so w) s = (r, s')"
  shows "copy_inv k fd i ou so got out got0 out0 s'"
proof -
  let ?d = "source_of i so w"
  note l = copy_inv_laws [OF i] and y = copy_system_laws [OF copy_inv_laws(1) [OF i]]
  have f: "frame ?d s s1" "cp_stream s1 = cp_stream s" "\<And>v. out v (kern s1) = out v (kern s)"
    "\<And>v. v \<noteq> w \<Longrightarrow> got v (kern s1) = got v (kern s)"
    if "FileDescriptor_read k ?d n s = (x, s1)" for n x s1
  proof -
    show f: "frame ?d s s1" using FileDescriptor_read_frame [OF that l(2)] .
    then show "cp_stream s1 = cp_stream s" using confined_copying by (auto simp: frame_def)
    show "out v (kern s1) = out v (kern s)" for v by (rule changed_by_ops(1) [OF y(4) that]) simp
    show "v \<noteq> w \<Longrightarrow> got v (kern s1) = got v (kern s)" for v
      by (rule changed_by_ops(1) [OF y(2) that]) (use l(4) [of w] y(5) [of w v] in simp)
  qed
  from r show ?thesis unfolding read_rule_def
  proof (cases rule: seqE)
    case (fail e)
    note f = f [OF fail(1)]
    have "got w (kern s') = got w (kern s)"
      using y(1) [of w, folded l(4)] fail(1) by (cases rule: reader_result) auto
    then have "got v (kern s') = got v (kern s)" for v using f(4) by (cases "v = w") auto
    then show ?thesis using f same_fds_frame [OF f(1)] by (intro copy_inv_same [OF i]) auto
  next
    case (ok data s1)
    note f = f [OF ok(1)]
    have g: "got w (kern s1) = got w (kern s) @ data" "length data \<le> unat (remaining_capacity (cp_stream s w))"
      using y(1) [of w, folded l(4)] ok(1) by (cases rule: reader_result; auto)+
    let ?s = "on_stream w (\<lambda>b. fst (ByteStream_write b data)) s1"
    have "copied got out got0 out0 v ?s" for v
    proof (cases "v = w")
      case True
      then show ?thesis using f g copied_read [OF l(6) [of w], of ?s data] by simp
    next
      case False
      then show ?thesis using f l(6) [of v] copied_same [OF l(6) [of v], of ?s] by (auto simp: copied_def)
    qed
    moreover have "same_fds s ?s" using same_fds_trans [OF same_fds_frame [OF f(1)]] by simp
    ultimately have "copy_inv k fd i ou so got out got0 out0 ?s" using copy_invI [OF i] by blast
    then show ?thesis using ok(2) copy_inv_flags(1) by (auto simp: seq_def change_def split: if_splits)
  qed
qed

lemma sink_write:
  assumes i: "copy_inv k fd i ou so got out got0 out0 s" and n: "n = min max_copy_length (buffer_size (cp_stream s w))"
    and x: "FileDescriptor_write k (sink_of ou so w) [peek_output (cp_stream s w) n] False s = (x, s1)"
  shows "\<And>e. x = Inl e \<Longrightarrow> copy_inv k fd i ou so got out got0 out0 s1"
    and "\<And>v. x = Inr v \<Longrightarrow> copy_inv k fd i ou so got out got0 out0 (on_stream w (\<lambda>b. pop_output b v) s1)"
proof -
  let ?d = "sink_of ou so w" and ?b = "peek_output (cp_stream s w) n"
  note l = copy_inv_laws [OF i] and y = copy_system_laws [OF copy_inv_laws(1) [OF i]]
  have f: "frame ?d s s1" using FileDescriptor_write_frame [OF x l(3)] .
  have st: "cp_stream s1 = cp_stream s" using f confined_copying by (auto simp: frame_def)
  have g: "got v (kern s1) = got v (kern s)" for v by (rule changed_by_ops(2) [OF y(2) x l(3)]) simp
  have o: "v \<noteq> w \<Longrightarrow> out v (kern s1) = out v (kern s)" for v
    by (rule changed_by_ops(2) [OF y(4) x l(3)]) (use l(5) [of w] y(6) [of w v] in simp)
  have b: "length ?b \<le> 65536" "?b = take (unat n) (bs_buf (cp_stream s w))"
    using n by (auto simp: peek_output_def substr_0 max_copy_length_def min_def word_le_nat_alt)
  have "writer k (fd_num ?d s) (out w)" "length (concat [?b]) < 2 ^ 63" using y(3) [of w] l(5) b by simp_all
  from write_loop_out [OF this l(3) x [unfolded FileDescriptor_write_def]] obtain m where
    m: "m \<le> length ?b" "out w (kern s1) = out w (kern s) @ take m ?b" "\<forall>v. x = Inr v \<longrightarrow> v = of_nat m" "\<forall>e. x = Inl e \<longrightarrow> m = 0" by auto
  show "copy_inv k fd i ou so got out got0 out0 s1" if "x = Inl e" for e
  proof -
    have "out v (kern s1) = out v (kern s)" for v using o m that by (cases "v = w") auto
    then show ?thesis using g st same_fds_frame [OF f] by (intro copy_inv_same [OF i]) auto
  qed
  show "copy_inv k fd i ou so got out got0 out0 (on_stream w (\<lambda>b. pop_output b v) s1)" (is "copy_inv _ _ _ _ _ _ _ _ _ ?s") if "x = Inr v" for v
  proof -
    have u: "unat v = m" using that m(1,3) b(1) by (simp add: unat_of_nat)
    have "copied got out got0 out0 v' ?s" for v'
    proof (cases "v' = w")
      case True
      have "m \<le> length (bs_buf (cp_stream s w))" "take m ?b = take m (bs_buf (cp_stream s w))" using m(1) b(2) by simp_all
      then show ?thesis using True g st m(2) u copied_write [OF l(6) [of w], of ?s m v] by simp
    next
      case False
      then show ?thesis using g o st l(6) [of v'] copied_same [OF l(6) [of v'], of ?s] by (auto simp: copied_def)
    qed
    then show ?thesis using same_fds_trans [OF same_fds_frame [OF f]] copy_invI [OF i] by simp
  qed
qed

lemma write_rule_keeps:
  assumes i: "copy_inv k fd i ou so got out got0 out0 s" and r: "write_rule k w (sink_of ou so w) finishing s = (r, s')"
    and fin: "\<And>s x s'. copy_inv k fd i ou so got out got0 out0 s \<Longrightarrow> finishing s = (x, s') \<Longrightarrow> copy_inv k fd i ou so got out got0 out0 s'"
  shows "copy_inv k fd i ou so got out got0 out0 s'"
  using r unfolding write_rule_def Let_def
proof (cases rule: seqE)
  case (fail e)
  then show ?thesis using sink_write(1) [OF i refl] by blast
next
  case (ok v s1)
  let ?s = "on_stream w (\<lambda>b. pop_output b v) s1"
  have i2: "copy_inv k fd i ou so got out got0 out0 ?s" using sink_write(2) [OF i refl ok(1)] by blast
  show ?thesis
    using ok(2) i2 fin [OF i2] copy_inv_flags(3) unfolding seq_def change_def
    by (auto split: if_splits sum.splits prod.splits)
qed

section \<open>The rules in the event loop\<close>

definition copy_rules :: "'w kernel \<Rightarrow> nat \<Rightarrow> nat \<Rightarrow> nat \<Rightarrow> 'w copying Rule list" where
  "copy_rules k input output socket =
     [\<lparr>rule_fd = input, direction = In, callback = read_rule k Outbound input, interest = read_interest Outbound,
       cancel = change (on_stream Outbound end_input)\<rparr>,
      \<lparr>rule_fd = socket, direction = Out, callback = write_rule k Outbound socket (Socket_shutdown k socket SHUT_WR),
       interest = write_interest Outbound, cancel = change (on_stream Outbound set_error)\<rparr>,
      \<lparr>rule_fd = socket, direction = In, callback = read_rule k Inbound socket, interest = read_interest Inbound,
       cancel = change (on_stream Inbound end_input)\<rparr>,
      \<lparr>rule_fd = output, direction = Out, callback = write_rule k Inbound output (FileDescriptor_close k output),
       interest = write_interest Inbound, cancel = change (on_stream Inbound set_error)\<rparr>]"

lemma copy_inv_frame:
  assumes "copy_inv k fd i ou so got out got0 out0 s" and "frame d s s'"
    and "\<And>rd wr obs. changed_by k rd wr (obs :: 'w \<Rightarrow> byte list) \<Longrightarrow> obs (kern s') = obs (kern s)"
  shows "copy_inv k fd i ou so got out got0 out0 s'"
proof -
  note y = copy_system_laws [OF copy_inv_laws(1) [OF assms(1)]]
  have "cp_stream s' = cp_stream s" using assms(2) confined_copying by (auto simp: frame_def)
  then show ?thesis
    using same_fds_frame [OF assms(2)] assms(3) [OF y(2)] assms(3) [OF y(4)] by (intro copy_inv_same [OF assms(1)]) auto
qed

lemma FDWrapper_close_frame: "FDWrapper_close k d s = (r, s') \<Longrightarrow> d < length (wrappers s) \<Longrightarrow> frame d s s'"
  unfolding FDWrapper_close_def
  by (erule frame_seq) (auto simp: change_def frame_system_call intro!: frame_on_wrapper dest: system_call_simps(1))

lemma copy_finish_keeps:
  assumes "copy_inv k fd i ou so got out got0 out0 s"
  shows "Socket_shutdown k so h s = (x, s') \<Longrightarrow> copy_inv k fd i ou so got out got0 out0 s'"
    and "FileDescriptor_close k ou s = (y, s') \<Longrightarrow> copy_inv k fd i ou so got out got0 out0 s'"
proof -
  have b: "so < length (wrappers s)" "ou < length (wrappers s)"
    using copy_inv_laws(2,3) [OF assms, of Inbound] by simp_all
  show "Socket_shutdown k so h s = (x, s') \<Longrightarrow> copy_inv k fd i ou so got out got0 out0 s'"
    using Socket_shutdown_frame [OF _ b(1)] changed_by_ops(5) by (intro copy_inv_frame [OF assms]) blast+
  show "copy_inv k fd i ou so got out got0 out0 s'" if "FileDescriptor_close k ou s = (y, s')"
  proof (rule copy_inv_frame [OF assms])
    show "frame ou s s'" using that FDWrapper_close_frame [OF _ b(2)] unfolding FileDescriptor_close_def by blast
    show "changed_by k rd wr obs \<Longrightarrow> obs (kern s') = obs (kern s)" for rd wr and obs :: "'a \<Rightarrow> byte list"
      using changed_by_ops(3) [of k rd wr obs ou s] that by (simp add: FileDescriptor_close_def)
  qed
qed

lemma copy_inv_destroy:
  assumes "copy_inv k fd i ou so got out got0 out0 s" and "d < length (wrappers s)"
  shows "copy_inv k fd i ou so got out got0 out0 (FileDescriptor_destroy k d s)"
  using FileDescriptor_destroy_frame [OF assms(2)] changed_by_ops(4) by (intro copy_inv_frame [OF assms(1)]) blast+

lemma read_rule_registers:
  assumes "read_rule k w d s = (Inr u, s')" and "d < length (wrappers s)"
  shows "read_count d s' = read_count d s + 1"
  using assms(1) unfolding read_rule_def
proof (cases rule: seqE)
  case (ok data s1)
  have "wrappers s' = wrappers s1" using ok(2) by (auto simp: seq_def change_def)
  then show ?thesis using FileDescriptor_read_count(1) [OF ok(1) assms(2)] by (simp add: read_count_def)
qed auto

lemma write_rule_registers:
  assumes "write_rule k w d finishing s = (Inr u, s')" and "d < length (wrappers s)"
    and fin: "\<And>s x s'. d < length (wrappers s) \<Longrightarrow> finishing s = (Inr x, s') \<Longrightarrow>
      write_count d s' = write_count d s \<or> write_count d s' = write_count d s + 1"
  shows "write_count d s' \<noteq> write_count d s"
  using assms(1) unfolding write_rule_def Let_def
proof (cases rule: seqE)
  case (ok v s1)
  let ?s = "on_stream w (\<lambda>b. pop_output b v) s1"
  have w: "write_count d ?s = write_count d s + 1" "d < length (wrappers ?s)"
    using FileDescriptor_write_once [OF ok(1) assms(2)] frame_length [OF FileDescriptor_write_frame [OF ok(1) assms(2)]] assms(2)
    by (simp_all add: write_count_def)
  have "s' = ?s \<or> (\<exists>y s2. finishing ?s = (Inr y, s2) \<and> wrappers s' = wrappers s2)"
    using ok(2) unfolding seq_def change_def by (auto split: if_splits sum.splits prod.splits)
  then have "write_count d s' = write_count d ?s \<or> write_count d s' = write_count d ?s + 1"
    using fin [OF w(2)] by (auto simp: write_count_def)
  then show ?thesis using w(1) by (auto simp: add.assoc)
qed auto

lemma FDWrapper_close_counts:
  assumes "FDWrapper_close k d s = (r, s')" and "d < length (wrappers s)"
  shows "write_count d s' = write_count d s"
  using assms(1) unfolding FDWrapper_close_def
  by (rule seqE) (use assms(2) in \<open>auto simp: change_def write_count_def dest: system_call_simps(1)\<close>)

lemma copy_writes_register:
  "write_rule k w d (Socket_shutdown k d SHUT_WR) s = (Inr u, s') \<Longrightarrow> d < length (wrappers s) \<Longrightarrow> write_count d s' \<noteq> write_count d s"
  "write_rule k w d (FileDescriptor_close k d) s = (Inr u, s') \<Longrightarrow> d < length (wrappers s) \<Longrightarrow> write_count d s' \<noteq> write_count d s"
  by (erule write_rule_registers; simp add: Socket_shutdown_wr_count FileDescriptor_close_def FDWrapper_close_counts)+

interpretation copy: serviced_client k "set (copy_rules k i ou so)" "copy_inv k fd i ou so got out got0 out0" for k fd i ou so got out got0 out0
proof
  fix r :: "'a copying Rule" and s s' :: "'a copying" and res
  assume r: "r \<in> set (copy_rules k i ou so)" and i: "copy_inv k fd i ou so got out got0 out0 s"
  note l = copy_inv_laws(2,3) [OF i, of Outbound] copy_inv_laws(2,3) [OF i, of Inbound]
  show "callback r s = (res, s') \<Longrightarrow> copy_inv k fd i ou so got out got0 out0 s'"
    using r read_rule_keeps [OF i, of Outbound] read_rule_keeps [OF i, of Inbound]
      write_rule_keeps [OF i, of Outbound _ res s', OF _ copy_finish_keeps(1)]
      write_rule_keeps [OF i, of Inbound _ res s', OF _ copy_finish_keeps(2)]
    by (auto simp: copy_rules_def)
  show "cancel r s = (res, s') \<Longrightarrow> copy_inv k fd i ou so got out got0 out0 s'"
    using r copy_inv_flags [OF i] by (auto simp: copy_rules_def change_def)
  show "copy_inv k fd i ou so got out got0 out0 (FileDescriptor_destroy k (rule_fd r) s)"
    using r l copy_inv_destroy [OF i] by (auto simp: copy_rules_def)
next
  fix s :: "'a copying" and ps t x w
  assume i: "copy_inv k fd i ou so got out got0 out0 s" and p: "k_poll k ps t (kern s) = (x, w)"
  show "copy_inv k fd i ou so got out got0 out0 (s\<lparr>kern := w\<rparr>)"
    using changed_by_ops(6) [OF copy_system_laws(2) [OF copy_inv_laws(1) [OF i]] p]
      changed_by_ops(6) [OF copy_system_laws(4) [OF copy_inv_laws(1) [OF i]] p]
    by (intro copy_inv_same [OF i]) simp_all
next
  fix r :: "'a copying Rule" and s s' :: "'a copying"
  assume r: "r \<in> set (copy_rules k i ou so)" and i: "copy_inv k fd i ou so got out got0 out0 s" and c: "callback r s = (Inr (), s')"
    and n: "service_count r s' = service_count r s"
  note l = copy_inv_laws(2,3) [OF i, of Outbound] copy_inv_laws(2,3) [OF i, of Inbound]
  show "\<not> interest r s'"
    using r c n read_rule_registers [OF _ l(1), of k Outbound "()" s'] read_rule_registers [OF _ l(3), of k Inbound "()" s']
      copy_writes_register(1) [OF _ l(2), of k Outbound "()" s'] copy_writes_register(2) [OF _ l(4), of k Inbound "()" s']
    by (auto simp: copy_rules_def service_count_def)
qed

lemma add_copy_rules_eq:
  assumes "add_copy_rules k i ou so s = (rules, s')"
  shows "rules = copy_rules k i ou so" and "cp_stream s' = cp_stream s" and "kern s' = kern s"
    and "i < length (wrappers s) \<Longrightarrow> ou < length (wrappers s) \<Longrightarrow> so < length (wrappers s) \<Longrightarrow> same_fds s s'"
  using assms by (auto simp: add_copy_rules_def add_rule_def duplicate_def copy_rules_def Let_def same_fds_def fd_num_def on_wrapper_def
      nth_list_update)

lemma harmless_finish: "harmless (fst (Socket_shutdown k d SHUT_WR s))" "harmless (fst (FileDescriptor_close k d s))"
  unfolding Socket_shutdown_def FileDescriptor_close_def FDWrapper_close_def
  by (intro harmless_seq; simp add: SHUT_WR_def SHUT_RD_def change_def)+

lemma copy_rules_harmless:
  assumes "r \<in> set (copy_rules k i ou so)"
  shows "harmless (fst (callback r s))" "harmless (fst (cancel r s))"
proof -
  have "harmless (fst (read_rule k w d s))" for w d
    unfolding read_rule_def by (intro harmless_seq [OF harmless_read]) (auto simp: change_def intro!: harmless_seq)
  moreover have w: "harmless (fst (write_rule k w d finishing s))" if "\<And>s. harmless (fst (finishing s))" for w d finishing
    unfolding write_rule_def Let_def using that
    by (intro harmless_seq [OF harmless_write]) (auto simp: change_def intro!: harmless_seq)
  ultimately show "harmless (fst (callback r s))" using assms w [OF harmless_finish(1)] w [OF harmless_finish(2)] by (auto simp: copy_rules_def)
  show "harmless (fst (cancel r s))" using assms by (auto simp: copy_rules_def change_def)
qed

lemma copy_round_keeps:
  assumes "set rules \<subseteq> set (copy_rules k i ou so)" and "copy_inv k fd i ou so got out got0 out0 s"
    and "wait_next_event k t rules s = (res, rules', s')"
  shows "copy_inv k fd i ou so got out got0 out0 s'" "set rules' \<subseteq> set (copy_rules k i ou so)" "harmless res"
proof -
  show "copy_inv k fd i ou so got out got0 out0 s'" "set rules' \<subseteq> set (copy_rules k i ou so)"
    using copy.wait_keeps [OF assms] by simp_all
  show "harmless res"
  proof (cases res)
    case (Inl e)
    have "e = polled_error \<or> (\<exists>r \<in> set (copy_rules k i ou so). \<exists>s. fst (callback r s) = Inl e \<or> fst (cancel r s) = Inl e)"
      using copy.wait_raises [OF assms(1,2) assms(3) [unfolded Inl]] unfolding copy.raised_def by blast
    moreover have "harmless (Inl polled_error)" by (simp add: harmless_def polled_error_def busy_wait_def short_write_def)
    ultimately show ?thesis using copy_rules_harmless Inl unfolding harmless_def by (metis Inl_inject)
  qed simp
qed

lemma copy_loop_keeps:
  "copy_loop k' rules s = Some y \<Longrightarrow> k' = k \<Longrightarrow> set rules \<subseteq> set (copy_rules k i ou so) \<Longrightarrow>
     copy_inv k fd i ou so got out got0 out0 s \<Longrightarrow>
     copy_inv k fd i ou so got out got0 out0 (snd (snd y)) \<and> set (fst (snd y)) \<subseteq> set (copy_rules k i ou so) \<and> harmless (fst y)"
proof (induction rule: copy_loop.raw_induct [rotated, consumes 1, case_names step])
  case (step loop k' rules s y)
  obtain res rules' s' where w: "wait_next_event k (- 1) rules s = (res, rules', s')" by (metis prod.exhaust)
  note kept = copy_round_keeps [OF step.prems(2,3) w]
  show ?case
  proof (cases res)
    case (Inl e)
    then show ?thesis using step.prems(1) step.hyps w kept by (auto simp: harmless_def)
  next
    case (Inr r)
    then show ?thesis using step.prems(1) step.hyps step.IH w kept by (auto split: if_splits)
  qed
qed

section \<open>Setting up\<close>

lemma FileDescriptor_new_eq:
  "0 \<le> fd \<Longrightarrow> FileDescriptor_new fd s = (Inr (length (wrappers s)),
     s\<lparr>wrappers := wrappers s @ [\<lparr>fdw_fd = fd, fdw_eof = False, fdw_closed = False, fdw_read_count = 0, fdw_write_count = 0, fdw_use_count = 1\<rparr>]\<rparr>)"
  by (simp add: FileDescriptor_new_def FDWrapper_new_def prog_defs)

lemma set_blocking_keeps:
  assumes "set_blocking k d b s = (r, s')"
  shows "frame d s s'" and "changed_by k rd wr obs \<Longrightarrow> obs (kern s') = obs (kern s)"
proof -
  have "frame d s s' \<and> (changed_by k rd wr obs \<longrightarrow> obs (kern s') = obs (kern s))"
    using assms unfolding set_blocking_def
  proof (cases rule: seqE)
    case (fail e)
    then show ?thesis using system_call_simps(3) [OF fail(1)] frame_system_call [OF fail(1)] by (simp add: changed_by_def)
  next
    case (ok a s1)
    then obtain flags rc s2 where c: "system_call ''fcntl'' (\<lambda>s. k_setfl k (fd_num d s) flags) s1 = (rc, s2)" "s' = s2"
      by (cases a) (auto simp: Let_def ret_def elim!: seqE split: if_splits)
    then show ?thesis
      using system_call_simps(3) [OF ok(1)] system_call_simps(3) [OF c(1)] c(2)
        frame_trans [OF frame_system_call [OF ok(1)] frame_system_call [OF c(1)], of d]
      by (auto simp: changed_by_def)
  qed
  then show "frame d s s'" "changed_by k rd wr obs \<Longrightarrow> obs (kern s') = obs (kern s)" by blast+
qed

lemma or_destroy_keeps:
  assumes "or_destroy k d m s = (r, s')" and "\<And>r1 s1. m s = (r1, s1) \<Longrightarrow> P s1" and "\<And>s. P s \<Longrightarrow> P (FileDescriptor_destroy k d s)"
  shows "P s'"
  using assms by (cases "m s") (auto simp: or_destroy_def split: sum.splits)

lemma or_destroy_result: "or_destroy k d m s = (Inr a, s') \<longleftrightarrow> m s = (Inr a, s')"
  by (auto simp: or_destroy_def split: sum.splits prod.splits)

lemma copy_setup_inv:
  fixes s :: "'w copying"
  assumes "copy_system k fd got out" and "so < length (wrappers s)" and "fd_num so s = fd" and "copy_setup k so s = (r, s')"
  defines "i \<equiv> length (wrappers s)" and "ou \<equiv> Suc (length (wrappers s))"
  shows "copy_inv k fd i ou so got out (\<lambda>w. got w (kern s)) (\<lambda>w. out w (kern s)) s'" (is "?I s'")
    and "r = Inr a \<Longrightarrow> a = (i, ou)"
proof -
  define wr where "wr = wrappers s @ [\<lparr>fdw_fd = 0, fdw_eof = False, fdw_closed = False, fdw_read_count = 0, fdw_write_count = 0, fdw_use_count = 1\<rparr>,
     \<lparr>fdw_fd = 1, fdw_eof = False, fdw_closed = False, fdw_read_count = 0, fdw_write_count = 0, fdw_use_count = 1\<rparr>]"
  define s0 where "s0 = s\<lparr>wrappers := wr, cp_stream := \<lambda>_. ByteStream_new copy_buffer_size, cp_shutdown := \<lambda>_. False\<rparr>"
  define body :: "(nat \<times> nat, 'w copying) prog" where "body = seq (set_blocking k so False) (\<lambda>_. seq (set_blocking k i False) (\<lambda>_.
      seq (set_blocking k ou False) (\<lambda>_. ret (i, ou))))"
  have run: "or_destroy k i (or_destroy k ou body) s0 = (r, s')"
    using assms(4) by (simp add: copy_setup_def seq_def FileDescriptor_new_eq STDIN_FILENO_def STDOUT_FILENO_def change_def
        s0_def wr_def body_def i_def ou_def)
  have n: "fd_num so s0 = fd" "fd_num i s0 = STDIN_FILENO" "fd_num ou s0 = STDOUT_FILENO"
    using assms(2,3) by (simp_all add: s0_def wr_def fd_num_def i_def ou_def nth_append STDIN_FILENO_def STDOUT_FILENO_def)
  have b: "so < length (wrappers s0)" "i < length (wrappers s0)" "ou < length (wrappers s0)"
    using assms(2) by (simp_all add: s0_def wr_def i_def ou_def)
  have "copy_fds fd i ou so s0" unfolding copy_fds_def
  proof
    fix w show "source_of i so w < length (wrappers s0) \<and> sink_of ou so w < length (wrappers s0)
        \<and> fd_num (source_of i so w) s0 = source_fd fd w \<and> fd_num (sink_of ou so w) s0 = sink_fd fd w"
      by (cases w) (use n b in simp_all)
  qed
  moreover have "copied got out (\<lambda>w. got w (kern s)) (\<lambda>w. out w (kern s)) w s0" for w by (simp add: copied_def s0_def)
  ultimately have i0: "?I s0" using assms(1) by (simp add: copy_inv_def)
  have keep: "?I t'" if "set_blocking k d b t = (x, t')" "?I t" for d b t x t'
    using set_blocking_keeps [OF that(1)] by (intro copy_inv_frame [OF that(2)]) blast+
  have bd: "?I s1" if "body s0 = (x, s1)" for x s1
    using that i0 unfolding body_def by (elim seqE; simp add: ret_def) (blast intro: keep)+
  have ds: "?I (FileDescriptor_destroy k d t)" if "?I t" "d \<in> {i, ou}" for d t
    using that copy_inv_destroy [OF that(1)] copy_inv_laws(2) [OF that(1), of Outbound] copy_inv_laws(3) [OF that(1), of Inbound] by auto
  have inner: "?I s1" if "or_destroy k ou body s0 = (x, s1)" for x s1
    by (rule or_destroy_keeps [where P = ?I, OF that]) (use bd ds in simp_all)
  show "?I s'" by (rule or_destroy_keeps [where P = ?I, OF run]) (use inner ds in simp_all)
  show "r = Inr a \<Longrightarrow> a = (i, ou)"
    using run by (auto simp: or_destroy_result body_def ret_def elim!: seqE)
qed

lemma copy_setup_harmless: "harmless (fst (copy_setup k so s))"
proof -
  have o: "harmless (fst (or_destroy k d m t))" if "harmless (fst (m t))" for d t and m :: "('b, 'a copying) prog"
    using that by (cases "m t") (auto simp: or_destroy_def harmless_def split: sum.split)
  have n: "harmless (fst (FileDescriptor_new fd t))" for fd and t :: "'a copying"
    by (simp add: FileDescriptor_new_def FDWrapper_new_def prog_defs harmless_runtime_error)
  have b: "harmless (fst (set_blocking k d b t))" for d b and t :: "'a copying"
    unfolding set_blocking_def by (intro harmless_seq) (auto simp: Let_def ret_def intro!: harmless_seq)
  show ?thesis unfolding copy_setup_def
    by (intro harmless_seq o n b; simp add: change_def ret_def)
qed

lemma destroy_rules_keeps:
  "set rules \<subseteq> set (copy_rules k i ou so) \<Longrightarrow> copy_inv k fd i ou so got out got0 out0 s \<Longrightarrow>
     copy_inv k fd i ou so got out got0 out0 (destroy_rules k rules s)"
proof (induction rules arbitrary: s)
  case (Cons r rs)
  have "copy_inv k fd i ou so got out got0 out0 (FileDescriptor_destroy k (rule_fd r) s)"
    using Cons.prems copy.release_keeps [OF _ Cons.prems(2), of r] by simp
  then show ?case using Cons by (simp add: destroy_rules_def)
qed (simp add: destroy_rules_def)

section \<open>Properties\<close>

text \<open>The state after a number of rounds of the loop.\<close>

fun copy_rounds :: "'w kernel \<Rightarrow> nat \<Rightarrow> 'w copying Rule list \<times> 'w copying \<Rightarrow> 'w copying Rule list \<times> 'w copying" where
  "copy_rounds k 0 c = c"
| "copy_rounds k (Suc n) c = copy_rounds k n (snd (wait_next_event k (- 1) (fst c) (snd c)))"

definition copy_faithful :: "(way \<Rightarrow> 'w \<Rightarrow> byte list) \<Rightarrow> (way \<Rightarrow> 'w \<Rightarrow> byte list) \<Rightarrow> 'w copying \<Rightarrow> 'w copying \<Rightarrow> bool" where
  "copy_faithful got out s s' \<longleftrightarrow> (\<forall>w. \<exists>moved. got w (kern s') = got w (kern s) @ moved @ bs_buf (cp_stream s' w)
     \<and> out w (kern s') = out w (kern s) @ moved)"

lemma copy_rounds_keeps:
  "set (fst c) \<subseteq> set (copy_rules k i ou so) \<Longrightarrow> copy_inv k fd i ou so got out got0 out0 (snd c) \<Longrightarrow>
     copy_inv k fd i ou so got out got0 out0 (snd (copy_rounds k n c))"
proof (induction n arbitrary: c)
  case (Suc n)
  obtain res rules' s' where w: "wait_next_event k (- 1) (fst c) (snd c) = (res, rules', s')" by (metis prod.exhaust)
  show ?case using Suc.IH [of "(rules', s')"] copy_round_keeps [OF Suc.prems w] w by simp
qed simp

lemma copy_start:
  assumes "copy_system k fd got out" and "so < length (wrappers s)" and "fd_num so s = fd" and "copy_setup k so s = (Inr (i, ou), s1)"
    and "add_copy_rules k i ou so s1 = (rules, s2)"
  shows "copy_inv k fd i ou so got out (\<lambda>w. got w (kern s)) (\<lambda>w. out w (kern s)) s2" "set rules \<subseteq> set (copy_rules k i ou so)"
proof -
  have io: "length (wrappers s) = i" "Suc i = ou" using copy_setup_inv(2) [OF assms(1-4) refl] by simp_all
  note inv = copy_setup_inv(1) [OF assms(1-4), unfolded io] and eq = add_copy_rules_eq [OF assms(5)]
  have "i < length (wrappers s1)" "ou < length (wrappers s1)" "so < length (wrappers s1)"
    using copy_inv_laws(2,3) [OF inv, of Outbound] copy_inv_laws(3) [OF inv, of Inbound] by simp_all
  from eq(4) [OF this] show "copy_inv k fd i ou so got out (\<lambda>w. got w (kern s)) (\<lambda>w. out w (kern s)) s2"
    by (rule copy_inv_same [OF inv]) (simp_all add: eq(2,3))
  show "set rules \<subseteq> set (copy_rules k i ou so)" using add_copy_rules_eq(1) [OF assms(5)] by simp
qed

lemma copy_faithful_of_inv:
  "copy_inv k fd i ou so got out (\<lambda>w. got w (kern s)) (\<lambda>w. out w (kern s)) s' \<Longrightarrow> copy_faithful got out s s'"
  by (auto simp: copy_inv_def copied_def copy_faithful_def)

text \<open>
  C13. The applications copy faithfully. Whatever the system answers to reads, writes and polls, after any number of rounds, and when
  the copy is left, normally or by an exception: in each direction the bytes read from the source are, in order and once,
  those written to the sink followed by those waiting in the stream. The loop never finds itself to be a busy wait.
\<close>

theorem stream_copy_faithful:
  assumes "copy_system k fd got out" and "socket < length (wrappers s)" and "fd_num socket s = fd"
  shows "(case copy_setup k socket s of
            (Inl e, s') \<Rightarrow> copy_faithful got out s s'
          | (Inr (input, output), s1) \<Rightarrow> copy_faithful got out s (snd (copy_rounds k n (add_copy_rules k input output socket s1))))
    \<and> (case bidirectional_stream_copy k socket s of
         None \<Rightarrow> True | Some (res, s') \<Rightarrow> copy_faithful got out s s' \<and> res \<noteq> Inl busy_wait)"
proof (cases "copy_setup k socket s")
  case (Pair r s1)
  note set_up = copy_setup_inv [OF assms Pair]
  show ?thesis
  proof (cases r)
    case (Inl e)
    have "harmless r" using copy_setup_harmless [of k socket s] Pair by simp
    then show ?thesis using Pair Inl copy_faithful_of_inv [OF set_up(1)] by (simp add: bidirectional_stream_copy_def harmless_def)
  next
    case (Inr a)
    obtain i ou where a: "a = (i, ou)" by fastforce
    obtain rules s2 where add: "add_copy_rules k i ou socket s1 = (rules, s2)" by fastforce
    note start = copy_start [OF assms Pair [unfolded Inr a] add]
    have "copy_faithful got out s s' \<and> res \<noteq> Inl busy_wait" if b: "bidirectional_stream_copy k socket s = Some (res, s')" for res s'
    proof -
      obtain rules' s3 where l: "copy_loop k rules s2 = Some (res, rules', s3)"
        and s': "s' = destroy_rules k rules' (FileDescriptor_destroy k i (FileDescriptor_destroy k ou s3))"
        using b Pair Inr a add by (auto simp: bidirectional_stream_copy_def)
      note kept = copy_loop_keeps [OF l refl start(2,1), unfolded fst_conv snd_conv]
      note b = copy_inv_laws(2) [OF conjunct1 [OF kept], of Outbound] copy_inv_laws(3) [OF conjunct1 [OF kept], of Inbound]
      have "copy_inv k fd i ou socket got out (\<lambda>w. got w (kern s)) (\<lambda>w. out w (kern s)) s'"
        unfolding s' using kept b frame_length [OF FileDescriptor_destroy_frame [OF b(2)], of k]
        by (intro destroy_rules_keeps copy_inv_destroy) simp_all
      then show ?thesis using kept copy_faithful_of_inv by (auto simp: harmless_def)
    qed
    moreover have "copy_faithful got out s (snd (copy_rounds k n (add_copy_rules k i ou socket s1)))"
      using copy_rounds_keeps [of "(rules, s2)"] start add copy_faithful_of_inv by (metis fst_conv snd_conv)
    ultimately show ?thesis using Pair Inr a by (auto split: option.split)
  qed
qed

text \<open>A system with a socket 5 whose descriptors take and give at most two bytes at a time and are always ready.\<close>

record pipes =
  p_left :: "way \<Rightarrow> byte list"
  p_got :: "way \<Rightarrow> byte list"
  p_out :: "way \<Rightarrow> byte list"

definition way_from :: "int \<Rightarrow> way" where
  "way_from fd = (if fd = STDIN_FILENO then Outbound else Inbound)"

definition way_to :: "int \<Rightarrow> way" where
  "way_to fd = (if fd = STDOUT_FILENO then Inbound else Outbound)"

definition pipes_kernel :: "pipes kernel" where
  "pipes_kernel = failing_kernel\<lparr>
     k_read := \<lambda>fd n p. if fd \<in> {STDIN_FILENO, 5} then
       let data = take (min 2 (unat n)) (p_left p (way_from fd))
       in ((int (length data), 0, data),
           p\<lparr>p_left := (p_left p)(way_from fd := drop (length data) (p_left p (way_from fd))),
             p_got := (p_got p)(way_from fd := p_got p (way_from fd) @ data)\<rparr>)
       else ((- 1, 9, []), p),
     k_writev := \<lambda>fd bufs p. if fd \<in> {STDOUT_FILENO, 5} then
       ((int (length (take 2 (concat bufs))), 0, ()), p\<lparr>p_out := (p_out p)(way_to fd := p_out p (way_to fd) @ take 2 (concat bufs))\<rparr>)
       else ((- 1, 9, ()), p),
     k_poll := \<lambda>ps t p. ((1, 0, \<lambda>i. if i < length ps then events (ps ! i) else 0), p),
     k_close := \<lambda>_ p. ((0, 0, ()), p), k_shutdown := \<lambda>_ _ p. ((0, 0, ()), p),
     k_getfl := \<lambda>_ p. ((0, 0, ()), p), k_setfl := \<lambda>_ _ p. ((0, 0, ()), p)\<rparr>"

lemma pipes_system: "copy_system pipes_kernel 5 (\<lambda>w p. p_got p w) (\<lambda>w p. p_out p w)"
proof -
  have fd: "source_fd 5 w \<in> {STDIN_FILENO, 5}" "way_from (source_fd 5 w) = w" "sink_fd 5 w \<in> {STDOUT_FILENO, 5}" "way_to (sink_fd 5 w) = w" for w
    by (cases w; simp add: way_from_def way_to_def STDIN_FILENO_def STDOUT_FILENO_def)+
  have "int (length (take (min 2 (unat n)) xs)) \<le> uint n" for n :: u64 and xs :: "byte list"
  proof -
    have "length (take (min 2 (unat n)) xs) \<le> unat n" by simp
    then show ?thesis by (simp only: uint_nat of_nat_le_iff)
  qed
  then have "reader pipes_kernel (source_fd 5 w) (\<lambda>p. p_got p w)" for w
    using fd(1,2) [of w] by (simp add: reader_def pipes_kernel_def Let_def)
  moreover have "writer pipes_kernel (sink_fd 5 w) (\<lambda>p. p_out p w)" for w
    using fd(3,4) [of w] by (simp add: writer_def pipes_kernel_def min_def)
  moreover have "changed_by pipes_kernel {source_fd 5 w} {} (\<lambda>p. p_got p w)" "changed_by pipes_kernel {} {sink_fd 5 w} (\<lambda>p. p_out p w)" for w
    by (cases w; auto simp: changed_by_def pipes_kernel_def Let_def way_from_def way_to_def STDIN_FILENO_def STDOUT_FILENO_def)+
  ultimately show ?thesis by (simp add: copy_system_def STDIN_FILENO_def STDOUT_FILENO_def)
qed

definition wit_copying :: "pipes copying" where
  "wit_copying = \<lparr>wrappers = [wit_wrapper 5],
     kern = \<lparr>p_left = \<lambda>w. case w of Outbound \<Rightarrow> [1, 2, 3] | Inbound \<Rightarrow> [9], p_got = \<lambda>_. [], p_out = \<lambda>_. []\<rparr>,
     cp_stream = \<lambda>_. ByteStream_new 0, cp_shutdown = \<lambda>_. False\<rparr>"

theorem stream_copy_faithful_witness:
  "case copy_setup pipes_kernel 0 wit_copying of
     (Inl e, s') \<Rightarrow> False
   | (Inr (input, output), s1) \<Rightarrow> (input, output) = (1, 2) \<and> copy_faithful (\<lambda>w p. p_got p w) (\<lambda>w p. p_out p w) wit_copying
       (snd (copy_rounds pipes_kernel 7 (add_copy_rules pipes_kernel 1 2 0 s1)))"
proof -
  have s: "0 < length (wrappers wit_copying)" "fd_num 0 wit_copying = 5" by (simp_all add: wit_copying_def wit_wrapper_def fd_num_def)
  have "\<exists>s1. copy_setup pipes_kernel 0 wit_copying = (Inr (1, 2), s1)"
    by (simp add: copy_setup_def set_blocking_def or_destroy_def prog_defs FileDescriptor_new_eq STDIN_FILENO_def STDOUT_FILENO_def
        system_call_def pipes_kernel_def to_int_def SystemCall_def wit_copying_def Let_def)
  then show ?thesis using stream_copy_faithful [OF pipes_system s, of 7] by auto
qed

section \<open>A half-closed connection\<close>

text \<open>
  When the peer has ended its stream and everything is on standard output, that is closed; the rule that wrote to it is then
  cancelled and marks the inbound stream as failed. From then on standard input is not of interest: as soon as nothing waits to be sent, the
  copy ends, although standard input has not ended and the peer could still receive.
\<close>

lemma half_close_stops_input:
  fixes s :: "'w copying"
  assumes "\<not> fd_eof input s" and "\<not> fd_closed input s" and "\<not> fd_closed socket s"
    and "buffer_empty (cp_stream s Outbound)" and "\<not> input_ended (cp_stream s Outbound)"
  shows "\<exists>s'. drop_rule k (copy_rules k input output socket ! 3) s = (Inr (), s') \<and> stream_error (cp_stream s' Inbound)"
    and "stream_error (cp_stream s Inbound) \<Longrightarrow>
      wait_next_event k t (take 2 (copy_rules k input output socket)) s = (Inr Exit, take 2 (copy_rules k input output socket), s)"
proof -
  obtain s1 where s1: "FileDescriptor_destroy k output (on_stream Inbound set_error s) = s1" by blast
  have "sys.more (FileDescriptor_destroy k output t) = sys.more t" for t :: "'w copying"
    by (auto simp: FileDescriptor_destroy_def FDWrapper_destroy_def FDWrapper_close_def Let_def seq_def change_def on_wrapper_def
        system_call_def split: sum.split prod.split)
  then have "confined (on_stream Inbound set_error s) s1" using s1 by (auto simp: confined_def)
  then show "\<exists>s'. drop_rule k (copy_rules k input output socket ! 3) s = (Inr (), s') \<and> stream_error (cp_stream s' Inbound)"
    using s1 confined_copying [of "on_stream Inbound set_error s" s1] by (auto simp: drop_rule_def copy_rules_def seq_def change_def stream_error_def)
  show "stream_error (cp_stream s Inbound) \<Longrightarrow>
      wait_next_event k t (take 2 (copy_rules k input output socket)) s = (Inr Exit, take 2 (copy_rules k input output socket), s)"
    using assms by (simp add: copy_rules_def wait_next_event_def read_interest_def write_interest_def ByteStream_eof_def)
qed

end
