(* ===== verification/Webget.thy ===== *)
theory Webget
  imports Stream_Copy
begin

text \<open>
  \<^verbatim>\<open>apps/webget.cc\<close>: a request is written to a socket and what comes back is printed. The state extends that of the files by what
  has been printed.
\<close>

section \<open>Model\<close>

record 'w webget = "'w sys" +
  wg_printed :: "byte list"

definition string_bytes :: "string \<Rightarrow> byte list" where
  "string_bytes = map of_char"

definition crlf :: string where
  "crlf = [CHR 0x0D, CHR 0x0A]"

definition get_request :: "string \<Rightarrow> string \<Rightarrow> byte list" where
  "get_request host path = string_bytes (''GET '' @ path @ '' HTTP/1.1'' @ crlf @ ''HOST: '' @ host @ crlf @ crlf)"

partial_function (option) print_loop :: "'w kernel \<Rightarrow> nat \<Rightarrow> 'w webget \<Rightarrow> ((exn + unit) \<times> 'w webget) option" where
  "print_loop k sock s =
     (if fd_eof sock s then Some (Inr (), s)
      else (case FileDescriptor_read k sock (- 1) s of
              (Inl e, s) \<Rightarrow> Some (Inl e, s)
            | (Inr recvd, s) \<Rightarrow> print_loop k sock (s\<lparr>wg_printed := wg_printed s @ recvd\<rparr>)))"

text \<open>The part of \<open>get_URL\<close> up to its loop.\<close>

definition send_request :: "'w kernel \<Rightarrow> getaddrinfo \<Rightarrow> nat \<Rightarrow> string \<Rightarrow> string \<Rightarrow> (unit, 'w webget) prog" where
  "send_request k gai sock host path =
     seq (lift (Address_host gai host ''http'')) (\<lambda>address.
     seq (Socket_connect k sock address) (\<lambda>_.
     seq (FileDescriptor_write k sock [get_request host path] True) (\<lambda>_.
       Socket_shutdown k sock SHUT_WR)))"

definition get_URL :: "'w kernel \<Rightarrow> getaddrinfo \<Rightarrow> string \<Rightarrow> string \<Rightarrow> 'w webget \<Rightarrow> ((exn + unit) \<times> 'w webget) option" where
  "get_URL k gai host path s =
     (case TCPSocket_new k s of
        (Inl e, s) \<Rightarrow> Some (Inl e, s)
      | (Inr sock, s) \<Rightarrow>
          map_option (\<lambda>(res, s). (res, FileDescriptor_destroy k sock s))
            (case send_request k gai sock host path s of
               (Inl e, s) \<Rightarrow> Some (Inl e, s)
             | (Inr _, s) \<Rightarrow>
                 (case print_loop k sock s of
                    None \<Rightarrow> None
                  | Some (Inl e, s) \<Rightarrow> Some (Inl e, s)
                  | Some (Inr _, s) \<Rightarrow> Some (FileDescriptor_close k sock s))))"

section \<open>A connection that works\<close>

text \<open>
  Calls on the connection succeed; \<open>out\<close> is what has been written to it and \<open>got\<close> what has been read. The peer sends finitely many bytes:
  reading yields bytes from the front of the \<open>rest\<close>, and none only when there are none.
\<close>

definition working :: "'w kernel \<Rightarrow> int \<Rightarrow> ('w \<Rightarrow> byte list) \<Rightarrow> ('w \<Rightarrow> byte list) \<Rightarrow> ('w \<Rightarrow> byte list) \<Rightarrow> bool" where
  "working k fd got out rest \<longleftrightarrow> 0 \<le> fd \<and> fd < 2147483648
     \<and> reader k fd got \<and> writer k fd out \<and> takes k fd \<and> changed_by k {fd} {} got \<and> changed_by k {} {fd} out
     \<and> (\<forall>n w. 0 < n \<longrightarrow> (case k_read k fd n w of ((r, _, data), w') \<Rightarrow> 0 \<le> r \<and> (rest w \<noteq> [] \<longrightarrow> 0 < r) \<and> rest w = data @ rest w'))
     \<and> (\<forall>d t w. case k_socket k d t w of ((r, _, _), w') \<Rightarrow> r = fd \<and> got w' = got w \<and> out w' = out w)
     \<and> (\<forall>a w. case k_connect k fd a w of ((r, _, _), w') \<Rightarrow> r = 0 \<and> got w' = got w \<and> out w' = out w)
     \<and> (\<forall>h w. fst (fst (k_shutdown k fd h w)) = 0) \<and> (\<forall>w. fst (fst (k_close k fd w)) = 0)"

lemma workingD:
  assumes "working k fd got out rest"
  shows "reader k fd got" "writer k fd out" "takes k fd" "changed_by k {fd} {} got" "changed_by k {} {fd} out"
    "0 < n \<Longrightarrow> k_read k fd n w = ((r, e, data), w') \<Longrightarrow> 0 \<le> r \<and> (rest w \<noteq> [] \<longrightarrow> 0 < r) \<and> rest w = data @ rest w'"
    "k_socket k d t w = ((r1, e1, u1), w') \<Longrightarrow> r1 = fd \<and> got w' = got w \<and> out w' = out w"
    "k_connect k fd a w = ((r2, e2, u2), w') \<Longrightarrow> r2 = 0 \<and> got w' = got w \<and> out w' = out w"
    "k_shutdown k fd h w = ((r3, e3, u3), w') \<Longrightarrow> r3 = 0" "k_close k fd w = ((r4, e4, u4), w') \<Longrightarrow> r4 = 0"
    "0 \<le> fd" "to_int fd = fd"
proof -
  note def = assms [unfolded working_def]
  show "reader k fd got" "writer k fd out" "takes k fd" "changed_by k {fd} {} got" "changed_by k {} {fd} out" "0 \<le> fd" using def by blast+
  show "to_int fd = fd" using def by (intro to_int_id) simp_all
  have rd: "\<forall>n w. 0 < n \<longrightarrow> (case k_read k fd n w of ((r, _, data), w') \<Rightarrow> 0 \<le> r \<and> (rest w \<noteq> [] \<longrightarrow> 0 < r) \<and> rest w = data @ rest w')"
    using def by (elim conjE)
  have so: "\<forall>d t w. case k_socket k d t w of ((r, _, _), w') \<Rightarrow> r = fd \<and> got w' = got w \<and> out w' = out w"
    using def by (elim conjE)
  have co: "\<forall>a w. case k_connect k fd a w of ((r, _, _), w') \<Rightarrow> r = 0 \<and> got w' = got w \<and> out w' = out w"
    using def by (elim conjE)
  have sh: "\<forall>h w. fst (fst (k_shutdown k fd h w)) = 0" and cl: "\<forall>w. fst (fst (k_close k fd w)) = 0"
    using def by blast+
  show "0 < n \<Longrightarrow> k_read k fd n w = ((r, e, data), w') \<Longrightarrow> 0 \<le> r \<and> (rest w \<noteq> [] \<longrightarrow> 0 < r) \<and> rest w = data @ rest w'"
    using rd [rule_format, of n w] by simp
  show "k_socket k d t w = ((r1, e1, u1), w') \<Longrightarrow> r1 = fd \<and> got w' = got w \<and> out w' = out w" using so [rule_format, of w d t] by simp
  show "k_connect k fd a w = ((r2, e2, u2), w') \<Longrightarrow> r2 = 0 \<and> got w' = got w \<and> out w' = out w" using co [rule_format, of w a] by simp
  show "k_shutdown k fd h w = ((r3, e3, u3), w') \<Longrightarrow> r3 = 0" using sh [rule_format, of h w] by simp
  show "k_close k fd w = ((r4, e4, u4), w') \<Longrightarrow> r4 = 0" using cl [rule_format, of w] by simp
qed

lemma read_working:
  fixes s :: "'w webget"
  assumes w: "working k fd got out rest" and n: "fd_num sock s = fd" and l: "sock < length (wrappers s)"
  obtains data s' where "FileDescriptor_read k sock (- 1) s = (Inr data, s')" "got (kern s') = got (kern s) @ data"
    "out (kern s') = out (kern s)" "frame sock s s'" "rest (kern s) = data @ rest (kern s')"
    "fd_eof sock s' \<longleftrightarrow> fd_eof sock s \<or> data = []" "data = [] \<longrightarrow> rest (kern s) = []"
proof -
  have m: "min READ_BUFFER_SIZE (- 1) = READ_BUFFER_SIZE" "0 < READ_BUFFER_SIZE" "0 < (- 1 :: u64)" "sint READ_BUFFER_SIZE = 1048576"
    by (simp_all add: READ_BUFFER_SIZE_def min_def word_gt_0)
  obtain v e data w' where k: "k_read k fd READ_BUFFER_SIZE (kern s) = ((v, e, data), w')" by (metis prod.exhaust)
  note kr = workingD(6) [OF w m(2) k]
  have rd: "v \<le> 1048576" "length data = nat v" "got w' = got (kern s) @ data"
    using workingD(1) [OF w, unfolded reader_def, rule_format, of READ_BUFFER_SIZE "kern s"] k by (simp_all add: READ_BUFFER_SIZE_def)
  have t: "to_int v = v" using kr rd(1) by (intro to_int_id) linarith+
  have d: "data = [] \<longleftrightarrow> v = 0" using kr rd(2) by auto
  have sc: "system_call ''read'' (\<lambda>s. k_read k (fd_num sock s) READ_BUFFER_SIZE) s = (Inr (v, data), s\<lparr>kern := w'\<rparr>)"
    using n k kr t by (simp add: system_call_def SystemCall_def)
  define s' where "s' = register_read sock ((if v = 0 then on_wrapper sock (\<lambda>w. w\<lparr>fdw_eof := True\<rparr>) else id) (s\<lparr>kern := w'\<rparr>))"
  have "resize (data @ replicate (unat READ_BUFFER_SIZE - length data) 0) (nat v) = data" using rd(2) by (simp add: resize_def)
  then have r: "FileDescriptor_read k sock (- 1) s = (Inr data, s')"
    using sc kr rd(1) m by (simp add: FileDescriptor_read_def prog_defs s'_def)
  have f: "frame sock s s'" using FileDescriptor_read_frame [OF r l] .
  have o: "out (kern s') = out (kern s)" by (rule changed_by_ops(1) [OF workingD(5) [OF w] r]) simp
  have k': "kern s' = w'" using FileDescriptor_read_kern [OF r] n k m(1) by simp
  have e: "fd_eof sock s' \<longleftrightarrow> fd_eof sock s \<or> data = []" using l d by (simp add: s'_def fd_eof_def register_read_def)
  show thesis using that [OF r _ o f] rd(3) kr k' e d by auto
qed

lemma print_loop_total:
  fixes s :: "'w webget"
  assumes w: "working k fd got out rest" and "fd_num sock s = fd" and "sock < length (wrappers s)" and "fd_eof sock s \<longrightarrow> rest (kern s) = []"
  shows "\<exists>s'. print_loop k sock s = Some (Inr (), s') \<and> got (kern s') = got (kern s) @ rest (kern s) \<and> out (kern s') = out (kern s)
    \<and> wg_printed s' = wg_printed s @ rest (kern s) \<and> fd_num sock s' = fd \<and> sock < length (wrappers s')"
  using assms(2-4)
proof (induction "if fd_eof sock s then 0 else Suc (length (rest (kern s)))" arbitrary: s rule: less_induct)
  case less
  show ?case
  proof (cases "fd_eof sock s")
    case True
    then show ?thesis using less.prems by (subst print_loop.simps) simp
  next
    case False
    from w less.prems(1,2) obtain data s1 where r: "FileDescriptor_read k sock (- 1) s = (Inr data, s1)"
      "got (kern s1) = got (kern s) @ data" "out (kern s1) = out (kern s)" "frame sock s s1" "rest (kern s) = data @ rest (kern s1)"
      "fd_eof sock s1 \<longleftrightarrow> fd_eof sock s \<or> data = []" "data = [] \<longrightarrow> rest (kern s) = []" by (rule read_working)
    let ?s = "s1\<lparr>wg_printed := wg_printed s1 @ data\<rparr>"
    have p: "wg_printed s1 = wg_printed s" using r(4) by (cases s; cases s1; simp add: frame_def confined_def)
    have f: "fd_num sock ?s = fd" "sock < length (wrappers ?s)" "fd_eof sock ?s = fd_eof sock s1"
      using r(4) less.prems frame_fd_num [OF r(4), of sock] by (simp_all add: fd_num_def fd_eof_def frame_length)
    have e: "fd_eof sock ?s \<longrightarrow> rest (kern ?s) = []" using False r(5-7) f(3) by auto
    have "(if fd_eof sock ?s then 0 else Suc (length (rest (kern ?s)))) < (if fd_eof sock s then 0 else Suc (length (rest (kern s))))"
      using False r(5,6) f(3) by simp
    from less.hyps [OF this f(1,2) e] show ?thesis
      using False r(1-3,5) p by (subst print_loop.simps) auto
  qed
qed

lemma send_request_works:
  fixes s :: "'w webget"
  assumes w: "working k fd got out rest" and n: "fd_num sock s = fd" and l: "sock < length (wrappers s)"
    and a: "Address_host gai host ''http'' = Inr address" and b: "length (get_request host path) < 2 ^ 63"
  obtains s' where "send_request k gai sock host path s = (Inr (), s')" "out (kern s') = out (kern s) @ get_request host path"
    "got (kern s') = got (kern s)" "frame sock s s'" "fd_eof sock s' = fd_eof sock s"
proof -
  obtain r e u w1 where c: "k_connect k fd (addr_bytes address) (kern s) = ((r, e, u), w1)" by (metis prod.exhaust)
  note k1 = workingD(8) [OF w c]
  define s1 where "s1 = s\<lparr>kern := w1\<rparr>"
  have c1: "Socket_connect k sock address s = (Inr (), s1)"
    using n c k1 by (simp add: Socket_connect_def seq_def system_call_def SystemCall_def to_int_def ret_def s1_def)
  have n1: "fd_num sock s1 = fd" "sock < length (wrappers s1)" "frame sock s s1"
    using n l by (simp_all add: s1_def fd_num_def frame_def confined_def)
  obtain x s2 where wr: "FileDescriptor_write k sock [get_request host path] True s1 = (x, s2)" by fastforce
  have "writer k (fd_num sock s1) out" "length (concat [get_request host path]) < 2 ^ 63" using workingD(2) [OF w] n1 b by simp_all
  from write_loop_out [OF this n1(2) wr [unfolded FileDescriptor_write_def]] workingD(3) [OF w] n1(1) obtain v where
    x: "x = Inr v" "out (kern s2) = out (kern s1) @ get_request host path" by fastforce
  have f2: "frame sock s1 s2" using FileDescriptor_write_frame [OF wr n1(2)] .
  have g2: "got (kern s2) = got (kern s1)" by (rule changed_by_ops(2) [OF workingD(4) [OF w] wr n1(2)]) simp
  have n2: "fd_num sock s2 = fd" "sock < length (wrappers s2)" using f2 n1 frame_fd_num [OF f2] frame_length [OF f2] by simp_all
  obtain r3 e3 u3 w3 where h: "k_shutdown k fd SHUT_WR (kern s2) = ((r3, e3, u3), w3)" by (metis prod.exhaust)
  define s3 where "s3 = register_write sock (s2\<lparr>kern := w3\<rparr>)"
  have c3: "Socket_shutdown k sock SHUT_WR s2 = (Inr (), s3)"
    using n2 h workingD(9) [OF w h]
    by (simp add: Socket_shutdown_def seq_def system_call_def SystemCall_def to_int_def change_def s3_def SHUT_WR_def SHUT_RD_def)
  have "send_request k gai sock host path s = (Inr (), s3)"
    using a c1 wr x(1) c3 by (simp add: send_request_def seq_def lift_def)
  moreover have "frame sock s s3"
    using frame_trans [OF n1(3) frame_trans [OF f2 Socket_shutdown_frame [OF c3 n2(2)]]] .
  moreover have "got (kern s3) = got (kern s2)" "out (kern s3) = out (kern s2)"
    using changed_by_ops(5) [OF workingD(4) [OF w] c3] changed_by_ops(5) [OF workingD(5) [OF w] c3] by simp_all
  moreover have "fd_eof sock s3 = fd_eof sock s" using FileDescriptor_write_eof [OF wr n1(2)] n2(2) by (simp add: s3_def s1_def fd_eof_def register_write_def)
  ultimately show thesis using that x(2) g2 k1 by (simp add: s1_def)
qed

section \<open>Properties\<close>

text \<open>
  C38. On a connection that works, \<open>get_URL\<close> ends: the request has been written to the connection, whole and once, and everything the
  peer has to send when the request is complete has been read and printed, and nothing else.
\<close>

theorem get_URL_prints_answer:
  fixes s :: "'w webget"
  assumes w: "working k fd got out rest" and a: "Address_host gai host ''http'' = Inr address" and b: "length (get_request host path) < 2 ^ 63"
  shows "\<exists>sock s0 s1 s'. TCPSocket_new k s = (Inr sock, s0) \<and> send_request k gai sock host path s0 = (Inr (), s1) \<and> get_URL k gai host path s = Some (Inr (), s')
    \<and> out (kern s') = out (kern s) @ get_request host path
    \<and> got (kern s') = got (kern s) @ rest (kern s1) \<and> wg_printed s' = wg_printed s @ rest (kern s1)"
proof -
  obtain r e u w0 where c: "k_socket k AF_INET SOCK_STREAM (kern s) = ((r, e, u), w0)" by (metis prod.exhaust)
  note k0 = workingD(7) [OF w c] and fd = workingD(11,12) [OF w]
  define sock where "sock = length (wrappers s)"
  define s0 where "s0 = s\<lparr>kern := w0, wrappers := wrappers s @
    [\<lparr>fdw_fd = fd, fdw_eof = False, fdw_closed = False, fdw_read_count = 0, fdw_write_count = 0, fdw_use_count = 1\<rparr>]\<rparr>"
  have t: "TCPSocket_new k s = (Inr sock, s0)"
    using c k0 fd by (simp add: TCPSocket_new_def Socket_new_def seq_def system_call_def SystemCall_def FileDescriptor_new_eq sock_def s0_def)
  have n0: "fd_num sock s0 = fd" "sock < length (wrappers s0)" "\<not> fd_eof sock s0" by (simp_all add: s0_def sock_def fd_num_def fd_eof_def)
  from w n0(1,2) a b obtain s1 where r: "send_request k gai sock host path s0 = (Inr (), s1)"
    "out (kern s1) = out (kern s0) @ get_request host path" "got (kern s1) = got (kern s0)" "frame sock s0 s1" "fd_eof sock s1 = fd_eof sock s0"
    by (rule send_request_works)
  have n1: "fd_num sock s1 = fd" "sock < length (wrappers s1)" "fd_eof sock s1 \<longrightarrow> rest (kern s1) = []"
    using frame_fd_num [OF r(4), of sock] frame_length [OF r(4)] n0 r(5) by simp_all
  from print_loop_total [OF w n1] obtain s2 where p: "print_loop k sock s1 = Some (Inr (), s2)" "got (kern s2) = got (kern s1) @ rest (kern s1)"
    "out (kern s2) = out (kern s1)" "wg_printed s2 = wg_printed s1 @ rest (kern s1)" "fd_num sock s2 = fd" "sock < length (wrappers s2)" by blast
  obtain r3 e3 u3 w3 where h: "k_close k fd (kern s2) = ((r3, e3, u3), w3)" by (metis prod.exhaust)
  obtain x s3 where cl: "FDWrapper_close k sock s2 = (x, s3)" by fastforce
  have x: "x = Inr ()" using cl h p(5) workingD(10) [OF w h]
    by (simp add: FDWrapper_close_def seq_def system_call_def SystemCall_def to_int_def change_def)
  let ?s = "FileDescriptor_destroy k sock s3"
  have g: "get_URL k gai host path s = Some (Inr (), ?s)" using t r(1) p(1) cl x by (simp add: get_URL_def FileDescriptor_close_def)
  have f: "frame sock s2 s3" using FDWrapper_close_frame [OF cl p(6)] .
  have "frame sock s3 ?s" using frame_length [OF f] p(6) by (intro FileDescriptor_destroy_frame) simp
  note f = frame_trans [OF f this]
  have o: "got (kern ?s) = got (kern s2)" "out (kern ?s) = out (kern s2)"
    using changed_by_ops(3,4) [OF workingD(4) [OF w]] changed_by_ops(3,4) [OF workingD(5) [OF w]] cl by (metis snd_conv)+
  have q: "wg_printed ?s = wg_printed s2" "wg_printed s1 = wg_printed s0"
    using f r(4) by (cases s2; cases ?s; cases s1; cases s0; simp add: frame_def confined_def)+
  show ?thesis
    using t g o q r p k0 by (intro exI [of _ sock] exI [of _ s0] exI [of _ s1] exI [of _ ?s]) (simp add: s0_def)
qed

text \<open>A connection 3 that takes and gives at most two bytes at a time.\<close>

record web =
  web_got :: "byte list"
  web_out :: "byte list"
  web_rest :: "byte list"

definition web_kernel :: "web kernel" where
  "web_kernel = failing_kernel\<lparr>
     k_socket := \<lambda>_ _ w. ((3, 0, ()), w), k_connect := \<lambda>_ _ w. ((0, 0, ()), w),
     k_shutdown := \<lambda>_ _ w. ((0, 0, ()), w), k_close := \<lambda>_ w. ((0, 0, ()), w),
     k_read := \<lambda>fd n w. if fd = 3
       then let data = take (min 2 (unat n)) (web_rest w)
            in ((int (length data), 0, data), w\<lparr>web_got := web_got w @ data, web_rest := drop (length data) (web_rest w)\<rparr>)
       else ((- 1, 9, []), w),
     k_writev := \<lambda>fd bufs w. if fd = 3
       then ((int (length (take 2 (concat bufs))), 0, ()), w\<lparr>web_out := web_out w @ take 2 (concat bufs)\<rparr>) else ((- 1, 9, ()), w)\<rparr>"

lemma web_working: "working web_kernel 3 web_got web_out web_rest"
proof -
  have "int (length (take (min 2 (unat n)) xs)) \<le> uint n" for n :: u64 and xs :: "byte list"
  proof -
    have "length (take (min 2 (unat n)) xs) \<le> unat n" by simp
    then show ?thesis by (simp only: uint_nat of_nat_le_iff)
  qed
  then have "reader web_kernel 3 web_got" by (simp add: reader_def web_kernel_def Let_def)
  moreover have "writer web_kernel 3 web_out" "takes web_kernel 3" by (auto simp: writer_def takes_def web_kernel_def min_def)
  moreover have "changed_by web_kernel {3} {} web_got" "changed_by web_kernel {} {3} web_out"
    by (simp_all add: changed_by_def web_kernel_def failing_kernel_def Let_def)
  moreover have "case k_read web_kernel 3 n w of ((r, _, data), w') \<Rightarrow> 0 \<le> r \<and> (web_rest w \<noteq> [] \<longrightarrow> 0 < r) \<and> web_rest w = data @ web_rest w'"
    if "0 < n" for n w
    using that by (simp add: web_kernel_def Let_def word_gt_0 unat_gt_0 min_def)
  moreover have "k_socket web_kernel = (\<lambda>_ _ w. ((3, 0, ()), w))" "k_connect web_kernel = (\<lambda>_ _ w. ((0, 0, ()), w))"
    "k_shutdown web_kernel = (\<lambda>_ _ w. ((0, 0, ()), w))" "k_close web_kernel = (\<lambda>_ w. ((0, 0, ()), w))"
    by (simp_all add: web_kernel_def)
  ultimately show ?thesis by (simp add: working_def)
qed

theorem get_URL_prints_answer_witness:
  "\<exists>s'. get_URL web_kernel (\<lambda>_ _ _. Inr [replicate 16 0]) ''a'' ''/''
       \<lparr>wrappers = [], kern = \<lparr>web_got = [], web_out = [], web_rest = [79, 75, 10]\<rparr>, wg_printed = []\<rparr> = Some (Inr (), s')
     \<and> web_out (kern s') = get_request ''a'' ''/'' \<and> wg_printed s' = web_got (kern s')"
proof -
  have a: "\<exists>address. Address_host (\<lambda>_ _ _. Inr [replicate 16 0]) ''a'' ''http'' = Inr address"
    by (simp add: Address_host_def Address_lookup_def Address_raw_def sz_def)
  have b: "length (get_request ''a'' ''/'') < 2 ^ 63" by (simp add: get_request_def string_bytes_def crlf_def)
  obtain address where "Address_host (\<lambda>_ _ _. Inr [replicate 16 0]) ''a'' ''http'' = Inr address" using a by blast
  from get_URL_prints_answer [OF web_working this b, of "\<lparr>wrappers = [], kern = \<lparr>web_got = [], web_out = [], web_rest = [79, 75, 10]\<rparr>, wg_printed = []\<rparr>"]
  show ?thesis by auto
qed

end
