(* ===== verification/Network.thy ===== *)
theory Network
  imports Connection_Lifecycle Adapters
begin

text \<open>
  Two endpoints and the network between them. Each endpoint is a connection with a TUN adapter, driven as the
  event loop of \<^verbatim>\<open>libsponge/tcp_helpers/tcp_sponge_socket.cc\<close> drives it: the application connects, writes, ends its
  stream and reads; time passes; segments the connection has queued are written to the device; datagrams
  are read from the device and handed to the connection. The network may deliver any datagram the other side has ever
  written, at any time and any number of times, never deliver it, and deliver anything that the adapter does not accept.
\<close>

section \<open>Model\<close>

datatype side = Left | Right

fun other :: "side \<Rightarrow> side" where
  "other Left = Right"
| "other Right = Left"

record endpoint =
  tcp :: TCPConnection
  device :: FdAdapterBase

record net =
  node :: "side \<Rightarrow> endpoint"
  sent :: "side \<Rightarrow> byte list list"

datatype net_op = App side cn_op | Transmit side | Arrive side nat | Noise side "byte list"

definition at_node :: "side \<Rightarrow> (endpoint \<Rightarrow> endpoint) \<Rightarrow> net \<Rightarrow> net" where
  "at_node s f n = n\<lparr>node := (node n)(s := f (node n s))\<rparr>"

text \<open>Rules 1 and 4 of the event loop: a datagram is read, the front segment is written.\<close>

definition receive_datagram :: "getaddrinfo \<Rightarrow> getnameinfo \<Rightarrow> byte list \<Rightarrow> endpoint \<Rightarrow> endpoint" where
  "receive_datagram gai gni bytes e =
     (case tun_read gai gni bytes (device e) of
        Inl _ \<Rightarrow> e
      | Inr (None, ad) \<Rightarrow> e\<lparr>device := ad\<rparr>
      | Inr (Some seg, ad) \<Rightarrow> e\<lparr>device := ad, tcp := cn_segment_received seg (tcp e)\<rparr>)"

definition send_datagram :: "getnameinfo \<Rightarrow> side \<Rightarrow> net \<Rightarrow> net" where
  "send_datagram gni s n =
     (case cn_segments_out (tcp (node n s)) of
        [] \<Rightarrow> n
      | seg # _ \<Rightarrow>
          (case tun_write gni seg (device (node n s)) of
             Inl _ \<Rightarrow> n
           | Inr (bl, _) \<Rightarrow>
               at_node s (\<lambda>e. e\<lparr>tcp := cn_step CSend (tcp e)\<rparr>) (n\<lparr>sent := (sent n)(s := sent n s @ [BufferList_concatenate bl])\<rparr>)))"

fun net_step :: "getaddrinfo \<Rightarrow> getnameinfo \<Rightarrow> net_op \<Rightarrow> net \<Rightarrow> net" where
  "net_step gai gni (App s e) n = at_node s (\<lambda>x. x\<lparr>tcp := cn_step e (tcp x)\<rparr>) n"
| "net_step gai gni (Transmit s) n = send_datagram gni s n"
| "net_step gai gni (Arrive s i) n = at_node s (receive_datagram gai gni (sent n (other s) ! i)) n"
| "net_step gai gni (Noise s bytes) n = at_node s (receive_datagram gai gni bytes) n"

text \<open>What the application at a side reads in a step.\<close>

fun net_delivers :: "side \<Rightarrow> net_op \<Rightarrow> net \<Rightarrow> byte list" where
  "net_delivers s (App s' e) n = (if s' = s then cn_delivers e (tcp (node n s)) else [])"
| "net_delivers s _ n = []"

text \<open>
  The applications write the streams \<open>S Left\<close> and \<open>S Right\<close> of lengths \<open>L Left\<close> and \<open>L Right\<close>; only datagrams
  that were written arrive, or others that the adapter does not accept.
\<close>

fun app_op :: "cn_op \<Rightarrow> bool" where
  "app_op (CReceive seg) = False"
| "app_op CSend = False"
| "app_op _ = True"

fun net_ok :: "getaddrinfo \<Rightarrow> getnameinfo \<Rightarrow> (side \<Rightarrow> nat \<Rightarrow> byte) \<Rightarrow> (side \<Rightarrow> nat) \<Rightarrow> net \<Rightarrow> net_op \<Rightarrow> bool" where
  "net_ok gai gni S L n (App s (CWrite d)) \<longleftrightarrow> snd_ok (S s) (L s) (sender (tcp (node n s))) (SWrite d)"
| "net_ok gai gni S L n (App s CEnd) \<longleftrightarrow> snd_ok (S s) (L s) (sender (tcp (node n s))) SEnd"
| "net_ok gai gni S L n (App s e) \<longleftrightarrow> app_op e"
| "net_ok gai gni S L n (Transmit s) \<longleftrightarrow> True"
| "net_ok gai gni S L n (Arrive s i) \<longleftrightarrow> i < length (sent n (other s))"
| "net_ok gai gni S L n (Noise s bytes) \<longleftrightarrow> tun_read gai gni bytes (device (node n s)) = Inr (None, device (node n s))"

text \<open>Two fresh connections on connected adapters.\<close>

definition net_new :: "(side \<Rightarrow> TCPConfig) \<Rightarrow> (side \<Rightarrow> u32) \<Rightarrow> (side \<Rightarrow> FdAdapterBase) \<Rightarrow> net" where
  "net_new cf rnd ad = \<lparr>node = \<lambda>s. \<lparr>tcp = TCPConnection_new (cf s) (rnd s), device = ad s\<rparr>, sent = \<lambda>s. []\<rparr>"

definition adapters_match :: "(side \<Rightarrow> u32) \<Rightarrow> (side \<Rightarrow> u16) \<Rightarrow> (side \<Rightarrow> FdAdapterBase) \<Rightarrow> bool" where
  "adapters_match ip pt ad \<longleftrightarrow> (\<forall>s. connected (ip s) (pt s) (ip (other s)) (pt (other s)) (ad s))"

section \<open>The invariant of the network\<close>

lemma other_other [simp]: "other (other s) = s"
  by (cases s) simp_all

text \<open>A datagram on the wire is read by the other side as a segment of the sender's stream, or a bare acknowledgment.\<close>

definition on_wire :: "getaddrinfo \<Rightarrow> getnameinfo \<Rightarrow> (side \<Rightarrow> u32) \<Rightarrow> (side \<Rightarrow> u16) \<Rightarrow> (side \<Rightarrow> nat \<Rightarrow> byte) \<Rightarrow> (side \<Rightarrow> nat)
    \<Rightarrow> (side \<Rightarrow> WrappingInt32) \<Rightarrow> side \<Rightarrow> byte list \<Rightarrow> bool" where
  "on_wire gai gni ip pt S L isn s bytes \<longleftrightarrow> (\<exists>seg. (bare_ack seg \<or> (\<exists>k. seg_at (S s) (L s) (isn s) k seg))
     \<and> (\<forall>b. connected (ip (other s)) (pt (other s)) (ip s) (pt s) b \<longrightarrow> tun_read gai gni bytes b = Inr (Some seg, b)))"

definition node_inv :: "(side \<Rightarrow> u32) \<Rightarrow> (side \<Rightarrow> u16) \<Rightarrow> (side \<Rightarrow> nat \<Rightarrow> byte) \<Rightarrow> (side \<Rightarrow> nat) \<Rightarrow> (side \<Rightarrow> WrappingInt32)
    \<Rightarrow> side \<Rightarrow> endpoint \<Rightarrow> bool" where
  "node_inv ip pt S L isn s e \<longleftrightarrow> cn_inv (S (other s)) (L (other s)) (isn (other s)) (S s) (L s) (tcp e)
     \<and> snd_isn (sender (tcp e)) = isn s \<and> connected (ip s) (pt s) (ip (other s)) (pt (other s)) (device e)"

definition net_inv :: "getaddrinfo \<Rightarrow> getnameinfo \<Rightarrow> (side \<Rightarrow> u32) \<Rightarrow> (side \<Rightarrow> u16) \<Rightarrow> (side \<Rightarrow> nat \<Rightarrow> byte) \<Rightarrow> (side \<Rightarrow> nat)
    \<Rightarrow> (side \<Rightarrow> WrappingInt32) \<Rightarrow> net \<Rightarrow> bool" where
  "net_inv gai gni ip pt S L isn n \<longleftrightarrow> numeric_resolver gai gni \<and> (\<forall>s. L s < 2 ^ 31 - 1)
     \<and> (\<forall>s. node_inv ip pt S L isn s (node n s)) \<and> (\<forall>s. \<forall>bytes \<in> set (sent n s). on_wire gai gni ip pt S L isn s bytes)"

text \<open>The initial sequence number of a connection never changes.\<close>

lemma emit_all_isn [simp]: "snd_isn (sender (emit_all segs c)) = snd_isn (sender c)"
  by (induction segs arbitrary: c) (simp_all add: emit_segment_fields(2))

lemma sendseg_isn [simp]: "snd_isn (sender (sendseg c)) = snd_isn (sender c)"
  by (simp add: sendseg_def Let_def)

lemma cn_step_isn [simp]: "snd_isn (sender (cn_step e c)) = snd_isn (sender c)"
proof (cases e)
  case (CReceive seg)
  then show ?thesis by (simp add: cn_segment_received_def Let_def)
next
  case (CTick ms)
  then show ?thesis by (simp add: cn_tick_def Let_def)
qed (simp_all add: connect_def cn_write_def end_input_stream_def TCPConnection_destroy_def case_prod_beta Let_def)

lemma net_inv_new:
  fixes cf rnd
  assumes "numeric_resolver gai gni" and "\<And>s. L s < 2 ^ 31 - 1" and "adapters_match ip pt ad"
  defines "n \<equiv> net_new cf rnd ad"
  shows "net_inv gai gni ip pt S L (\<lambda>s. snd_isn (sender (tcp (node n s)))) n"
proof -
  have "L s < 2 ^ 64 - 2 ^ 32" for s using assms(2) [of s] by simp
  then show ?thesis
    using assms(1-3) by (simp add: net_inv_def node_inv_def net_new_def adapters_match_def cn_inv_new n_def)
qed

lemma node_inv_cn_step:
  assumes "node_inv ip pt S L isn s e" and "cn_ok (S (other s)) (L (other s)) (isn (other s)) (S s) (L s) (tcp e) op"
  shows "node_inv ip pt S L isn s (e\<lparr>tcp := cn_step op (tcp e)\<rparr>)"
  using assms cn_step_inv [of "S (other s)" "L (other s)" "isn (other s)" "S s" "L s" "tcp e" op] by (simp add: node_inv_def)

lemma cn_receivable:
  assumes i: "cn_inv Si Li isn So Lo c" and l: "Li < 2 ^ 31 - 1" and g: "bare_ack seg \<or> (\<exists>k. seg_at Si Li isn k seg)"
  shows "cn_ok Si Li isn So Lo c (CReceive seg)"
proof -
  let ?w = "bytes_written (rcv_stream_out (receiver c))"
  have "unat ?w \<le> Li" using rcv_invD(6) [OF cn_inv_parts(1) [OF i]] .
  then have "int (unat ?w) \<le> int Li" by (simp only: of_nat_le_iff)
  then have w: "uint ?w \<le> int Li" by (simp only: of_nat_unat)
  have l': "int Li < 2147483647" using l by simp
  have "in_reach (receiver c) k" if "k \<le> Li" for k
  proof -
    have "\<bar>int k + 1 - uint ?w\<bar> < 2147483648" using that w l' uint_ge_0 [of ?w] by linarith
    then show ?thesis by (simp add: in_reach_def)
  qed
  then show ?thesis using g by (auto simp: seg_at_def)
qed

lemma receivable:
  assumes "node_inv ip pt S L isn s e" and "L (other s) < 2 ^ 31 - 1"
    and "bare_ack seg \<or> (\<exists>k. seg_at (S (other s)) (L (other s)) (isn (other s)) k seg)"
  shows "cn_ok (S (other s)) (L (other s)) (isn (other s)) (S s) (L s) (tcp e) (CReceive seg)"
  using assms cn_receivable by (simp only: node_inv_def)

lemma node_inv_receive:
  assumes i: "node_inv ip pt S L isn s e" and l: "L (other s) < 2 ^ 31 - 1"
    and w: "on_wire gai gni ip pt S L isn (other s) bytes"
  shows "node_inv ip pt S L isn s (receive_datagram gai gni bytes e)"
proof -
  obtain seg where g: "bare_ack seg \<or> (\<exists>k. seg_at (S (other s)) (L (other s)) (isn (other s)) k seg)"
    "tun_read gai gni bytes (device e) = Inr (Some seg, device e)"
    using w i by (auto simp: on_wire_def node_inv_def)
  then show ?thesis
    using node_inv_cn_step [OF i receivable [OF i l g(1)]] by (simp add: receive_datagram_def)
qed

lemma sent_on_wire:
  assumes r: "numeric_resolver gai gni" and i: "node_inv ip pt S L isn s e" and o: "cn_segments_out (tcp e) = seg # rest"
  shows "\<exists>bl. tun_write gni seg (device e) = Inr (bl, addressed (pt s) (pt (other s)) seg)
    \<and> on_wire gai gni ip pt S L isn s (BufferList_concatenate bl)"
proof -
  have "out_ok (S s) (L s) (isn s) seg" using i o by (auto simp: node_inv_def cn_inv_def)
  note p = out_ok_peer [OF this]
  then have "sendable seg" by (simp add: sendable_def)
  then obtain bl seg' where w: "tun_write gni seg (device e) = Inr (bl, addressed (pt s) (pt (other s)) seg)"
    "arrives (pt s) (pt (other s)) seg seg'"
    "\<forall>b. connected (ip (other s)) (pt (other s)) (ip s) (pt s) b \<longrightarrow> tun_read gai gni (BufferList_concatenate bl) b = Inr (Some seg', b)"
    using tun_delivers [OF r] i unfolding node_inv_def by blast
  note a = arrives_fields [OF w(2)]
  have "bare_ack seg' \<or> (\<exists>k. seg_at (S s) (L s) (isn s) k seg')"
    using p(4) a by (auto simp: bare_ack_def seg_at_def)
  then show ?thesis using w unfolding on_wire_def by blast
qed

lemma at_node_simps [simp]: "sent (at_node s f n) = sent n" "node (at_node s f n) t = (if t = s then f (node n s) else node n t)"
  by (simp_all add: at_node_def)

lemma app_cn_ok:
  "net_ok gai gni S L n (App s e) \<Longrightarrow> cn_ok (S (other s)) (L (other s)) (isn (other s)) (S s) (L s) (tcp (node n s)) e"
  by (cases e) (simp_all del: snd_ok.simps)

lemma net_step_inv:
  assumes i: "net_inv gai gni ip pt S L isn n" and o: "net_ok gai gni S L n e"
  shows "net_inv gai gni ip pt S L isn (net_step gai gni e n)"
proof (cases e)
  case (App s op)
  then show ?thesis
    using i app_cn_ok [of gai gni S L n s op] o node_inv_cn_step [of ip pt S L isn s "node n s" op] by (simp add: net_inv_def)
next
  case (Transmit s)
  show ?thesis
  proof (cases "cn_segments_out (tcp (node n s))")
    case (Cons seg rest)
    have s: "numeric_resolver gai gni" "node_inv ip pt S L isn s (node n s)" using i by (simp_all add: net_inv_def)
    obtain bl where "tun_write gni seg (device (node n s)) = Inr (bl, addressed (pt s) (pt (other s)) seg)"
      "on_wire gai gni ip pt S L isn s (BufferList_concatenate bl)"
      using sent_on_wire [OF s Cons] by blast
    then show ?thesis
      using i Transmit Cons node_inv_cn_step [OF s(2), of CSend] by (simp add: net_inv_def send_datagram_def)
  qed (use i Transmit in \<open>simp add: send_datagram_def\<close>)
next
  case (Arrive s k)
  then have "on_wire gai gni ip pt S L isn (other s) (sent n (other s) ! k)" using i o by (auto simp: net_inv_def)
  then show ?thesis using i Arrive by (auto simp: net_inv_def intro: node_inv_receive)
next
  case (Noise s bytes)
  then have "receive_datagram gai gni bytes (node n s) = node n s" using o by (simp add: receive_datagram_def)
  then show ?thesis using i Noise by (simp add: net_inv_def)
qed

section \<open>Delivery\<close>

abbreviation taken :: "side \<Rightarrow> net \<Rightarrow> nat" where
  "taken s n \<equiv> unat (bytes_read (inbound_stream (tcp (node n s))))"

lemma node_delivers:
  assumes "node_inv ip pt S L isn s e" and "cn_ok (S (other s)) (L (other s)) (isn (other s)) (S s) (L s) (tcp e) op"
  shows "map (S (other s)) [0..<unat (bytes_read (inbound_stream (tcp e)))] @ cn_delivers op (tcp e)
    = map (S (other s)) [0..<unat (bytes_read (inbound_stream (cn_step op (tcp e))))]"
  using cn_step_delivers [OF _ assms(2)] assms(1) by (simp add: node_inv_def)

lemma receive_delivers:
  assumes i: "node_inv ip pt S L isn s e" and l: "L (other s) < 2 ^ 31 - 1"
    and w: "on_wire gai gni ip pt S L isn (other s) bytes"
  shows "map (S (other s)) [0..<unat (bytes_read (inbound_stream (tcp e)))]
    = map (S (other s)) [0..<unat (bytes_read (inbound_stream (tcp (receive_datagram gai gni bytes e))))]"
proof -
  obtain seg where g: "bare_ack seg \<or> (\<exists>k. seg_at (S (other s)) (L (other s)) (isn (other s)) k seg)"
    "tun_read gai gni bytes (device e) = Inr (Some seg, device e)"
    using w i by (auto simp: on_wire_def node_inv_def)
  then show ?thesis using node_delivers [OF i receivable [OF i l g(1)]] by (simp add: receive_datagram_def)
qed

lemma send_taken: "taken t (send_datagram gni s n) = taken t n"
  by (auto simp: send_datagram_def inbound_stream_def split: list.split sum.split prod.split)

lemma net_step_delivers:
  assumes i: "net_inv gai gni ip pt S L isn n" and o: "net_ok gai gni S L n e"
  shows "map (S (other t)) [0..<taken t n] @ net_delivers t e n = map (S (other t)) [0..<taken t (net_step gai gni e n)]"
proof (cases e)
  case (App s op)
  then show ?thesis
    using i app_cn_ok [of gai gni S L n s op] o node_delivers [of ip pt S L isn s "node n s" op] by (auto simp: net_inv_def)
next
  case (Arrive s k)
  then have "on_wire gai gni ip pt S L isn (other s) (sent n (other s) ! k)" using i o by (auto simp: net_inv_def)
  then show ?thesis
    using i Arrive receive_delivers [of ip pt S L isn s "node n s" gai gni "sent n (other s) ! k"] by (simp add: net_inv_def)
next
  case (Noise s bytes)
  then have "receive_datagram gai gni bytes (node n s) = node n s" using o by (simp add: receive_datagram_def)
  then show ?thesis using Noise by simp
qed (simp add: send_taken)

interpretation net_sys: delivery_system "net_step gai gni" "net_ok gai gni S L" "net_inv gai gni ip pt S L isn"
    "net_delivers t" "taken t" "S (other t)" for gai gni S L ip pt isn t
  by unfold_locales (rule net_step_inv net_step_delivers; assumption)+

text \<open>What an endpoint has read and holds is a prefix of the other application's stream.\<close>

lemma inbound_prefix:
  assumes "net_inv gai gni ip pt S L isn n"
  shows "map (S (other t)) [0..<taken t n] @ bs_buf (inbound_stream (tcp (node n t)))
      = map (S (other t)) [0..<unat (bytes_written (inbound_stream (tcp (node n t))))]"
    and "unat (bytes_written (inbound_stream (tcp (node n t)))) \<le> L (other t)"
proof -
  have "rcv_inv (S (other t)) (L (other t)) (isn (other t)) (receiver (tcp (node n t)))"
    using assms by (simp add: net_inv_def node_inv_def cn_inv_def)
  note r = rcv_invD [OF this]
  show "unat (bytes_written (inbound_stream (tcp (node n t)))) \<le> L (other t)" using r(6) by (simp add: inbound_stream_def)
  have "bs_holds (S (other t)) (inbound_stream (tcp (node n t)))"
    using r(1) sr_invD(1) by (simp add: inbound_stream_def rcv_stream_out_def)
  then show "map (S (other t)) [0..<taken t n] @ bs_buf (inbound_stream (tcp (node n t)))
      = map (S (other t)) [0..<unat (bytes_written (inbound_stream (tcp (node n t))))]"
    using bs_holds_total by (simp add: bytes_read_def bytes_written_def)
qed

lemma transmit_sent:
  assumes i: "net_inv gai gni ip pt S L isn n" and o: "cn_segments_out (tcp (node n s)) \<noteq> []"
  shows "length (sent (net_step gai gni (Transmit s) n) s) = Suc (length (sent n s))"
proof -
  obtain seg rest where c: "cn_segments_out (tcp (node n s)) = seg # rest" using o by (cases "cn_segments_out (tcp (node n s))") auto
  have r: "numeric_resolver gai gni" "node_inv ip pt S L isn s (node n s)" using i by (simp_all add: net_inv_def)
  from sent_on_wire [OF r c] c show ?thesis by (auto simp: send_datagram_def)
qed

end
