(* ===== verification/Benchmark.thy ===== *)
theory Benchmark
  imports Network "HOL-Library.Sublist"
begin

text \<open>
  \<^verbatim>\<open>apps/tcp_benchmark.cc\<close>: two connections in one process that exchange their segments directly, in order or reversed, while one
  sends a string to the other. The string and the random numbers of the two senders are arguments; time measurement and
  printing are left out.
\<close>

section \<open>Model\<close>

record bench =
  bench_x :: TCPConnection
  bench_y :: TCPConnection
  bytes_to_send :: Buffer
  x_closed :: bool
  string_received :: "byte list"

text \<open>\<open>move_segments\<close>: the new states of the two connections and of the vector.\<close>

definition move_segments ::
    "TCPConnection \<Rightarrow> TCPConnection \<Rightarrow> TCPSegment list \<Rightarrow> bool \<Rightarrow> TCPConnection \<times> TCPConnection \<times> TCPSegment list" where
  "move_segments x y segments reorder =
     (let segments = segments @ cn_segments_out x;
          x = x\<lparr>cn_segments_out := []\<rparr>
      in (x, fold cn_segment_received (if reorder then rev segments else segments) y, []))"

text \<open>The inner loop, which writes as much as the stream of \<open>x\<close> takes.\<close>

partial_function (option) write_input :: "Buffer \<Rightarrow> TCPConnection \<Rightarrow> (exn + Buffer \<times> TCPConnection) option" where
  "write_input b x =
     (if Buffer_size b \<noteq> 0 \<and> remaining_outbound_capacity x \<noteq> 0
      then
        let want = min (remaining_outbound_capacity x) (Buffer_size b);
            (x, written) = cn_write (substr (str b) 0 want) x
        in if want \<noteq> written
           then Some (Inl (runtime_error (''want = '' @ to_string (unat want) @ '', written = '' @ to_string (unat written))))
           else (case Buffer_remove_prefix b written of
                   Inl e \<Rightarrow> Some (Inl e)
                 | Inr b \<Rightarrow> write_input b x)
      else Some (Inr (b, x)))"

definition bench_loop :: "bool \<Rightarrow> bench \<Rightarrow> (exn + bench) option" where
  "bench_loop reorder st =
     (case write_input (bytes_to_send st) (bench_x st) of
        None \<Rightarrow> None
      | Some (Inl e) \<Rightarrow> Some (Inl e)
      | Some (Inr (b, x)) \<Rightarrow>
          let (x, closed) = (if Buffer_size b = 0 \<and> \<not> x_closed st then (end_input_stream x, True) else (x, x_closed st));
              (x, y, segments) = move_segments x (bench_y st) [] reorder;
              (y, x, segments) = move_segments y x segments False;
              available_output = buffer_size (inbound_stream y);
              (y, output) = (if 0 < available_output
                             then (cn_step (CRead available_output) y, cn_delivers (CRead available_output) y) else (y, []))
          in Some (Inr \<lparr>bench_x = cn_tick 1000 x, bench_y = cn_tick 1000 y, bytes_to_send = b, x_closed = closed,
               string_received = string_received st @ output\<rparr>))"

partial_function (option) loop_while :: "(bench \<Rightarrow> bool) \<Rightarrow> bool \<Rightarrow> bench \<Rightarrow> (exn + bench) option" where
  "loop_while condition reorder st =
     (if condition st
      then (case bench_loop reorder st of
              None \<Rightarrow> None
            | Some (Inl e) \<Rightarrow> Some (Inl e)
            | Some (Inr st) \<Rightarrow> loop_while condition reorder st)
      else Some (Inr st))"

definition bench_start :: "u32 \<Rightarrow> u32 \<Rightarrow> byte list \<Rightarrow> bench" where
  "bench_start random_x random_y string_to_send =
     \<lparr>bench_x = connect (TCPConnection_new TCPConfig_new random_x), bench_y = end_input_stream (TCPConnection_new TCPConfig_new random_y),
      bytes_to_send = Buffer_of string_to_send, x_closed = False, string_received = []\<rparr>"

definition mismatch :: exn where
  "mismatch = runtime_error ''strings sent vs. received don't match''"

definition main_loop :: "bool \<Rightarrow> u32 \<Rightarrow> u32 \<Rightarrow> byte list \<Rightarrow> (exn + bench) option" where
  "main_loop reorder random_x random_y string_to_send =
     (case loop_while (\<lambda>st. \<not> ByteStream_eof (inbound_stream (bench_y st))) reorder (bench_start random_x random_y string_to_send) of
        None \<Rightarrow> None
      | Some (Inl e) \<Rightarrow> Some (Inl e)
      | Some (Inr st) \<Rightarrow>
          if string_received st \<noteq> string_to_send then Some (Inl mismatch)
          else loop_while (\<lambda>st. active (bench_x st) \<or> active (bench_y st)) reorder st)"

section \<open>The outgoing stream of a connection\<close>

text \<open>What the application has written, and whether it has ended, only changes when it writes or ends.\<close>

lemma next_segment_stream:
  "next_segment s = (seg, s') \<Longrightarrow> bs_write_count (snd_stream s') = bs_write_count (snd_stream s) \<and> bs_is_eof (snd_stream s') = bs_is_eof (snd_stream s)"
  by (auto simp: next_segment_def Let_def case_prod_beta split: if_splits)

interpretation wr_sys: sender_invariant "\<lambda>s. bytes_written (snd_stream s) = w \<and> input_ended (snd_stream s) = b" "\<lambda>s e. False" for w b
proof
  show "bytes_written (snd_stream s') = w \<and> input_ended (snd_stream s') = b"
    if "snd_move s s'" "bytes_written (snd_stream s) = w \<and> input_ended (snd_stream s) = b" for s s'
    using that by (induction rule: snd_move.induct) (auto simp: bytes_written_def input_ended_def dest: next_segment_stream)
qed simp_all

lemma sender_writes:
  "bytes_written (snd_stream (fill_window s)) = bytes_written (snd_stream s) \<and> input_ended (snd_stream (fill_window s)) = input_ended (snd_stream s)"
  "bytes_written (snd_stream (ack_received a w s)) = bytes_written (snd_stream s)
     \<and> input_ended (snd_stream (ack_received a w s)) = input_ended (snd_stream s)"
  "bytes_written (snd_stream (snd_tick ms s)) = bytes_written (snd_stream s) \<and> input_ended (snd_stream (snd_tick ms s)) = input_ended (snd_stream s)"
  by (rule wr_sys.moves [OF fill_window_moves] wr_sys.moves [OF ack_received_moves] wr_sys.moves [OF snd_tick_moves], simp)+

definition app_stream :: "TCPConnection \<Rightarrow> nat \<times> bool" where
  "app_stream c = (unat (bytes_written (snd_stream (sender c))), input_ended (snd_stream (sender c)))"

lemma app_stream_emit: "app_stream (emit_all segs c) = app_stream c"
  by (induction segs arbitrary: c) (simp_all add: app_stream_def emit_segment_fields snd_set_error_def)

lemma app_stream_simps [simp]:
  "app_stream (sendseg c) = app_stream c" "app_stream (clean_shutdown c) = app_stream c" "app_stream (connect c) = app_stream c"
  "app_stream (c\<lparr>cn_segments_out := q\<rparr>) = app_stream c" "app_stream (c\<lparr>receiver := r\<rparr>) = app_stream c"
proof -
  show s: "app_stream (clean_shutdown c) = app_stream c" for c by (simp add: app_stream_def)
  show "app_stream (sendseg c) = app_stream c" for c
    by (simp add: sendseg_def Let_def s app_stream_emit) (simp add: app_stream_def)
  then show "app_stream (connect c) = app_stream c" by (simp add: connect_def) (simp add: app_stream_def sender_writes)
qed (simp_all add: app_stream_def)

lemma app_stream_received [simp]: "app_stream (cn_segment_received seg c) = app_stream c"
  by (simp add: cn_segment_received_def Let_def) (simp add: app_stream_def sender_writes snd_set_error_def)

lemma app_stream_tick [simp]: "app_stream (cn_tick ms c) = app_stream c"
  by (simp add: cn_tick_def Let_def) (simp add: app_stream_def sender_writes)

lemma app_stream_end: "app_stream (end_input_stream c) = (fst (app_stream c), True)"
  by (simp add: end_input_stream_def Let_def) (simp add: app_stream_def sender_writes, simp add: bytes_written_def input_ended_def)

lemma app_stream_write:
  assumes "bs_inv (snd_stream (sender c))" and "length d \<le> unat (remaining_outbound_capacity c)"
    and "fst (app_stream c) + length d < 2 ^ 64"
  shows "app_stream (fst (cn_write d c)) = (fst (app_stream c) + length d, snd (app_stream c))" and "snd (cn_write d c) = sz d"
proof -
  have f: "fits d" using assms(3) by (simp add: fits_def)
  have w: "snd (ByteStream_write (snd_stream (sender c)) d) = sz d"
    using assms(2) f by (simp add: ByteStream_write_def Let_def remaining_outbound_capacity_def remaining_capacity_def word_less_nat_alt)
  then show "snd (cn_write d c) = sz d" by (simp add: cn_write_def case_prod_beta Let_def)
  have "unat (bs_write_count (snd_stream (sender c)) + sz d) = unat (bs_write_count (snd_stream (sender c))) + length d"
    using assms(3) f by (simp add: app_stream_def bytes_written_def unat_add_lem [THEN iffD1])
  then show "app_stream (fst (cn_write d c)) = (fst (app_stream c) + length d, snd (app_stream c))"
    by (simp add: cn_write_def case_prod_beta Let_def)
      (simp add: app_stream_def sender_writes, simp add: bytes_written_def input_ended_def write_count w)
qed

section \<open>The invariant\<close>

text \<open>
  \<open>x\<close> has written the part of the string that has left the buffer, \<open>y\<close> writes the empty stream, and the segments each
  side has queued are segments of its stream.
\<close>

definition x_inv :: "byte list \<Rightarrow> WrappingInt32 \<Rightarrow> WrappingInt32 \<Rightarrow> Buffer \<Rightarrow> TCPConnection \<Rightarrow> bool" where
  "x_inv data isn_x isn_y b x \<longleftrightarrow> length data < 2 ^ 31 - 1 \<and> cn_inv (\<lambda>_. 0) 0 isn_y ((!) data) (length data) x \<and> snd_isn (sender x) = isn_x
     \<and> buf_inv b \<and> fst (app_stream x) \<le> length data \<and> str b = drop (fst (app_stream x)) data \<and> (str b \<noteq> [] \<longrightarrow> \<not> snd (app_stream x))"

definition y_inv :: "byte list \<Rightarrow> WrappingInt32 \<Rightarrow> WrappingInt32 \<Rightarrow> TCPConnection \<Rightarrow> bool" where
  "y_inv data isn_x isn_y y \<longleftrightarrow> cn_inv ((!) data) (length data) isn_x (\<lambda>_. 0) 0 y \<and> snd_isn (sender y) = isn_y"

lemma write_input_total:
  "x_inv data isn_x isn_y b x \<Longrightarrow> \<exists>b' x'. write_input b x = Some (Inr (b', x')) \<and> x_inv data isn_x isn_y b' x' \<and> snd (app_stream x') = snd (app_stream x)
     \<and> (str b = [] \<longrightarrow> b' = b)"
proof (induction "length (str b)" arbitrary: b x rule: less_induct)
  case less
  note i = less.prems [unfolded x_inv_def]
  have "fits data" using i by (simp add: fits_def)
  then have f: "fits (str b)" using i by simp
  then have fb: "fits (str b)" "unat (Buffer_size b) = length (str b)" by (simp_all add: Buffer_size_def)
  show ?case
  proof (cases "Buffer_size b \<noteq> 0 \<and> remaining_outbound_capacity x \<noteq> 0")
    case False
    then show ?thesis using less.prems by (subst write_input.simps) auto
  next
    case True
    define want where "want = min (remaining_outbound_capacity x) (Buffer_size b)"
    define d where "d = substr (str b) 0 want"
    have w: "unat want \<noteq> 0" "unat want \<le> length (str b)" "unat want \<le> unat (remaining_outbound_capacity x)"
      using True fb(2) by (auto simp: want_def min_def word_le_nat_alt unat_eq_0)
    have d: "d = take (unat want) (str b)" "length d = unat want" using w by (simp_all add: d_def substr_0)
    have bs: "bs_inv (snd_stream (sender x))" using i by (auto simp: cn_inv_def snd_inv_def snd_data_def dest: bs_holds_inv)
    have l: "fst (app_stream x) + length d \<le> length data" using i w(2) d(2) by auto
    have wr: "app_stream (fst (cn_write d x)) = (fst (app_stream x) + unat want, snd (app_stream x))" "snd (cn_write d x) = want"
      using app_stream_write [OF bs, of d] w(3) l i d(2) by (simp_all add: sz_def)
    obtain b' where b': "Buffer_remove_prefix b want = Inr b'" "buf_inv b'" "str b' = drop (unat want) (str b)"
      using Buffer_remove_prefix_spec(1) [of b want] i w(2) by blast
    have m: "d = map ((!) data) [fst (app_stream x)..<fst (app_stream x) + length d]"
      using i l by (intro nth_equalityI) (simp_all add: d(1))
    have "str b \<noteq> []" using w by auto
    then have e: "\<not> snd (app_stream x)" using i by blast
    have "fits d" using fb(1) d(1) by simp
    then have "snd_ok ((!) data) (length data) (sender x) (SWrite d)"
      unfolding snd_ok.simps using m l e by (simp add: app_stream_def)
    then have "cn_inv (\<lambda>_. 0) 0 isn_y ((!) data) (length data) (fst (cn_write d x))" using i cn_inv_write by blast
    moreover have "snd_isn (sender (fst (cn_write d x))) = isn_x" using cn_step_isn [of "CWrite d" x] i by simp
    ultimately have "x_inv data isn_x isn_y b' (fst (cn_write d x))"
      using i b' wr(1) l d(2) w by (auto simp: x_inv_def drop_drop add.commute)
    moreover have "length (str b') < length (str b)" using b'(3) w by simp
    moreover have "write_input b x = write_input b' (fst (cn_write d x))"
      using True wr(2) b'(1) by (subst write_input.simps) (simp add: Let_def case_prod_beta flip: want_def d_def)
    ultimately show ?thesis using less.hyps [of b' "fst (cn_write d x)"] wr(1) \<open>str b \<noteq> []\<close> by auto
  qed
qed

lemma fold_received:
  assumes "cn_inv Si Li isn So Lo c" and "Li < 2 ^ 31 - 1" and "\<forall>seg \<in> set segs. bare_ack seg \<or> (\<exists>k. seg_at Si Li isn k seg)"
  shows "cn_inv Si Li isn So Lo (fold cn_segment_received segs c)
    \<and> bytes_read (inbound_stream (fold cn_segment_received segs c)) = bytes_read (inbound_stream c)
    \<and> snd_isn (sender (fold cn_segment_received segs c)) = snd_isn (sender c) \<and> app_stream (fold cn_segment_received segs c) = app_stream c"
  using assms(1,3)
proof (induction segs arbitrary: c)
  case (Cons seg segs)
  have o: "cn_ok Si Li isn So Lo c (CReceive seg)" using cn_receivable [OF Cons.prems(1) assms(2)] Cons.prems(2) by simp
  have "cn_inv Si Li isn So Lo (cn_segment_received seg c)" using cn_step_inv [OF Cons.prems(1) o] by simp
  moreover have "bytes_read (inbound_stream (cn_segment_received seg c)) = bytes_read (inbound_stream c)"
    using arg_cong [OF cn_step_delivers [OF Cons.prems(1) o], of length] by (simp add: word_unat_eq_iff)
  moreover have "snd_isn (sender (cn_segment_received seg c)) = snd_isn (sender c)" using cn_step_isn [of "CReceive seg" c] by simp
  ultimately show ?case using Cons.IH [of "cn_segment_received seg c"] Cons.prems(2) by simp
qed simp

lemma queued_segments: "cn_inv Si Li isn So Lo c \<Longrightarrow> seg \<in> set (cn_segments_out c) \<Longrightarrow> bare_ack seg \<or> (\<exists>k. seg_at So Lo (snd_isn (sender c)) k seg)"
  using out_ok_peer(4) by (auto simp: cn_inv_def)

lemma move_segments_keeps:
  assumes "cn_inv Si Li isn So Lo x" and "cn_inv So Lo (snd_isn (sender x)) Si' Li' y" and "Lo < 2 ^ 31 - 1"
    and "move_segments x y [] reorder = (x', y', segments)"
  shows "segments = []" "cn_inv Si Li isn So Lo x'" "app_stream x' = app_stream x" "snd_isn (sender x') = snd_isn (sender x)"
    "bytes_read (inbound_stream x') = bytes_read (inbound_stream x)"
    and "cn_inv So Lo (snd_isn (sender x)) Si' Li' y'" "app_stream y' = app_stream y" "snd_isn (sender y') = snd_isn (sender y)"
    "bytes_read (inbound_stream y') = bytes_read (inbound_stream y)"
proof -
  have e: "x' = x\<lparr>cn_segments_out := []\<rparr>" "y' = fold cn_segment_received (if reorder then rev (cn_segments_out x) else cn_segments_out x) y"
    and s: "segments = []"
    using assms(4) by (simp_all add: move_segments_def Let_def)
  show "segments = []" by (rule s)
  show "cn_inv Si Li isn So Lo x'" "app_stream x' = app_stream x" "snd_isn (sender x') = snd_isn (sender x)"
    "bytes_read (inbound_stream x') = bytes_read (inbound_stream x)"
    using assms(1) by (simp_all add: e(1) cn_inv_def inbound_stream_def)
  have "\<forall>seg \<in> set (if reorder then rev (cn_segments_out x) else cn_segments_out x). bare_ack seg \<or> (\<exists>k. seg_at So Lo (snd_isn (sender x)) k seg)"
    using queued_segments [OF assms(1)] by (simp split: if_split)
  from fold_received [OF assms(2,3) this, folded e(2)]
  show "cn_inv So Lo (snd_isn (sender x)) Si' Li' y'" "app_stream y' = app_stream y" "snd_isn (sender y') = snd_isn (sender y)"
    "bytes_read (inbound_stream y') = bytes_read (inbound_stream y)" by simp_all
qed

definition bench_inv :: "byte list \<Rightarrow> WrappingInt32 \<Rightarrow> WrappingInt32 \<Rightarrow> bench \<Rightarrow> bool" where
  "bench_inv data isn_x isn_y st \<longleftrightarrow> x_inv data isn_x isn_y (bytes_to_send st) (bench_x st) \<and> y_inv data isn_x isn_y (bench_y st)
     \<and> (\<not> x_closed st \<longrightarrow> \<not> snd (app_stream (bench_x st))) \<and> (x_closed st \<longrightarrow> str (bytes_to_send st) = [])
     \<and> string_received st = map ((!) data) [0..<unat (bytes_read (inbound_stream (bench_y st)))]"

text \<open>Ending the stream when the buffer is empty.\<close>

lemma x_inv_end:
  assumes "x_inv data isn_x isn_y b x" and "str b = []"
  shows "x_inv data isn_x isn_y b (end_input_stream x)"
proof -
  have "fst (app_stream x) = length data" using assms by (auto simp: x_inv_def)
  then have "snd_ok ((!) data) (length data) (sender x) SEnd" by (simp add: app_stream_def)
  then show ?thesis
    using assms cn_inv_end cn_step_isn [of CEnd x] by (auto simp: x_inv_def app_stream_end)
qed

lemma x_inv_cong:
  assumes "x_inv data isn_x isn_y b x" and "cn_inv (\<lambda>_. 0) 0 isn_y ((!) data) (length data) x'" and "app_stream x' = app_stream x"
    and "snd_isn (sender x') = snd_isn (sender x)"
  shows "x_inv data isn_x isn_y b x'"
  using assms by (simp add: x_inv_def)

lemma y_reads:
  assumes i: "cn_inv ((!) data) (length data) isn_x (\<lambda>_. 0) 0 y"
    and r: "(y', output) = (if 0 < n then (cn_step (CRead n) y, cn_delivers (CRead n) y) else (y, []))"
  shows "cn_inv ((!) data) (length data) isn_x (\<lambda>_. 0) 0 (cn_tick ms y')" "snd_isn (sender (cn_tick ms y')) = snd_isn (sender y)"
    "map ((!) data) [0..<unat (bytes_read (inbound_stream y))] @ output
      = map ((!) data) [0..<unat (bytes_read (inbound_stream (cn_tick ms y')))]"
proof -
  note s = cn_step_inv [OF i, of "CRead n"] cn_step_delivers [OF i, of "CRead n"] cn_step_isn [of "CRead n" y]
  have y: "cn_inv ((!) data) (length data) isn_x (\<lambda>_. 0) 0 y'" "snd_isn (sender y') = snd_isn (sender y)"
    "map ((!) data) [0..<unat (bytes_read (inbound_stream y))] @ output = map ((!) data) [0..<unat (bytes_read (inbound_stream y'))]"
    using r s i by (auto split: if_splits simp del: cn_step.simps cn_delivers.simps)
  show "cn_inv ((!) data) (length data) isn_x (\<lambda>_. 0) 0 (cn_tick ms y')" using cn_inv_tick [OF y(1)] .
  show "snd_isn (sender (cn_tick ms y')) = snd_isn (sender y)" using cn_step_isn [of "CTick ms" y'] y(2) by simp
  show "map ((!) data) [0..<unat (bytes_read (inbound_stream y))] @ output
      = map ((!) data) [0..<unat (bytes_read (inbound_stream (cn_tick ms y')))]"
    using cn_step_delivers [OF y(1), of "CTick ms"] y(3) by simp
qed

lemma bench_loop_keeps:
  assumes "bench_inv data isn_x isn_y st"
  shows "\<exists>st'. bench_loop reorder st = Some (Inr st') \<and> bench_inv data isn_x isn_y st'"
proof -
  note i = assms [unfolded bench_inv_def]
  obtain b x where w: "write_input (bytes_to_send st) (bench_x st) = Some (Inr (b, x))" and x: "x_inv data isn_x isn_y b x"
    and e: "snd (app_stream x) = snd (app_stream (bench_x st))" "x_closed st \<longrightarrow> str b = []"
    using write_input_total [of data isn_x isn_y "bytes_to_send st" "bench_x st"] i by blast
  have le: "length data < 2 ^ 31 - 1" and sb: "str b = drop (fst (app_stream x)) data" using x unfolding x_inv_def by blast+
  have "fits data" using le by (simp add: fits_def)
  then have fb: "fits (str b)" using sb by simp
  obtain x1 closed where c: "(x1, closed) = (if Buffer_size b = 0 \<and> \<not> x_closed st then (end_input_stream x, True) else (x, x_closed st))"
    by (metis prod.exhaust)
  have "x_inv data isn_x isn_y b x1 \<and> (\<not> closed \<longrightarrow> \<not> snd (app_stream x1)) \<and> (closed \<longrightarrow> str b = [])"
  proof (cases "Buffer_size b = 0 \<and> \<not> x_closed st")
    case True
    then have "x1 = end_input_stream x" "closed" "str b = []" using c fb by (simp_all add: Buffer_size_def)
    then show ?thesis using x_inv_end [OF x] by blast
  next
    case False
    then have "x1 = x" "closed = x_closed st" using c by (simp_all split: if_splits)
    then show ?thesis using x e i by blast
  qed
  then have x1: "x_inv data isn_x isn_y b x1" "\<not> closed \<longrightarrow> \<not> snd (app_stream x1)" "closed \<longrightarrow> str b = []" by simp_all
  obtain x2 y2 q2 where m: "move_segments x1 (bench_y st) [] reorder = (x2, y2, q2)" by (metis prod.exhaust)
  have cx: "cn_inv (\<lambda>_. 0) 0 isn_y ((!) data) (length data) x1" "isn_x = snd_isn (sender x1)" using x1(1) by (simp_all add: x_inv_def)
  have cy: "cn_inv ((!) data) (length data) (snd_isn (sender x1)) (\<lambda>_. 0) 0 (bench_y st)" "isn_y = snd_isn (sender (bench_y st))"
    using i cx(2) by (simp_all add: y_inv_def)
  note m2 = move_segments_keeps [OF cx(1) cy(1) le m]
  obtain y3 x3 q3 where n: "move_segments y2 x2 [] False = (y3, x3, q3)" by (metis prod.exhaust)
  have "cn_inv (\<lambda>_. 0) 0 (snd_isn (sender y2)) ((!) data) (length data) x2" using m2 cy(2) by simp
  note m3 = move_segments_keeps [OF m2(6) this _ n]
  obtain y4 data' where r: "(y4, data') = (if 0 < buffer_size (inbound_stream y3)
      then (cn_step (CRead (buffer_size (inbound_stream y3))) y3, cn_delivers (CRead (buffer_size (inbound_stream y3))) y3) else (y3, []))"
    by (metis prod.exhaust)
  note y4 = y_reads [OF m3(2) r, of 1000]
  let ?st = "\<lparr>bench_x = cn_tick 1000 x3, bench_y = cn_tick 1000 y4, bytes_to_send = b, x_closed = closed, string_received = string_received st @ data'\<rparr>"
  have "bench_loop reorder st = Some (Inr ?st)"
    unfolding bench_loop_def w option.case sum.case prod.case c [symmetric] Let_def m m2(1) n r [symmetric] ..
  moreover have "x_inv data isn_x isn_y b (cn_tick 1000 x3)"
    using m2 m3 cy(2) cn_inv_tick cn_step_isn [of "CTick 1000" x3] by (intro x_inv_cong [OF x1(1)]) simp_all
  moreover have "y_inv data isn_x isn_y (cn_tick 1000 y4)" using y4(1,2) m2 m3 cx(2) cy(2) by (simp add: y_inv_def)
  ultimately show ?thesis using x1 y4(3) m2 m3 i by (auto simp: bench_inv_def)
qed

lemma loop_while_keeps:
  "loop_while condition reorder st = Some y \<Longrightarrow> bench_inv data isn_x isn_y st \<Longrightarrow> \<exists>st'. y = Inr st' \<and> bench_inv data isn_x isn_y st'"
proof (induction rule: loop_while.raw_induct [rotated, consumes 1, case_names step])
  case (step loop condition reorder st y)
  obtain st' where "bench_loop reorder st = Some (Inr st')" "bench_inv data isn_x isn_y st'"
    using bench_loop_keeps [OF step.prems] by blast
  then show ?case using step.prems step.hyps step.IH by (cases "condition st") auto
qed

lemma bench_start_inv:
  assumes "length data < 2 ^ 31 - 1"
  shows "\<exists>isn_x isn_y. bench_inv data isn_x isn_y (bench_start random_x random_y data)"
proof -
  let ?x = "TCPConnection_new TCPConfig_new random_x" and ?y = "TCPConnection_new TCPConfig_new random_y"
  have l: "length data < 2 ^ 64 - 2 ^ 32" using assms by simp
  have a: "app_stream ?x = (0, False)" "app_stream ?y = (0, False)"
    by (simp_all add: app_stream_def TCPConnection_new_def TCPSender_new_def bytes_written_def input_ended_def Let_def)
  have "x_inv data (snd_isn (sender ?x)) (snd_isn (sender ?y)) (Buffer_of data) (connect ?x)"
    using assms cn_inv_connect [OF cn_inv_new [OF _ l]] cn_step_isn [of CConnect ?x] a(1) by (simp add: x_inv_def fits_def)
  moreover have "snd_ok (\<lambda>_. 0) 0 (sender ?y) SEnd" using a(2) by (simp add: app_stream_def)
  then have "y_inv data (snd_isn (sender ?x)) (snd_isn (sender ?y)) (end_input_stream ?y)"
    using cn_inv_end [OF cn_inv_new [OF l]] cn_step_isn [of CEnd ?y] by (simp add: y_inv_def)
  moreover have "bytes_read (inbound_stream (end_input_stream ?y)) = bytes_read (inbound_stream ?y)"
    by (simp add: end_input_stream_def Let_def) (simp add: inbound_stream_def)
  moreover have "bytes_read (inbound_stream ?y) = 0"
    by (simp add: inbound_stream_def TCPConnection_new_def TCPReceiver_new_def StreamReassembler_new_def rcv_stream_out_def bytes_read_def)
  ultimately have "bench_inv data (snd_isn (sender ?x)) (snd_isn (sender ?y)) (bench_start random_x random_y data)"
    using a by (simp add: bench_inv_def bench_start_def)
  then show ?thesis by blast
qed

lemma bench_inv_prefix:
  assumes "bench_inv data isn_x isn_y st"
  shows "prefix (string_received st @ bs_buf (inbound_stream (bench_y st))) data"
proof -
  let ?w = "unat (bytes_written (inbound_stream (bench_y st)))"
  have "rcv_inv ((!) data) (length data) isn_x (receiver (bench_y st))"
    using assms by (simp add: bench_inv_def y_inv_def cn_inv_def)
  note r = rcv_invD [OF this]
  have "bs_holds ((!) data) (inbound_stream (bench_y st))"
    using r(1) sr_invD(1) by (simp add: inbound_stream_def rcv_stream_out_def)
  then have "string_received st @ bs_buf (inbound_stream (bench_y st)) = map ((!) data) [0..<?w]"
    using bs_holds_total assms by (simp add: bench_inv_def bytes_read_def bytes_written_def)
  moreover have "?w \<le> length data" using r(6) by (simp add: inbound_stream_def)
  then have "map ((!) data) [0..<?w] = take ?w data" by (intro nth_equalityI) simp_all
  ultimately show ?thesis by (simp add: take_is_prefix)
qed

section \<open>Properties\<close>

text \<open>The state after a number of rounds, or the exception that one of them throws.\<close>

fun bench_rounds :: "bool \<Rightarrow> nat \<Rightarrow> bench \<Rightarrow> (exn + bench) option" where
  "bench_rounds reorder 0 st = Some (Inr st)"
| "bench_rounds reorder (Suc n) st = (case bench_loop reorder st of Some (Inr st) \<Rightarrow> bench_rounds reorder n st | r \<Rightarrow> r)"

lemma bench_rounds_keeps:
  "bench_inv data isn_x isn_y st \<Longrightarrow> \<exists>st'. bench_rounds reorder n st = Some (Inr st') \<and> bench_inv data isn_x isn_y st'"
proof (induction n arbitrary: st)
  case (Suc n)
  then show ?case using bench_loop_keeps [OF Suc.prems, of reorder] by auto
qed simp

text \<open>
  C39. Two connections that exchange their segments directly, in order or reversed: every round of the benchmark ends and throws nothing,
  in particular its inner loop ends and the sender takes what it advertised; after any number of rounds what has been received, with
  what waits in the stream, is a prefix of the string sent. The benchmark can only fail
  with the comparison of the strings at its end.
\<close>

theorem benchmark_prefix:
  assumes "length string_to_send < 2 ^ 31 - 1"
  shows "(\<exists>st. bench_rounds reorder n (bench_start random_x random_y string_to_send) = Some (Inr st)
        \<and> prefix (string_received st @ bs_buf (inbound_stream (bench_y st))) string_to_send)
    \<and> (case main_loop reorder random_x random_y string_to_send of Some (Inl e) \<Rightarrow> e = mismatch | _ \<Rightarrow> True)"
proof -
  obtain isn_x isn_y where i: "bench_inv string_to_send isn_x isn_y (bench_start random_x random_y string_to_send)"
    using bench_start_inv [OF assms] by blast
  have "\<exists>st. bench_rounds reorder n (bench_start random_x random_y string_to_send) = Some (Inr st)
      \<and> prefix (string_received st @ bs_buf (inbound_stream (bench_y st))) string_to_send"
    using bench_rounds_keeps [OF i] bench_inv_prefix by blast
  moreover have "e = mismatch" if "main_loop reorder random_x random_y string_to_send = Some (Inl e)" for e
    using that loop_while_keeps [OF _ i, of "\<lambda>st. \<not> ByteStream_eof (inbound_stream (bench_y st))" reorder]
      loop_while_keeps [of "\<lambda>st. active (bench_x st) \<or> active (bench_y st)" reorder]
    by (auto simp: main_loop_def split: option.splits sum.splits if_splits) blast
  ultimately show ?thesis by (auto split: option.split sum.split)
qed

theorem benchmark_prefix_witness:
  "\<exists>st. bench_rounds True 2 (bench_start 5 6 [7, 8]) = Some (Inr st) \<and> prefix (string_received st) [7, 8]"
  using benchmark_prefix [of "[7, 8]" True 2 5 6] append_prefixD by fastforce

end
