(* ===== verification/Packet_Dump.thy ===== *)
theory Packet_Dump
  imports TCP_Segments
begin

text \<open>
  \<^verbatim>\<open>apps/udp_tcpdump.cc\<close>: how the capture program finds the UDP payload of a captured packet. The capture library and the
  printing are not part of the model. Captured data is a list of bytes; reading outside of it, which C++ leaves
  undefined, is the value \<open>None\<close>. The function \<open>inet_ntop\<close>, which formats an address, is a parameter.
\<close>

section \<open>Model\<close>

definition load :: "byte list \<Rightarrow> nat \<Rightarrow> byte option" where
  "load data i = (if i < length data then Some (data ! i) else None)"

definition inet_addr :: "(byte list \<Rightarrow> string option) \<Rightarrow> nat \<Rightarrow> byte list \<Rightarrow> nat \<Rightarrow> string option" where
  "inet_addr inet_ntop n data at =
     (if at + n \<le> length data
      then Some (case inet_ntop (take n (drop at data)) of None \<Rightarrow> ''unknown'' | Some text \<Rightarrow> text)
      else None)"

text \<open>The loop over the extension headers of IPv6: \<open>Some None\<close> is the return of -1.\<close>

function skip_extensions :: "byte list \<Rightarrow> int \<Rightarrow> byte \<Rightarrow> nat \<Rightarrow> nat option option" where
  "skip_extensions data len nxt data_offset =
     (if nxt = 0x11 then Some (Some data_offset)
      else if nxt \<noteq> 0 \<and> nxt \<noteq> 43 \<and> nxt \<noteq> 60 then Some None
      else (case (load data data_offset, load data (data_offset + 1)) of
              (Some nxt, Some l) \<Rightarrow>
                let data_offset = data_offset + 8 * (1 + unat l)
                in if len < int (data_offset + 2) then Some None else skip_extensions data len nxt data_offset
            | _ \<Rightarrow> None))"
  by pat_completeness auto

lemma extension_advances: "\<not> len < 10 + (int a + 8 * uint l) \<Longrightarrow> nat len - (a + (8 + 8 * unat l)) < nat len - a" for l :: byte
proof -
  assume "\<not> len < 10 + (int a + 8 * uint l)"
  then have "int a < len" using uint_ge_0 [of l] by linarith
  then show ?thesis by linarith
qed

termination skip_extensions
  by (relation "measure (\<lambda>(data, len, nxt, data_offset). nat len - data_offset)") (auto simp: extension_advances)

declare skip_extensions.simps [simp del]

definition process_ipv4_ipv6 ::
    "(byte list \<Rightarrow> string option) \<Rightarrow> int \<Rightarrow> byte list \<Rightarrow> string \<times> string \<Rightarrow> (int \<times> string \<times> string) option" where
  "process_ipv4_ipv6 inet_ntop len data addrs =
     (if len < 1 then Some (- 1, addrs)
      else Option.bind (load data 0) (\<lambda>b.
        let pt = b AND 0xf0
        in if pt = 0x40
           then let data_offset = unat (b AND 0x0f) * 4
                in if len < int data_offset then Some (- 1, addrs)
                   else Option.bind (load data 9) (\<lambda>proto.
                     if proto \<noteq> 0x11 then Some (- 1, addrs)
                     else Option.bind (inet_addr inet_ntop 4 data 12) (\<lambda>src_addr.
                          Option.bind (inet_addr inet_ntop 4 data 16) (\<lambda>dst_addr.
                            Some (int data_offset + 8, src_addr, dst_addr))))
           else if pt = 0x60
           then if len < 42 then Some (- 1, addrs)
                else Option.bind (load data 6) (\<lambda>nxt.
                  (case skip_extensions data len nxt 40 of
                     None \<Rightarrow> None
                   | Some None \<Rightarrow> Some (- 1, addrs)
                   | Some (Some data_offset) \<Rightarrow>
                       Option.bind (inet_addr inet_ntop 16 data 8) (\<lambda>src_addr.
                       Option.bind (inet_addr inet_ntop 16 data 24) (\<lambda>dst_addr.
                         Some (int data_offset + 8, src_addr, dst_addr)))))
           else Some (- 1, addrs)))"

text \<open>The link layer: where the packet starts, if it is one of IP. Any other type ends the program.\<close>

datatype datalink = DLT_NULL | DLT_EN10MB | DLT_LINUX_SLL | DLT_LINUX_SLL2 | DLT_RAW

definition ethertype_at :: "byte list \<Rightarrow> nat \<Rightarrow> u16 option" where
  "ethertype_at data i =
     Option.bind (load data i) (\<lambda>hi. Option.bind (load data (i + 1)) (\<lambda>lo. Some (push_bit 8 (ucast hi) OR ucast lo)))"

definition is_ip :: "u16 \<Rightarrow> bool" where
  "is_ip pt \<longleftrightarrow> pt = 0x0800 \<or> pt = 0x86dd"

fun link_header :: "datalink \<Rightarrow> byte list \<Rightarrow> nat option option" where
  "link_header DLT_NULL data =
     (if length data < 4 then Some None
      else Option.bind (load data 3) (\<lambda>pt. Some (if pt \<noteq> 2 \<and> pt \<noteq> 24 \<and> pt \<noteq> 28 \<and> pt \<noteq> 30 then None else Some 4)))"
| "link_header DLT_EN10MB data =
     (if length data < 14 then Some None else Option.bind (ethertype_at data 12) (\<lambda>pt. Some (if is_ip pt then Some 14 else None)))"
| "link_header DLT_LINUX_SLL data =
     (if length data < 16 then Some None else Option.bind (ethertype_at data 14) (\<lambda>pt. Some (if is_ip pt then Some 16 else None)))"
| "link_header DLT_LINUX_SLL2 data =
     (if length data < 20 then Some None else Option.bind (ethertype_at data 0) (\<lambda>pt. Some (if is_ip pt then Some 20 else None)))"
| "link_header DLT_RAW data = Some (Some 0)"

text \<open>Offset and length of the UDP payload in a captured packet; \<open>Some None\<close> when the packet is skipped.\<close>

definition locate_payload ::
    "(byte list \<Rightarrow> string option) \<Rightarrow> datalink \<Rightarrow> byte list \<Rightarrow> (u64 \<times> u64) option option" where
  "locate_payload inet_ntop dl_type pkt_data =
     (case link_header dl_type pkt_data of
        None \<Rightarrow> None
      | Some None \<Rightarrow> Some None
      | Some (Some hdr_off) \<Rightarrow>
          (case process_ipv4_ipv6 inet_ntop (int (length pkt_data - hdr_off)) (drop hdr_off pkt_data) ([], []) of
             None \<Rightarrow> None
           | Some (start_off, _) \<Rightarrow>
               if start_off < 0 then Some None
               else let payload_off = of_nat hdr_off + word_of_int start_off
                    in Some (Some (payload_off, sz pkt_data - payload_off))))"

section \<open>Lemmas\<close>

lemma load_Some [simp]: "load data i = Some b \<longleftrightarrow> i < length data \<and> b = data ! i"
  by (auto simp: load_def)

lemma skip_extensions_bounds:
  assumes "data_offset + 2 \<le> length data" and "len = int (length data)"
  shows "case skip_extensions data len nxt data_offset of
      None \<Rightarrow> False | Some None \<Rightarrow> True | Some (Some off) \<Rightarrow> data_offset \<le> off \<and> off + 2 \<le> length data"
  using assms
proof (induction data len nxt data_offset rule: skip_extensions.induct)
  case (1 data len nxt data_offset)
  let ?off = "data_offset + 8 * (1 + unat (data ! (data_offset + 1)))"
  have l: "load data data_offset = Some (data ! data_offset)" "load data (data_offset + 1) = Some (data ! (data_offset + 1))"
    using "1.prems" by simp_all
  show ?case
  proof (cases "nxt = 0x11 \<or> nxt \<noteq> 0 \<and> nxt \<noteq> 43 \<and> nxt \<noteq> 60 \<or> len < int (?off + 2)")
    case True
    then show ?thesis using "1.prems" l by (subst skip_extensions.simps) (auto simp: Let_def simp del: load_Some)
  next
    case False
    then have "skip_extensions data len nxt data_offset = skip_extensions data len (data ! data_offset) ?off"
      using l by (subst skip_extensions.simps) (auto simp: Let_def simp del: load_Some)
    moreover have "case skip_extensions data len (data ! data_offset) ?off of
        None \<Rightarrow> False | Some None \<Rightarrow> True | Some (Some off) \<Rightarrow> ?off \<le> off \<and> off + 2 \<le> length data"
    proof (rule "1.IH" [OF _ _ refl l(1) l(2) refl])
      show "?off + 2 \<le> length data" using False "1.prems"(2) by linarith
    qed (use False "1.prems"(2) in blast)+
    ultimately show ?thesis by (auto split: option.splits)
  qed
qed

section \<open>Properties\<close>

lemma inet_addr_Some: "at + n \<le> length data \<Longrightarrow> \<exists>text. inet_addr inet_ntop n data at = Some text"
  by (simp add: inet_addr_def)

text \<open>
  C40. The search for the UDP payload ends on every packet. Given the length of the data, it reads outside of the data only for
  packets that claim to be of IPv4 and have less than 20 bytes; the offset it returns is -1 or at most 8 bytes, the
  length of the UDP header, past the end of the data.
\<close>

theorem process_ipv4_ipv6_bounds:
  "case process_ipv4_ipv6 inet_ntop (int (length data)) data addrs of
     None \<Rightarrow> 0 < length data \<and> length data < 20 \<and> data ! 0 AND 0xf0 = 0x40
   | Some (off, _) \<Rightarrow> off = - 1 \<or> 8 \<le> off \<and> off \<le> int (length data) + 8"
proof (cases "data = []")
  case False
  then have l0: "load data 0 = Some (data ! 0)" by simp
  consider "data ! 0 AND 0xf0 = 0x40" | "data ! 0 AND 0xf0 = 0x60" | "data ! 0 AND 0xf0 \<noteq> 0x40" "data ! 0 AND 0xf0 \<noteq> 0x60" by blast
  then show ?thesis
  proof cases
    case 1
    show ?thesis
    proof (cases "20 \<le> length data")
      case True
      then obtain src dst where "load data 9 = Some (data ! 9)" "inet_addr inet_ntop 4 data 12 = Some src" "inet_addr inet_ntop 4 data 16 = Some dst"
        using inet_addr_Some [of 12 4 data inet_ntop] inet_addr_Some [of 16 4 data inet_ntop] by auto
      then show ?thesis using 1 l0 False by (auto simp: process_ipv4_ipv6_def Let_def simp del: load_Some of_nat_unat)
    qed (use 1 l0 False in \<open>auto simp: process_ipv4_ipv6_def Let_def inet_addr_def split: option.split bind_splits\<close>)
  next
    case 2
    show ?thesis
    proof (cases "42 \<le> length data")
      case True
      then obtain src dst where a: "load data 6 = Some (data ! 6)" "inet_addr inet_ntop 16 data 8 = Some src" "inet_addr inet_ntop 16 data 24 = Some dst"
        using inet_addr_Some [of 8 16 data inet_ntop] inet_addr_Some [of 24 16 data inet_ntop] by auto
      have "case skip_extensions data (int (length data)) (data ! 6) 40 of
          None \<Rightarrow> False | Some None \<Rightarrow> True | Some (Some off) \<Rightarrow> 40 \<le> off \<and> off + 2 \<le> length data"
        by (rule skip_extensions_bounds) (use True in simp_all)
      then show ?thesis
        using 2 l0 a False True by (auto simp: process_ipv4_ipv6_def Let_def simp del: load_Some split: option.splits)
    qed (use 2 l0 False in \<open>simp add: process_ipv4_ipv6_def Let_def del: load_Some\<close>)
  qed (use l0 False in \<open>simp add: process_ipv4_ipv6_def Let_def del: load_Some\<close>)
qed (simp add: process_ipv4_ipv6_def)

section \<open>Short packets\<close>

text \<open>
  The protocol and the addresses of IPv4 are read without a check that the packet has them. The offset that is returned skips the UDP header
  without a check that the packet has it: for a packet that ends before, the length of the payload wraps around.
\<close>

lemma short_ipv4_read_outside: "process_ipv4_ipv6 inet_ntop 1 [0x40] addrs = None"
  by (simp add: process_ipv4_ipv6_def load_def)

lemma missing_udp_header:
  "locate_payload inet_ntop DLT_RAW ([0x45] @ replicate 8 0 @ [0x11] @ replicate 10 0) = Some (Some (28, - 8))"
proof -
  define d :: "byte list" where "d = [0x45] @ replicate 8 0 @ [0x11] @ replicate 10 0"
  have l: "length d = 20" "load d 0 = Some 0x45" "load d 9 = Some 0x11" by (simp_all add: d_def nth_append)
  have "locate_payload inet_ntop DLT_RAW d = Some (Some (28, - 8))"
    using l by (simp add: locate_payload_def process_ipv4_ipv6_def inet_addr_def sz_def Let_def del: load_Some)
  then show ?thesis by (simp only: d_def)
qed

end
