(* ===== verification/Spec2Isabelle.thy ===== *)
theory Spec2Isabelle
  imports Webget Benchmark Packet_Dump
begin

text \<open>
  \<^bold>\<open>Verification of the Sponge TCP stack.\<close>

  The program (\<^verbatim>\<open>src/libsponge\<close> and \<^verbatim>\<open>src/apps\<close>) is a TCP implementation in user space. A \<^verbatim>\<open>TCPConnection\<close> joins
  a \<^verbatim>\<open>TCPSender\<close>, which cuts a byte stream into segments and retransmits them, and a \<^verbatim>\<open>TCPReceiver\<close>, which puts the peer's
  stream together again with a \<^verbatim>\<open>StreamReassembler\<close>. Segments become datagrams through the parsers, the checksum and an adapter (in IPv4 on
  a TUN device, or in UDP). A \<^verbatim>\<open>TCPSpongeSocket\<close> runs a connection in a thread of its own: an \<^verbatim>\<open>EventLoop\<close> moves bytes
  between the owner's socket, the connection and the adapter. The applications copy standard input and output to and from such a
  socket.

  \<^bold>\<open>Conventions.\<close> A class or struct is a record with its members, an enumeration a datatype, a method a function that returns the new
  object. Integers keep their width as words. A thrown exception is \<open>Inl\<close>. Code that makes system calls is a function on an explicit state
  (\<^verbatim>\<open>Files\<close>); the operating system is a record \<^verbatim>\<open>kernel\<close> with one function per system call, which is a parameter,
  as are \<open>getaddrinfo\<close>, \<open>getnameinfo\<close>, \<open>inet_ntop\<close> and the random numbers. What a theorem relies on of them is a named
  hypothesis (\<^verbatim>\<open>numeric_resolver\<close>, \<^verbatim>\<open>writer\<close>, \<^verbatim>\<open>reader\<close>, \<^verbatim>\<open>takes\<close>, \<^verbatim>\<open>undisturbed\<close>, \<^verbatim>\<open>uninterrupted\<close>, \<^verbatim>\<open>changed_by\<close>,
  \<^verbatim>\<open>working\<close>), which a concrete system is shown to satisfy.

  \<^bold>\<open>Theories and sources.\<close>

  \<^item> \<^verbatim>\<open>Prelude\<close>: machine types, exceptions, runs of a step function, the locales \<^verbatim>\<open>invariant_system\<close> and
    \<^verbatim>\<open>delivery_system\<close> that lift what each step keeps or delivers to whole runs.
  \<^item> \<^verbatim>\<open>WrappingInts\<close> (\<^verbatim>\<open>wrapping_integers\<close>): \<open>unwrap\<close> finds the number nearest to the checkpoint and inverts \<open>wrap\<close>; the locale
    \<^verbatim>\<open>seqno_space\<close> is what receiver and sender use of them.
  \<^item> \<^verbatim>\<open>ByteStreams\<close> (\<^verbatim>\<open>byte_stream\<close>): a bounded FIFO; \<^verbatim>\<open>byte_channel\<close> is its contract.
  \<^item> \<^verbatim>\<open>Reassembler\<close> (\<^verbatim>\<open>stream_reassembler\<close>): the reader gets a prefix of the stream, with progress, and the end of the stream
    only at its end and always then, under the conditions that the findings show to be needed.
  \<^item> \<^verbatim>\<open>Buffers\<close>, \<^verbatim>\<open>Parsers\<close>, \<^verbatim>\<open>Checksum\<close>, \<^verbatim>\<open>TCP_Segments\<close>, \<^verbatim>\<open>IPv4\<close> (\<^verbatim>\<open>util/buffer\<close>, \<^verbatim>\<open>util/parser\<close>,
    \<^verbatim>\<open>util/util\<close>, \<^verbatim>\<open>tcp_helpers/tcp_header\<close>, \<^verbatim>\<open>tcp_segment\<close>, \<^verbatim>\<open>ipv4_header\<close>, \<^verbatim>\<open>ipv4_datagram\<close>): the wire formats.
    Round trips, equality of the checksum with that of RFC 1071, detection of corruption, the answer of the parsers on
    every input. \<^verbatim>\<open>net_codec\<close> is the contract of the integer codecs.
  \<^item> \<^verbatim>\<open>Receiver\<close> (\<^verbatim>\<open>tcp_receiver\<close>), \<^verbatim>\<open>Sender\<close>, \<^verbatim>\<open>Sender_Safety\<close>, \<^verbatim>\<open>Sender_Window\<close> (\<^verbatim>\<open>tcp_sender\<close>): delivery of a
    prefix, acknowledgment number and window; segments carry the right bytes, the accounting of what is in flight, the window is
    respected and filled, retransmission. \<^verbatim>\<open>sender_invariant\<close> reduces an invariant of the sender to its elementary moves.
  \<^item> \<^verbatim>\<open>Connection\<close>, \<^verbatim>\<open>Connection_Lifecycle\<close>, \<^verbatim>\<open>TCP_States\<close>, \<^verbatim>\<open>Handshake\<close> (\<^verbatim>\<open>tcp_connection\<close>, \<^verbatim>\<open>tcp_helpers/tcp_state\<close>):
    every operation keeps the invariants of both halves; acknowledgment, shutdown, reset; the summary of the state; the three-way
    handshake reaches ESTABLISHED, except on the side whose initial sequence number is the last one.
  \<^item> \<^verbatim>\<open>Addresses\<close>, \<^verbatim>\<open>Adapters\<close> (\<^verbatim>\<open>util/address\<close>, \<^verbatim>\<open>tcp_helpers/tcp_over_ip\<close>, \<^verbatim>\<open>tuntap_adapter\<close>, \<^verbatim>\<open>fd_adapter\<close>,
    \<^verbatim>\<open>lossy_fd_adapter\<close>): a segment written by one adapter is read by the other; others are filtered.
  \<^item> \<^verbatim>\<open>Network\<close>: two connections on TUN adapters with a network that loses, duplicates, reorders and delays. The root theory has the end-to-end
    property.
  \<^item> \<^verbatim>\<open>Files\<close>, \<^verbatim>\<open>Event_Loop\<close>, \<^verbatim>\<open>Sockets\<close> (\<^verbatim>\<open>util/file_descriptor\<close>, \<^verbatim>\<open>util/eventloop\<close>, \<^verbatim>\<open>util/socket\<close>, \<^verbatim>\<open>util/tun\<close>): system calls,
    descriptors and their handles, polling. \<^verbatim>\<open>event_client\<close> and \<^verbatim>\<open>serviced_client\<close> are what the rules of a client must promise: an
    invariant, and that every callback serves its descriptor; the loop then keeps the invariant and finds no busy wait.
  \<^item> \<^verbatim>\<open>Sponge_Socket\<close> (\<^verbatim>\<open>tcp_helpers/tcp_sponge_socket\<close>): the rules of the thread are a client of the loop for any adapter that obeys
    \<^verbatim>\<open>adapter_laws\<close>, which the TUN and the UDP adapter do. The socket refines its connection; connecting and accepting wait for the handshake.
  \<^item> \<^verbatim>\<open>Stream_Copy\<close>, \<^verbatim>\<open>Webget\<close>, \<^verbatim>\<open>Benchmark\<close>, \<^verbatim>\<open>Packet_Dump\<close> (\<^verbatim>\<open>apps/bidirectional_stream_copy.cc\<close>, \<^verbatim>\<open>webget.cc\<close>,
    \<^verbatim>\<open>tcp_benchmark.cc\<close>, \<^verbatim>\<open>udp_tcpdump.cc\<close>): the copy loses, repeats and reorders nothing; the answer to a request is printed whole; the benchmark
    receives a prefix of what it sends; bounds of the packet search.

  Beside the theorems of a component stand lemmas that show by example where the code departs from its documentation or from its
  purpose, and so which hypotheses of the theorems cannot be dropped.

  \<^bold>\<open>Loops and bounds.\<close> No model uses fuel. Loops that always end are functions with a termination proof: the drain of the
  reassembler, \<open>fill_window\<close>, folding the carry of the checksum, \<open>write\<close>, the walk over the extension headers of a packet. Loops that need not
  end (\<^verbatim>\<open>tcp_loop_from\<close>, \<^verbatim>\<open>copy_loop\<close>, \<^verbatim>\<open>print_loop\<close>, \<^verbatim>\<open>loop_while\<close>, \<^verbatim>\<open>write_input\<close>) are partial functions into an option type;
  theorems about them speak of every round, or show that a result is returned. Streams are shorter than 2 GiB where the receiver must tell sequence
  numbers apart (\<open>L < 2 ^ 31 - 1\<close>), shorter than \<open>2 ^ 64 - 2 ^ 32\<close> otherwise, so that no 64-bit counter wraps.

  \<^bold>\<open>Not modelled.\<close> Printing (\<open>to_string\<close> and \<open>summary\<close> of headers, \<open>hexdump\<close>, diagnostic output); the scheduling of the owner's thread and the TCP thread,
  whose only shared data are the socket pair, which is part of the kernel, and the flag \<open>_abort\<close>, which is an
  input of the loop; the destructor of \<^verbatim>\<open>TCPSpongeSocket\<close>, which sets that flag and joins the thread; the
  clock and the random generator, which are inputs; the command lines of the applications, with the conversion of loss rates by floating
  point; the capture library of \<^verbatim>\<open>udp_tcpdump.cc\<close>; the examples in \<^verbatim>\<open>src/doctests\<close> and the tests.
\<close>

section \<open>End to end\<close>

text \<open>
  C1. Reliable delivery end to end: two connections on TUN adapters whose applications write streams of less than 2 GiB, over a network that
  loses, reorders, duplicates and delays datagrams and injects ones the adapters reject. However the steps of both sides and of
  the network interleave, what each application has read, followed by what its connection holds for it, is a
  prefix of the stream the other application writes.
\<close>

theorem end_to_end_delivery:
  fixes cf :: "side \<Rightarrow> TCPConfig" and rnd :: "side \<Rightarrow> u32"
  assumes "numeric_resolver gai gni" and "\<And>s. L s < 2 ^ 31 - 1" and "adapters_match ip pt ad"
    and "run_ok (net_ok gai gni S L) (net_step gai gni) ops (net_new cf rnd ad)"
  defines "n \<equiv> run (net_step gai gni) ops (net_new cf rnd ad)"
  shows "history (net_delivers t) (net_step gai gni) ops (net_new cf rnd ad) @ bs_buf (inbound_stream (tcp (node n t)))
      = map (S (other t)) [0..<unat (bytes_written (inbound_stream (tcp (node n t))))]
    \<and> unat (bytes_written (inbound_stream (tcp (node n t)))) \<le> L (other t)"
proof -
  note i = net_inv_new [OF assms(1-3), where S = S and cf = cf and rnd = rnd]
  note inv = net_sys.run_inv [OF i assms(4), folded n_def]
  have "taken t (net_new cf rnd ad) = 0"
    by (simp add: net_new_def inbound_stream_def TCPConnection_new_def TCPReceiver_new_def StreamReassembler_new_def
        rcv_stream_out_def bytes_read_def)
  then show ?thesis
    using net_sys.run_delivers [OF i assms(4), of t, folded n_def] inbound_prefix [OF inv, of t] by simp
qed

definition wit_net :: net where
  "wit_net = net_new (\<lambda>s. TCPConfig_new) (\<lambda>s. 5)
     (\<lambda>s. case s of Left \<Rightarrow> wit_ad 1 80 2 90 | Right \<Rightarrow> wit_ad 2 90 1 80)"

abbreviation wit_step :: "net_op \<Rightarrow> net \<Rightarrow> net" where
  "wit_step \<equiv> net_step numeric_gai numeric_gni"

lemma wit_match: "adapters_match (\<lambda>s. case s of Left \<Rightarrow> 1 | Right \<Rightarrow> 2) (\<lambda>s. case s of Left \<Rightarrow> 80 | Right \<Rightarrow> 90)
    (\<lambda>s. case s of Left \<Rightarrow> wit_ad 1 80 2 90 | Right \<Rightarrow> wit_ad 2 90 1 80)"
  by (simp add: adapters_match_def split: side.split)

lemma wit_net_ok:
  "run_ok (net_ok numeric_gai numeric_gni (\<lambda>s i. 7 + of_nat i) (\<lambda>s. 2)) wit_step
     [App Left (CWrite [7, 8]), Transmit Left, Arrive Right 0, App Right (CRead 5)] wit_net"
proof -
  let ?ok = "net_ok numeric_gai numeric_gni (\<lambda>s i. 7 + of_nat i) (\<lambda>s. 2)"
  have i: "\<exists>ip pt isn. net_inv numeric_gai numeric_gni ip pt (\<lambda>s i. 7 + of_nat i) (\<lambda>s. 2) isn wit_net"
    using net_inv_new [OF numeric_resolver_exists _ wit_match, of "\<lambda>s. 2"] unfolding wit_net_def by fastforce
  have o: "?ok wit_net (App Left (CWrite [7, 8]))"
    by (simp add: wit_net_def net_new_def TCPConnection_new_def bytes_written_def input_ended_def fits_def upt_rec)
  have "cn_segments_out (tcp (node (wit_step (App Left (CWrite [7, 8])) wit_net) Left)) \<noteq> []"
    by (simp add: cn_write_def sendseg_out to_send_def split: prod.split)
  then have "sent (wit_step (Transmit Left) (wit_step (App Left (CWrite [7, 8])) wit_net)) Left \<noteq> []"
    using i net_step_inv [OF _ o] transmit_sent by fastforce
  then show ?thesis using o by simp
qed

theorem end_to_end_delivery_witness:
  "\<exists>m. history (net_delivers Right) wit_step [App Left (CWrite [7, 8]), Transmit Left, Arrive Right 0, App Right (CRead 5)] wit_net
     @ bs_buf (inbound_stream (tcp (node (run wit_step
         [App Left (CWrite [7, 8]), Transmit Left, Arrive Right 0, App Right (CRead 5)] wit_net) Right)))
   = map (\<lambda>i. 7 + of_nat i) [0..<m] \<and> m \<le> 2"
  using end_to_end_delivery [OF numeric_resolver_exists _ wit_match wit_net_ok [unfolded wit_net_def], of Right]
  unfolding wit_net_def by auto

end
